(* ===== verification/Prelude.thy ===== *)
theory Prelude
  imports Main "HOL-Library.Word"
begin

text \<open>
  Shared vocabulary of the development: the fixed-width integer types of
  \<^verbatim>\<open>include/pureunix/types.h\<close>, byte buffers with the two operations every
  driver performs on them (read a range, overwrite a range), and the little-endian
  views of 16- and 32-bit fields.
\<close>

unbundle bit_operations_syntax

section \<open>Fixed-width integers and byte buffers\<close>

type_synonym u8 = "8 word"
type_synonym u16 = "16 word"
type_synonym u32 = "32 word"
type_synonym u64 = "64 word"
type_synonym bytes = "u8 list"

named_theorems buf_simps \<open>rewrite rules for ranges of byte buffers\<close>
named_theorems le_simps \<open>rewrite rules for little-endian fields in a buffer\<close>

definition bslice :: "nat \<Rightarrow> nat \<Rightarrow> 'a list \<Rightarrow> 'a list" where
  "bslice off n xs = take n (drop off xs)"

definition patch :: "nat \<Rightarrow> 'a list \<Rightarrow> 'a list \<Rightarrow> 'a list" where
  "patch off ys xs = take off xs @ ys @ drop (off + length ys) xs"

lemma length_bslice [simp]: "length (bslice off n xs) = min n (length xs - off)"
  by (simp add: bslice_def)

lemma length_patch [simp]:
  "off + length ys \<le> length xs \<Longrightarrow> length (patch off ys xs) = length xs"
  by (simp add: patch_def)

lemma nth_bslice: "i < n \<Longrightarrow> off + i < length xs \<Longrightarrow> bslice off n xs ! i = xs ! (off + i)"
  by (simp add: bslice_def)

lemma nth_patch:
  assumes "off + length ys \<le> length xs" and "i < length xs"
  shows "patch off ys xs ! i =
    (if off \<le> i \<and> i < off + length ys then ys ! (i - off) else xs ! i)"
  using assms by (auto simp: patch_def nth_append min_def)

lemma bslice_patch_same [buf_simps]:
  "off + length ys \<le> length xs \<Longrightarrow> n = length ys \<Longrightarrow> bslice off n (patch off ys xs) = ys"
  by (simp add: bslice_def patch_def)

lemma bslice_patch_other [buf_simps]:
  assumes "off + length ys \<le> length xs" and "a + n \<le> off \<or> off + length ys \<le> a"
  shows "bslice a n (patch off ys xs) = bslice a n xs"
proof (rule nth_equalityI)
  show "length (bslice a n (patch off ys xs)) = length (bslice a n xs)"
    using assms by simp
next
  fix i assume "i < length (bslice a n (patch off ys xs))"
  then have i: "i < n" "a + i < length xs" using assms by auto
  then show "bslice a n (patch off ys xs) ! i = bslice a n xs ! i"
    using assms by (auto simp: nth_bslice nth_patch)
qed

lemma patch_bslice_id [buf_simps]:
  "off + n \<le> length xs \<Longrightarrow> patch off (bslice off n xs) xs = xs"
  by (rule nth_equalityI) (auto simp: nth_patch nth_bslice)

lemma patch_whole [simp]: "length ys = length xs \<Longrightarrow> patch 0 ys xs = ys"
  by (simp add: patch_def)

lemma bslice_whole [simp]: "length xs = n \<Longrightarrow> bslice 0 n xs = xs"
  by (simp add: bslice_def)

section \<open>Little-endian fields\<close>

lemma bit_u8_ge: "8 \<le> n \<Longrightarrow> \<not> bit (w :: u8) n"
  using bit_imp_le_length [of w n] by auto

definition get16 :: "bytes \<Rightarrow> nat \<Rightarrow> u16" where
  "get16 bs off = ucast (bs ! off) OR push_bit 8 (ucast (bs ! (off + 1)))"

definition get32 :: "bytes \<Rightarrow> nat \<Rightarrow> u32" where
  "get32 bs off = ucast (bs ! off) OR push_bit 8 (ucast (bs ! (off + 1)))
     OR push_bit 16 (ucast (bs ! (off + 2))) OR push_bit 24 (ucast (bs ! (off + 3)))"

definition put16 :: "u16 \<Rightarrow> bytes" where
  "put16 v = [ucast v, ucast (drop_bit 8 v)]"

definition put32 :: "u32 \<Rightarrow> bytes" where
  "put32 v = [ucast v, ucast (drop_bit 8 v), ucast (drop_bit 16 v), ucast (drop_bit 24 v)]"

lemma length_put16 [simp]: "length (put16 v) = 2"
  by (simp add: put16_def)

lemma length_put32 [simp]: "length (put32 v) = 4"
  by (simp add: put32_def)

lemma get16_put16 [simp]: "get16 (put16 v) 0 = v"
  by (rule bit_word_eqI) (auto simp: get16_def put16_def bit_simps)

lemma get16_bslice: "off + 2 \<le> length bs \<Longrightarrow> get16 bs off = get16 (bslice off 2 bs) 0"
  by (simp add: get16_def nth_bslice)

lemma get32_bslice: "off + 4 \<le> length bs \<Longrightarrow> get32 bs off = get32 (bslice off 4 bs) 0"
  by (simp add: get32_def nth_bslice)

lemma get32_put32 [simp]: "get32 (put32 v) 0 = v"
proof (rule bit_word_eqI)
  fix n assume "n < LENGTH(32)"
  then have "n < 8 \<or> 8 \<le> n \<and> n < 16 \<or> 16 \<le> n \<and> n < 24 \<or> 24 \<le> n \<and> n < 32" by auto
  then show "bit (get32 (put32 v) 0) n = bit v n"
    by (elim disjE) (auto simp: get32_def put32_def bit_simps)
qed

lemma put16_get16: "length bs = 2 \<Longrightarrow> put16 (get16 bs 0) = bs"
proof -
  assume "length bs = 2"
  then obtain a b where "bs = [a, b]" by (auto simp: length_Suc_conv numeral_2_eq_2)
  moreover have "put16 (get16 [a, b] 0) = [a, b]"
    by (auto simp: put16_def get16_def bit_simps bit_u8_ge intro!: bit_word_eqI)
  ultimately show ?thesis by simp
qed

lemma put32_get32: "length bs = 4 \<Longrightarrow> put32 (get32 bs 0) = bs"
proof -
  assume "length bs = 4"
  then obtain a b c d where "bs = [a, b, c, d]"
    by (auto simp: length_Suc_conv numeral_eq_Suc)
  moreover have "put32 (get32 [a, b, c, d] 0) = [a, b, c, d]"
    by (auto simp: put32_def get32_def bit_simps bit_u8_ge intro!: bit_word_eqI)
  ultimately show ?thesis by simp
qed

lemma get16_patch_same [le_simps]:
  "off + 2 \<le> length xs \<Longrightarrow> get16 (patch off (put16 v) xs) off = v"
  by (simp add: get16_bslice [of off] bslice_patch_same)

lemma get32_patch_same [le_simps]:
  "off + 4 \<le> length xs \<Longrightarrow> get32 (patch off (put32 v) xs) off = v"
  by (simp add: get32_bslice [of off] bslice_patch_same)

lemma get16_patch_other [le_simps]:
  "off + length ys \<le> length xs \<Longrightarrow> a + 2 \<le> length xs \<Longrightarrow>
    a + 2 \<le> off \<or> off + length ys \<le> a \<Longrightarrow> get16 (patch off ys xs) a = get16 xs a"
  by (simp add: get16_bslice [of a] bslice_patch_other)

lemma get32_patch_other [le_simps]:
  "off + length ys \<le> length xs \<Longrightarrow> a + 4 \<le> length xs \<Longrightarrow>
    a + 4 \<le> off \<or> off + length ys \<le> a \<Longrightarrow> get32 (patch off ys xs) a = get32 xs a"
  by (simp add: get32_bslice [of a] bslice_patch_other)

section \<open>Alignment\<close>

text \<open>\<^verbatim>\<open>ALIGN_UP\<close> and \<^verbatim>\<open>ALIGN_DOWN\<close> of \<^verbatim>\<open>types.h\<close>, at 32 bits: the sum
  of \<open>align_up\<close> wraps around as the macro's does.\<close>

definition align_up :: "u32 \<Rightarrow> u32 \<Rightarrow> u32" where
  "align_up v a = (v + (a - 1)) AND NOT (a - 1)"

definition align_down :: "u32 \<Rightarrow> u32 \<Rightarrow> u32" where
  "align_down v a = v AND NOT (a - 1)"

lemma and_not_mask_eq:
  "(w :: u32) AND NOT (mask n) = push_bit n (drop_bit n w)"
  by (rule bit_word_eqI) (auto simp: bit_simps)

lemma unat_and_not_mask:
  "unat ((w :: u32) AND NOT (mask n)) = unat w div 2 ^ n * 2 ^ n"
proof -
  have "unat (push_bit n (drop_bit n w)) = push_bit n (drop_bit n (unat w))"
    by (rule bit_eqI) (auto simp: bit_simps dest: bit_imp_le_length)
  then show ?thesis
    by (simp add: and_not_mask_eq push_bit_eq_mult drop_bit_eq_div)
qed

lemma unat_align_down:
  "a - 1 = mask n \<Longrightarrow> unat (align_down v a) = unat v div 2 ^ n * 2 ^ n"
  by (simp add: align_down_def unat_and_not_mask)

lemma unat_mask_u32: "n \<le> 32 \<Longrightarrow> unat (mask n :: u32) = 2 ^ n - 1"
proof -
  assume "n \<le> 32"
  then have "unat (mask n :: u32) = mask n" by (intro bit_eqI) (auto simp: bit_simps)
  then show ?thesis by (simp only: mask_eq_exp_minus_1)
qed

lemma unat_align_up:
  assumes "a - 1 = mask n" and "unat v + (2 ^ n - 1) < 2 ^ 32" and "n \<le> 32"
  shows "unat (align_up v a) = (unat v + (2 ^ n - 1)) div 2 ^ n * 2 ^ n"
proof -
  have m: "unat (mask n :: u32) = 2 ^ n - 1"
    using assms(3) by (rule unat_mask_u32)
  have "unat (v + mask n) = unat v + (2 ^ n - 1)"
    using assms(2) m by (simp add: unat_word_ariths)
  then show ?thesis
    using assms(1) by (simp add: align_up_def unat_and_not_mask)
qed

lemma align_up_dvd: "a - 1 = mask n \<Longrightarrow> 2 ^ n dvd unat (align_up v a)"
  by (simp add: align_up_def unat_and_not_mask)

lemma align_down_dvd: "a - 1 = mask n \<Longrightarrow> 2 ^ n dvd unat (align_down v a)"
  by (simp add: align_down_def unat_and_not_mask)

lemma unat_of_nat_u32: "n < 2 ^ 32 \<Longrightarrow> unat (word_of_nat n :: u32) = n"
  by (simp add: unsigned_of_nat take_bit_nat_eq_self_iff)

lemma u32_lt: "unat (w :: u32) < 4294967296"
proof -
  have "unat w < 2 ^ LENGTH(32)" by (rule unsigned_less)
  then show ?thesis by simp
qed

lemma unat_ucast_u32: "unat (ucast (w :: u64) :: u32) = unat w mod 2 ^ 32"
  by (simp add: unsigned_ucast_eq take_bit_eq_mod)

lemma mult_le_div_mult: "k * d \<le> n \<longleftrightarrow> k * d \<le> n div d * d" if "0 < d" for k d n :: nat
proof
  assume "k * d \<le> n"
  then have "k \<le> n div d" using that by (simp add: less_eq_div_iff_mult_less_eq)
  then show "k * d \<le> n div d * d" by simp
next
  assume "k * d \<le> n div d * d"
  then show "k * d \<le> n" using div_times_less_eq_dividend le_trans by blast
qed

section \<open>Lists\<close>

lemma find_SomeD: "find P xs = Some x \<Longrightarrow> x \<in> set xs \<and> P x"
  by (induction xs) (auto split: if_splits)

lemma find_append: "find P (xs @ ys) = (case find P xs of None \<Rightarrow> find P ys | Some x \<Rightarrow> Some x)"
  by (induction xs) auto

section \<open>String literals\<close>

text \<open>The bytes of a C string literal, without its terminating zero byte.\<close>

definition lit :: "string \<Rightarrow> bytes" where
  "lit = map of_char"

end
