(* ===== verification/Memory.thy ===== *)
theory Memory
  imports Prelude
begin

text \<open>
  The flat byte memory of the machine, as the kernel's C code sees it: 32-bit and 64-bit
  little-endian accesses at an address, and the four \<^verbatim>\<open>mem*\<close> routines of
  \<^verbatim>\<open>libc/string.c\<close>, each the loop the source has. The lemmas say what the routines
  leave in memory; addresses in proofs are written as images of natural numbers.
\<close>

section \<open>Words in memory\<close>

type_synonym mem = "u32 \<Rightarrow> u8"

abbreviation W :: "nat \<Rightarrow> u32" where "W \<equiv> word_of_nat"

definition ld32 :: "mem \<Rightarrow> u32 \<Rightarrow> u32" where
  "ld32 m a = get32 [m a, m (a + 1), m (a + 2), m (a + 3)] 0"

definition ld64 :: "mem \<Rightarrow> u32 \<Rightarrow> u64" where
  "ld64 m a = ucast (ld32 m a) OR push_bit 32 (ucast (ld32 m (a + 4)))"

definition st32 :: "mem \<Rightarrow> u32 \<Rightarrow> u32 \<Rightarrow> mem" where
  "st32 m a v = m(a := put32 v ! 0, a + 1 := put32 v ! 1, a + 2 := put32 v ! 2, a + 3 := put32 v ! 3)"

lemma W_inj: "a < 2 ^ 32 \<Longrightarrow> b < 2 ^ 32 \<Longrightarrow> W a = W b \<longleftrightarrow> a = b"
  by (metis unat_of_nat_u32)

lemma W_unat [simp]: "W (unat a) = a"
  by simp

lemma ld32_st32_same [simp]: "ld32 (st32 m a v) a = v"
proof -
  have "[put32 v ! 0, put32 v ! 1, put32 v ! 2, put32 v ! 3] = put32 v"
    by (simp add: put32_def)
  then show ?thesis using get32_put32 [of v] by (simp add: ld32_def st32_def)
qed

lemma st32_other:
  assumes "x \<noteq> a" "x \<noteq> a + 1" "x \<noteq> a + 2" "x \<noteq> a + 3"
  shows "st32 m a v x = m x"
  using assms by (simp add: st32_def)

lemma ld32_cong:
  assumes "m' a = m a" "m' (a + 1) = m (a + 1)" "m' (a + 2) = m (a + 2)" "m' (a + 3) = m (a + 3)"
  shows "ld32 m' a = ld32 m a"
  using assms by (simp add: ld32_def)

section \<open>Ranges of addresses\<close>

definition in_range :: "u32 \<Rightarrow> nat \<Rightarrow> u32 \<Rightarrow> bool" where
  "in_range a n x \<longleftrightarrow> unat (x - a) < n"

lemma in_range_nat:
  assumes "a + n \<le> 2 ^ 32" and "x < 2 ^ 32"
  shows "in_range (W a) n (W x) \<longleftrightarrow> a \<le> x \<and> x < a + n"
proof (cases "n = 0")
  case False
  then have "a < 2 ^ 32" using assms by simp
  show ?thesis
  proof (cases "a \<le> x")
    case True
    then have "W x - W a = W (x - a)" by simp
    then show ?thesis using True assms by (auto simp: in_range_def unat_of_nat_u32 simp del: of_nat_diff)
  next
    case f: False
    then have "W x - W a = W (2 ^ 32 + x - a)"
      using \<open>a < 2 ^ 32\<close> by (simp add: of_nat_diff)
    then have "unat (W x - W a) = 2 ^ 32 + x - a"
      using f assms by (subst \<open>W x - W a = W (2 ^ 32 + x - a)\<close>, subst unat_of_nat_u32) auto
    then show ?thesis using f assms by (auto simp: in_range_def)
  qed
qed (simp add: in_range_def)

section \<open>The memory routines of libc\<close>

primrec memset_loop :: "u8 \<Rightarrow> nat \<Rightarrow> u32 \<Rightarrow> mem \<Rightarrow> mem" where
  "memset_loop value 0 d m = m"
| "memset_loop value (Suc count) d m = memset_loop value count (d + 1) (m(d := value))"

definition memset :: "mem \<Rightarrow> u32 \<Rightarrow> u32 \<Rightarrow> u32 \<Rightarrow> mem" where
  "memset m dest value count = memset_loop (ucast value) (unat count) dest m"

primrec memcpy_loop :: "nat \<Rightarrow> u32 \<Rightarrow> u32 \<Rightarrow> mem \<Rightarrow> mem" where
  "memcpy_loop 0 d s m = m"
| "memcpy_loop (Suc count) d s m = memcpy_loop count (d + 1) (s + 1) (m(d := m s))"

definition memcpy :: "mem \<Rightarrow> u32 \<Rightarrow> u32 \<Rightarrow> u32 \<Rightarrow> mem" where
  "memcpy m dest src count = memcpy_loop (unat count) dest src m"

primrec memcpy_back :: "nat \<Rightarrow> u32 \<Rightarrow> u32 \<Rightarrow> mem \<Rightarrow> mem" where
  "memcpy_back 0 d s m = m"
| "memcpy_back (Suc count) d s m = memcpy_back count (d - 1) (s - 1) (m(d - 1 := m (s - 1)))"

definition memmove :: "mem \<Rightarrow> u32 \<Rightarrow> u32 \<Rightarrow> u32 \<Rightarrow> mem" where
  "memmove m dest src count =
     (if dest < src then memcpy_loop (unat count) dest src m
      else if dest > src then memcpy_back (unat count) (dest + count) (src + count) m
      else m)"

primrec memcmp_loop :: "mem \<Rightarrow> nat \<Rightarrow> u32 \<Rightarrow> u32 \<Rightarrow> int" where
  "memcmp_loop m 0 pa pb = 0"
| "memcmp_loop m (Suc count) pa pb =
     (if m pa \<noteq> m pb then uint (m pa) - uint (m pb) else memcmp_loop m count (pa + 1) (pb + 1))"

definition memcmp :: "mem \<Rightarrow> u32 \<Rightarrow> u32 \<Rightarrow> u32 \<Rightarrow> int" where
  "memcmp m a b count = memcmp_loop m (unat count) a b"

lemma unat_dec: "(k :: u32) \<noteq> 0 \<Longrightarrow> unat (k - 1) = unat k - 1"
  by (simp add: unat_minus_one)

lemma in_range_Suc:
  assumes "n < 2 ^ 32"
  shows "in_range d (Suc n) x \<longleftrightarrow> x = d \<or> in_range (d + 1) n x" and "\<not> in_range (d + 1) n d"
proof -
  have k: "x - (d + 1) = (x - d) - 1" by simp
  show "in_range d (Suc n) x \<longleftrightarrow> x = d \<or> in_range (d + 1) n x"
  proof (cases "x = d")
    case False
    then have "x - d \<noteq> 0" by simp
    then have "unat (x - d) \<noteq> 0" by (simp only: unat_eq_0 not_False_eq_True)
    with False show ?thesis
      unfolding in_range_def k unat_dec [OF \<open>x - d \<noteq> 0\<close>] by auto
  qed (simp add: in_range_def)
  have "unat (d - (d + 1)) = 2 ^ 32 - 1" by (simp add: unsigned_minus_1_eq_mask mask_eq_exp_minus_1)
  then show "\<not> in_range (d + 1) n d" using assms by (simp add: in_range_def)
qed

lemma memset_loop_spec:
  "n \<le> 2 ^ 32 \<Longrightarrow> memset_loop c n d m x = (if in_range d n x then c else m x)"
proof (induction n arbitrary: d m)
  case (Suc n)
  then show ?case using in_range_Suc(1) [of n d x] in_range_Suc(2) [of n d] by simp
qed (simp add: in_range_def)

lemma memset_spec: "memset m d c n x = (if in_range d (unat n) x then ucast c else m x)"
  using u32_lt [of n] by (simp add: memset_def memset_loop_spec)

lemma memcpy_loop_spec:
  "n \<le> 2 ^ 32 \<Longrightarrow> d = s \<or> n \<le> unat (d - s) \<Longrightarrow>
    memcpy_loop n d s m x = (if in_range d n x then m (s + (x - d)) else m x)"
proof (induction n arbitrary: d s m)
  case (Suc n)
  have "d + 1 = s + 1 \<or> n \<le> unat (d + 1 - (s + 1))" using Suc.prems by auto
  then have IH: "memcpy_loop (Suc n) d s m x =
      (if in_range (d + 1) n x then (m(d := m s)) (s + 1 + (x - (d + 1))) else (m(d := m s)) x)"
    using Suc by simp
  have "s + (x - d) \<noteq> d" if "in_range (d + 1) n x" and "d \<noteq> s"
  proof
    assume "s + (x - d) = d"
    then have "x - d = d - s" by (simp add: algebra_simps)
    moreover from this \<open>d \<noteq> s\<close> have "x \<noteq> d" by auto
    ultimately show False
      using that Suc.prems in_range_Suc(1) [of n d x] by (auto simp: in_range_def)
  qed
  then show ?case
    unfolding IH using in_range_Suc(1) [of n d x] in_range_Suc(2) [of n d] Suc.prems
    by (cases "d = s") auto
qed (simp add: in_range_def)

lemma in_range_back:
  assumes "n < 2 ^ 32"
  shows "in_range (d - W (Suc n)) (Suc n) x \<longleftrightarrow> x = d - 1 \<or> in_range (d - 1 - W n) n x"
    and "\<not> in_range (d - 1 - W n) n (d - 1)"
proof -
  let ?k = "x - (d - 1 - W n)"
  have u: "unat (W n) = n" using assms by (simp add: unat_of_nat_u32)
  have "x = d - 1 \<longleftrightarrow> ?k = W n" by (auto simp: algebra_simps)
  also have "\<dots> \<longleftrightarrow> unat ?k = n" using u by (metis word_unat_eq_iff)
  finally show "in_range (d - W (Suc n)) (Suc n) x \<longleftrightarrow> x = d - 1 \<or> in_range (d - 1 - W n) n x"
    by (auto simp: in_range_def algebra_simps less_Suc_eq)
  show "\<not> in_range (d - 1 - W n) n (d - 1)" using u by (simp add: in_range_def)
qed

lemma memcpy_back_spec:
  "n \<le> 2 ^ 32 \<Longrightarrow> s = d \<or> n \<le> unat (s - d) \<Longrightarrow>
    memcpy_back n d s m x = (if in_range (d - W n) n x then m (s + (x - d)) else m x)"
proof (induction n arbitrary: d s m)
  case (Suc n)
  have "s - 1 = d - 1 \<or> n \<le> unat (s - 1 - (d - 1))" using Suc.prems by auto
  then have IH: "memcpy_back (Suc n) d s m x =
      (if in_range (d - 1 - W n) n x then (m(d - 1 := m (s - 1))) (s - 1 + (x - (d - 1)))
       else (m(d - 1 := m (s - 1))) x)"
    using Suc by simp
  have "s + (x - d) \<noteq> d - 1" if "in_range (d - 1 - W n) n x" and "s \<noteq> d"
  proof
    assume "s + (x - d) = d - 1"
    then have sd: "s - d = (d - 1) - x" by (simp add: algebra_simps)
    have "unat ((d - 1) - x) \<le> n"
    proof -
      let ?k = "x - (d - 1 - W n)"
      have "unat ?k < n" using that by (simp add: in_range_def)
      moreover have "(d - 1) - x = W n - ?k" by simp
      moreover have "unat (W n) = n" using Suc.prems by (simp add: unat_of_nat_u32)
      ultimately show ?thesis by (metis diff_le_self less_imp_le unat_sub word_le_nat_alt)
    qed
    then have "unat (s - d) \<le> n" by (simp only: sd)
    then show False using that Suc.prems by auto
  qed
  then show ?case
    unfolding IH using in_range_back(1) [of n d x] in_range_back(2) [of n d] Suc.prems
    by (cases "s = d") auto
qed (simp add: in_range_def)

text \<open>C14. \<open>memmove\<close> copies correctly also when the two ranges overlap: afterwards every byte of
  the destination is what the source held before the call, and no other byte has changed.\<close>

theorem memmove_correct:
  assumes "unat dest + unat n \<le> 2 ^ 32" and "unat src + unat n \<le> 2 ^ 32"
  shows "memmove m dest src n x = (if in_range dest (unat n) x then m (src + (x - dest)) else m x)"
proof -
  have n: "unat n \<le> 2 ^ 32" using u32_lt [of n] by simp
  consider "dest < src" | "src < dest" | "src = dest" by (meson linorder_neqE)
  then show ?thesis
  proof cases
    case 1
    then have "unat (dest - src) = 2 ^ 32 + unat dest - unat src"
      by (simp add: unat_sub_if_size word_size word_less_nat_alt)
    then have "unat n \<le> unat (dest - src)" using assms(2) by simp
    then show ?thesis using 1 n by (simp add: memmove_def memcpy_loop_spec)
  next
    case 2
    then have "unat (src - dest) = 2 ^ 32 + unat src - unat dest"
      by (simp add: unat_sub_if_size word_size word_less_nat_alt)
    then have "unat n \<le> unat (src - dest)" using assms(1) by simp
    then have "memcpy_back (unat n) (dest + n) (src + n) m x =
        (if in_range dest (unat n) x then m (src + (x - dest)) else m x)"
      using n memcpy_back_spec [of "unat n" "src + n" "dest + n" m x] by (simp add: algebra_simps)
    then show ?thesis using 2 by (auto simp: memmove_def)
  next
    case 3
    then show ?thesis by (simp add: memmove_def)
  qed
qed

theorem memmove_correct_witness:
  "unat (0x1004 :: u32) + unat (8 :: u32) \<le> 2 ^ 32 \<and> unat (0x1000 :: u32) + unat (8 :: u32) \<le> 2 ^ 32 \<and>
   memmove ucast 0x1004 0x1000 8 0x1006 = 2"
  using memmove_correct [of "0x1004" 8 "0x1000" ucast "0x1006"] by (simp add: in_range_def)

lemma memcpy_spec:
  assumes "dest = src \<or> unat n \<le> unat (dest - src)"
  shows "memcpy m dest src n x = (if in_range dest (unat n) x then m (src + (x - dest)) else m x)"
  using assms u32_lt [of n] by (simp add: memcpy_def memcpy_loop_spec)

lemma memcmp_loop_0_iff: "memcmp_loop m n a b = 0 \<longleftrightarrow> (\<forall>i < n. m (a + W i) = m (b + W i))"
proof (induction n arbitrary: a b)
  case (Suc n)
  have "(\<forall>i < Suc n. m (a + W i) = m (b + W i)) \<longleftrightarrow>
      m a = m b \<and> (\<forall>i < n. m (a + W (Suc i)) = m (b + W (Suc i)))"
    by (auto simp: All_less_Suc2)
  then show ?case using Suc [of "a + 1" "b + 1"] by (auto simp: add.assoc word_uint_eq_iff [of "m a" "m b"])
qed simp

lemma memcmp_0_iff: "memcmp m a b n = 0 \<longleftrightarrow> (\<forall>i < unat n. m (a + W i) = m (b + W i))"
  by (simp add: memcmp_def memcmp_loop_0_iff)

end
