(* ===== verification/Pmm.thy ===== *)
theory Pmm
  imports Memory
begin

text \<open>
  The physical memory manager, \<^verbatim>\<open>kernel/pmm.c\<close>: a bitmap of 32768 page frames
  (128 MiB) with a cached count of free frames, filled from the boot loader's memory map.
  The static variables of the file are the record \<open>pmm\<close>; each C function is one
  definition on it. The addresses the linker provides are the record
  \<open>kernel_image\<close>, the boot information is a byte memory. The two walks over boot
  information may run forever on a malformed table, so they return an option.
  The lemmas abstract a state to the set \<open>used\<close> of its frames in use.
\<close>

section \<open>State\<close>

definition MAX_FRAMES :: u32 where "MAX_FRAMES = 32768"

record pmm =
  frame_bitmap :: "u32 list"
  total_frames :: u32
  free_frames :: u32

section \<open>Operations\<close>

definition frame_mask :: "u32 \<Rightarrow> u32" where
  "frame_mask frame = push_bit (unat (frame mod 32)) 1"

definition frame_word :: "u32 \<Rightarrow> nat" where
  "frame_word frame = unat (frame div 32)"

definition frame_set :: "u32 \<Rightarrow> pmm \<Rightarrow> pmm" where
  "frame_set frame p =
     (if frame \<ge> MAX_FRAMES then p
      else if (frame_bitmap p ! frame_word frame) AND frame_mask frame = 0 then
        (let p' = p\<lparr>frame_bitmap := (frame_bitmap p)[frame_word frame :=
                     (frame_bitmap p ! frame_word frame) OR frame_mask frame]\<rparr>
         in if free_frames p' \<noteq> 0 then p'\<lparr>free_frames := free_frames p' - 1\<rparr> else p')
      else p)"

definition frame_clear :: "u32 \<Rightarrow> pmm \<Rightarrow> pmm" where
  "frame_clear frame p =
     (if frame \<ge> MAX_FRAMES then p
      else if (frame_bitmap p ! frame_word frame) AND frame_mask frame \<noteq> 0 then
        p\<lparr>frame_bitmap := (frame_bitmap p)[frame_word frame :=
             (frame_bitmap p ! frame_word frame) AND NOT (frame_mask frame)],
          free_frames := free_frames p + 1\<rparr>
      else p)"

definition frame_test :: "u32 \<Rightarrow> pmm \<Rightarrow> bool" where
  "frame_test frame p \<longleftrightarrow> (frame_bitmap p ! frame_word frame) AND frame_mask frame \<noteq> 0"

function free_loop :: "nat \<Rightarrow> nat \<Rightarrow> pmm \<Rightarrow> pmm" where
  "free_loop addr end p =
     (if addr + 4096 \<le> end then free_loop (addr + 4096) end (frame_clear (word_of_nat (addr div 4096)) p)
      else p)"
  by pat_completeness auto
termination by (relation "measure (\<lambda>(addr, end, p). end - addr)") auto

definition mark_region_free :: "u64 \<Rightarrow> u64 \<Rightarrow> pmm \<Rightarrow> pmm" where
  "mark_region_free base len p =
     (let start = align_up (ucast base) 4096;
          end = align_down (ucast (base + len)) 4096;
          end = (if end > 0x8000000 then 0x8000000 else end)
      in free_loop (unat start) (unat end) p)"

function reserve_loop :: "nat \<Rightarrow> nat \<Rightarrow> pmm \<Rightarrow> pmm" where
  "reserve_loop addr end p =
     (if addr < end then reserve_loop (addr + 4096) end (frame_set (word_of_nat (addr div 4096)) p)
      else p)"
  by pat_completeness auto
termination by (relation "measure (\<lambda>(addr, end, p). end - addr)") auto

definition reserve_region :: "u32 \<Rightarrow> u32 \<Rightarrow> pmm \<Rightarrow> pmm" where
  "reserve_region base len p =
     (let start = align_down base 4096;
          end = align_up (base + len) 4096;
          end = (if end > 0x8000000 then 0x8000000 else end)
      in reserve_loop (unat start) (unat end) p)"

declare free_loop.simps [simp del] reserve_loop.simps [simp del]

fun alloc_scan :: "nat \<Rightarrow> nat \<Rightarrow> pmm \<Rightarrow> u32 \<times> pmm" where
  "alloc_scan i 0 p = (0, p)"
| "alloc_scan i (Suc n) p =
     (if \<not> frame_test (word_of_nat i) p
      then (word_of_nat i * 4096, frame_set (word_of_nat i) p)
      else alloc_scan (Suc i) n p)"

definition pmm_alloc_frame :: "pmm \<Rightarrow> u32 \<times> pmm" where
  "pmm_alloc_frame p = alloc_scan 0 (unat (total_frames p)) p"

definition pmm_free_frame :: "u32 \<Rightarrow> pmm \<Rightarrow> pmm" where
  "pmm_free_frame frame p = frame_clear (frame div 4096) p"

definition pmm_total_memory_kb :: "pmm \<Rightarrow> u32" where
  "pmm_total_memory_kb p = (total_frames p * 4096) div 1024"

definition pmm_free_memory_kb :: "pmm \<Rightarrow> u32" where
  "pmm_free_memory_kb p = (free_frames p * 4096) div 1024"

section \<open>Boot information and initialisation\<close>

partial_function (option) mb2_entries :: "mem \<Rightarrow> u32 \<Rightarrow> u32 \<Rightarrow> u32 \<Rightarrow> pmm \<Rightarrow> pmm option" where
  "mb2_entries m entry mmap_end entry_size p =
     (if entry < mmap_end then
        mb2_entries m (entry + entry_size) mmap_end entry_size
          (if ld32 m (entry + 16) = 1 then mark_region_free (ld64 m entry) (ld64 m (entry + 8)) p else p)
      else Some p)"

partial_function (option) mb2_tags :: "mem \<Rightarrow> u32 \<Rightarrow> u32 \<Rightarrow> pmm \<Rightarrow> pmm option" where
  "mb2_tags m cursor end p =
     (if cursor < end then
        (if ld32 m cursor = 0 then Some p
         else Option.bind
           (if ld32 m cursor = 6
            then mb2_entries m (cursor + 16) (cursor + ld32 m (cursor + 4)) (ld32 m (cursor + 8)) p
            else Some p)
           (mb2_tags m (cursor + align_up (ld32 m (cursor + 4)) 8) end))
      else Some p)"

definition parse_multiboot2 :: "mem \<Rightarrow> u32 \<Rightarrow> pmm \<Rightarrow> pmm option" where
  "parse_multiboot2 m mbi_addr p = mb2_tags m (mbi_addr + 8) (mbi_addr + ld32 m mbi_addr) p"

partial_function (option) mb1_entries :: "mem \<Rightarrow> u32 \<Rightarrow> u32 \<Rightarrow> pmm \<Rightarrow> pmm option" where
  "mb1_entries m cursor end p =
     (if cursor < end then
        mb1_entries m (cursor + (ld32 m cursor + 4)) end
          (if ld32 m (cursor + 20) = 1
           then mark_region_free (ld64 m (cursor + 4)) (ld64 m (cursor + 12)) p else p)
      else Some p)"

definition parse_multiboot1 :: "mem \<Rightarrow> u32 \<Rightarrow> pmm \<Rightarrow> pmm option" where
  "parse_multiboot1 m mbi_addr p =
     (let flags = ld32 m mbi_addr;
          mem_upper = ld32 m (mbi_addr + 8);
          mmap_length = ld32 m (mbi_addr + 44);
          mmap_addr = ld32 m (mbi_addr + 48)
      in if bit flags 6 then mb1_entries m mmap_addr (mmap_addr + mmap_length) p
         else if bit flags 0 then Some (mark_region_free 0x100000 (ucast mem_upper * 1024) p)
         else Some p)"

record kernel_image =
  kernel_start :: u32
  kernel_end :: u32
  bitmap_addr :: u32

definition pmm_reset :: pmm where
  "pmm_reset = \<lparr>frame_bitmap = replicate 1024 0xFFFFFFFF, total_frames = MAX_FRAMES, free_frames = 0\<rparr>"

definition pmm_init :: "kernel_image \<Rightarrow> mem \<Rightarrow> u32 \<Rightarrow> u32 \<Rightarrow> pmm option" where
  "pmm_init k m magic mbi_addr =
     (let p = pmm_reset in Option.bind
        (if magic = 0x36D76289 then parse_multiboot2 m mbi_addr p
         else if magic = 0x2BADB002 then parse_multiboot1 m mbi_addr p
         else Some (mark_region_free 0x100000 (15 * 1024 * 1024) p))
        (\<lambda>p. let p = reserve_region 0 0x100000 p;
                 p = reserve_region (kernel_start k) (kernel_end k - kernel_start k) p
             in Some (reserve_region (bitmap_addr k) 4096 p)))"

section \<open>Abstraction: the set of used frames\<close>

definition used :: "pmm \<Rightarrow> nat set" where
  "used p = {f. f < 32768 \<and> bit (frame_bitmap p ! (f div 32)) (f mod 32)}"

definition pmm_ok :: "pmm \<Rightarrow> bool" where
  "pmm_ok p \<longleftrightarrow> length (frame_bitmap p) = 1024 \<and> total_frames p = MAX_FRAMES \<and>
     unat (free_frames p) = 32768 - card (used p)"

lemma frame_word_unat: "frame_word f = unat f div 32"
  by (simp add: frame_word_def unat_div_distrib)

lemma frame_mask_unat: "frame_mask f = 2 ^ (unat f mod 32)"
  by (simp add: frame_mask_def unat_mod_distrib)

lemmas frame_bits = frame_word_unat frame_mask_unat and_exp_eq_0_iff_not_bit
  MAX_FRAMES_def word_less_nat_alt word_le_nat_alt

lemma frame_test_used: "f < MAX_FRAMES \<Longrightarrow> frame_test f p \<longleftrightarrow> unat f \<in> used p"
  by (simp add: frame_test_def used_def frame_bits)

lemma used_sub: "used p \<subseteq> {..<32768}"
  by (auto simp: used_def)

lemma used_finite [simp]: "finite (used p)"
  by (rule finite_subset [OF used_sub]) simp

lemma used_card: "card (used p) \<le> 32768"
  using card_mono [OF _ used_sub [of p]] by simp

lemma used_free_frames [simp]: "used (p\<lparr>free_frames := n\<rparr>) = used p"
  by (simp add: used_def)

lemma used_bitmap_upd:
  assumes "length (frame_bitmap p) = 1024" and f: "f < 32768"
    and w: "\<And>k. k < 32 \<Longrightarrow> bit w k = (if k = f mod 32 then b else bit (frame_bitmap p ! (f div 32)) k)"
  shows "used (p\<lparr>frame_bitmap := (frame_bitmap p)[f div 32 := w]\<rparr>) =
    (if b then insert f (used p) else used p - {f})"
proof -
  have "(bit ((frame_bitmap p)[f div 32 := w] ! (g div 32)) (g mod 32)) =
        (if g = f then b else bit (frame_bitmap p ! (g div 32)) (g mod 32))" if "g < 32768" for g
  proof (cases "g div 32 = f div 32")
    case True
    then have "g = f \<longleftrightarrow> g mod 32 = f mod 32" by (metis div_mult_mod_eq)
    moreover have "f div 32 < 1024" using f by auto
    ultimately show ?thesis using True assms(1) w [of "g mod 32"] by auto
  qed (use assms in auto)
  then show ?thesis using f by (auto simp: used_def split: if_splits)
qed

lemma frame_set_bitmap: "length (frame_bitmap (frame_set f p)) = length (frame_bitmap p)"
  "total_frames (frame_set f p) = total_frames p"
  by (auto simp: frame_set_def Let_def)

lemma frame_clear_bitmap: "length (frame_bitmap (frame_clear f p)) = length (frame_bitmap p)"
  "total_frames (frame_clear f p) = total_frames p"
  by (auto simp: frame_clear_def)

lemma used_frame_set:
  assumes "length (frame_bitmap p) = 1024"
  shows "used (frame_set f p) = (if unat f < 32768 then insert (unat f) (used p) else used p)"
proof (cases "unat f < 32768 \<and> unat f \<notin> used p")
  case True
  then have "used (p\<lparr>frame_bitmap := (frame_bitmap p)[unat f div 32 :=
      (frame_bitmap p ! (unat f div 32)) OR 2 ^ (unat f mod 32)]\<rparr>) = insert (unat f) (used p)"
    using assms by (subst used_bitmap_upd [where b = True]) (auto simp: bit_simps)
  with True show ?thesis
    by (auto simp: frame_set_def frame_bits Let_def used_def)
next
  case False
  then show ?thesis
    by (auto simp: frame_set_def frame_bits Let_def used_def)
qed

lemma used_frame_clear:
  assumes "length (frame_bitmap p) = 1024"
  shows "used (frame_clear f p) = (if unat f < 32768 then used p - {unat f} else used p)"
proof (cases "unat f < 32768 \<and> unat f \<in> used p")
  case True
  then have "used (p\<lparr>frame_bitmap := (frame_bitmap p)[unat f div 32 :=
      (frame_bitmap p ! (unat f div 32)) AND NOT (2 ^ (unat f mod 32))]\<rparr>) = used p - {unat f}"
    using assms by (subst used_bitmap_upd [where b = False]) (auto simp: bit_simps)
  with True show ?thesis
    by (auto simp: frame_clear_def frame_bits used_def)
next
  case False
  then show ?thesis
    by (auto simp: frame_clear_def frame_bits used_def)
qed

lemma free_frames_set:
  "free_frames (frame_set f p) =
     (if unat f < 32768 \<and> unat f \<notin> used p \<and> free_frames p \<noteq> 0 then free_frames p - 1 else free_frames p)"
  by (auto simp: frame_set_def frame_bits Let_def used_def)

lemma free_frames_clear:
  "free_frames (frame_clear f p) =
     (if unat f < 32768 \<and> unat f \<in> used p then free_frames p + 1 else free_frames p)"
  by (auto simp: frame_clear_def frame_bits used_def)

lemma frame_set_ok: "pmm_ok p \<Longrightarrow> pmm_ok (frame_set f p)"
proof -
  assume ok: "pmm_ok p"
  then have len: "length (frame_bitmap p) = 1024" by (simp add: pmm_ok_def)
  show ?thesis
  proof (cases "unat f < 32768 \<and> unat f \<notin> used p")
    case True
    then have "insert (unat f) (used p) \<subseteq> {..<32768}" using used_sub by auto
    then have "card (used p) < 32768"
      using card_mono [of "{..<32768::nat}" "insert (unat f) (used p)"] True by simp
    with ok have nz: "free_frames p \<noteq> 0" by (auto simp: pmm_ok_def)
    then have "unat (free_frames p - 1) = unat (free_frames p) - 1"
      by (metis unat_minus_one)
    with True ok nz show ?thesis
      by (simp add: pmm_ok_def frame_set_bitmap used_frame_set [OF len] free_frames_set)
  next
    case False
    with ok show ?thesis
      by (auto simp: pmm_ok_def frame_set_bitmap used_frame_set [OF len] free_frames_set insert_absorb)
  qed
qed

lemma frame_clear_ok: "pmm_ok p \<Longrightarrow> pmm_ok (frame_clear f p)"
proof -
  assume ok: "pmm_ok p"
  then have len: "length (frame_bitmap p) = 1024" by (simp add: pmm_ok_def)
  show ?thesis
  proof (cases "unat f < 32768 \<and> unat f \<in> used p")
    case True
    have u: "unat (free_frames p) \<le> 32768" using ok by (simp add: pmm_ok_def)
    then have "unat (free_frames p + 1) = unat (free_frames p) + 1"
      by (simp add: unat_word_ariths)
    moreover have "Suc 0 \<le> card (used p)"
      using True card_mono [of "used p" "{unat f}"] by simp
    ultimately show ?thesis using True ok used_card [of p]
      by (auto simp: pmm_ok_def frame_clear_bitmap used_frame_clear [OF len] free_frames_clear)
  next
    case False
    then have "used p - {unat f} = used p" if "unat f < 32768" using that by auto
    with False ok show ?thesis
      by (auto simp: pmm_ok_def frame_clear_bitmap used_frame_clear [OF len] free_frames_clear)
  qed
qed

lemma free_loop_spec:
  assumes "pmm_ok p" and "4096 dvd a" and "e \<le> 2 ^ 27"
  shows "pmm_ok (free_loop a e p) \<and>
    used (free_loop a e p) = used p - {f. a \<le> f * 4096 \<and> f * 4096 + 4096 \<le> e}"
  using assms
proof (induction a e p rule: free_loop.induct)
  case (1 a e p)
  show ?case
  proof (cases "a + 4096 \<le> e")
    case True
    from 1(3) obtain k where k: "a = k * 4096" by (metis dvd_div_mult_self)
    with True 1(4) have k32: "k < 32768" by simp
    let ?p = "frame_clear (word_of_nat k) p"
    have u: "unat (word_of_nat k :: u32) = k" using k32 by (simp add: unat_of_nat_u32)
    have IH: "pmm_ok (free_loop (a + 4096) e ?p) \<and> used (free_loop (a + 4096) e ?p) =
        used ?p - {f. a + 4096 \<le> f * 4096 \<and> f * 4096 + 4096 \<le> e}"
      using 1 True k frame_clear_ok by (auto simp: k)
    have "used ?p = used p - {k}" using 1(2) k32 u by (simp add: used_frame_clear pmm_ok_def)
    moreover have "{f. a \<le> f * 4096 \<and> f * 4096 + 4096 \<le> e} =
        insert k {f. a + 4096 \<le> f * 4096 \<and> f * 4096 + 4096 \<le> e}"
      using True k by auto
    ultimately show ?thesis
      using True IH k by (subst (1 2) free_loop.simps) auto
  next
    case False
    then show ?thesis using 1 by (auto simp: free_loop.simps [of a e p])
  qed
qed

lemma reserve_loop_spec:
  assumes "pmm_ok p" and "4096 dvd a" and "e \<le> 2 ^ 27"
  shows "pmm_ok (reserve_loop a e p) \<and>
    used (reserve_loop a e p) = used p \<union> {f. a \<le> f * 4096 \<and> f * 4096 < e}"
  using assms
proof (induction a e p rule: reserve_loop.induct)
  case (1 a e p)
  show ?case
  proof (cases "a < e")
    case True
    from 1(3) obtain k where k: "a = k * 4096" by (metis dvd_div_mult_self)
    with True 1(4) have k32: "k < 32768" by simp
    let ?p = "frame_set (word_of_nat k) p"
    have u: "unat (word_of_nat k :: u32) = k" using k32 by (simp add: unat_of_nat_u32)
    have IH: "pmm_ok (reserve_loop (a + 4096) e ?p) \<and> used (reserve_loop (a + 4096) e ?p) =
        used ?p \<union> {f. a + 4096 \<le> f * 4096 \<and> f * 4096 < e}"
      using 1 True k frame_set_ok by (auto simp: k)
    have "used ?p = insert k (used p)" using 1(2) k32 u by (simp add: used_frame_set pmm_ok_def)
    moreover have "{f. a \<le> f * 4096 \<and> f * 4096 < e} =
        insert k {f. a + 4096 \<le> f * 4096 \<and> f * 4096 < e}"
      using True k by auto
    ultimately show ?thesis
      using True IH k by (subst (1 2) reserve_loop.simps) auto
  next
    case False
    then show ?thesis using 1 by (auto simp: reserve_loop.simps [of a e p])
  qed
qed

lemma align_4096: "4096 - 1 = (mask 12 :: u32)"
  by (simp add: mask_eq_exp_minus_1)

lemma mark_region_free_used:
  fixes b l :: u64
  assumes "pmm_ok p"
  defines "s \<equiv> unat (align_up (ucast b) 4096)" and "e \<equiv> unat (align_down (ucast (b + l)) 4096)"
  shows "pmm_ok (mark_region_free b l p)"
    and "used (mark_region_free b l p) =
      used p - {f. s \<le> f * 4096 \<and> f * 4096 + 4096 \<le> min e (2 ^ 27)}"
proof -
  have d: "4096 dvd s" using align_up_dvd [OF align_4096] by (simp add: s_def)
  have "mark_region_free b l p = free_loop s (min e (2 ^ 27)) p"
    by (auto simp: mark_region_free_def Let_def s_def e_def min_def word_less_nat_alt)
  then show "pmm_ok (mark_region_free b l p)"
    and "used (mark_region_free b l p) =
      used p - {f. s \<le> f * 4096 \<and> f * 4096 + 4096 \<le> min e (2 ^ 27)}"
    using free_loop_spec [OF assms(1) d, of "min e (2 ^ 27)"] by auto
qed

lemma reserve_region_used:
  fixes b l :: u32
  assumes "pmm_ok p"
  defines "s \<equiv> unat (align_down b 4096)" and "e \<equiv> unat (align_up (b + l) 4096)"
  shows "pmm_ok (reserve_region b l p)"
    and "used (reserve_region b l p) =
      used p \<union> {f. s \<le> f * 4096 \<and> f * 4096 < min e (2 ^ 27)}"
proof -
  have d: "4096 dvd s" using align_down_dvd [OF align_4096] by (simp add: s_def)
  have "reserve_region b l p = reserve_loop s (min e (2 ^ 27)) p"
    by (auto simp: reserve_region_def Let_def s_def e_def min_def word_less_nat_alt)
  then show "pmm_ok (reserve_region b l p)"
    and "used (reserve_region b l p) =
      used p \<union> {f. s \<le> f * 4096 \<and> f * 4096 < min e (2 ^ 27)}"
    using reserve_loop_spec [OF assms(1) d, of "min e (2 ^ 27)"] by auto
qed

lemma alloc_scan_spec:
  assumes "pmm_ok p" and "i + n = 32768" and "{..<i} \<subseteq> used p"
  shows "used p = {..<32768} \<and> alloc_scan i n p = (0, p) \<or>
    (\<exists>f < 32768. f \<notin> used p \<and> {..<f} \<subseteq> used p \<and>
      alloc_scan i n p = (word_of_nat f * 4096, frame_set (word_of_nat f) p))"
  using assms
proof (induction i n p rule: alloc_scan.induct)
  case (1 i p)
  then show ?case using used_sub [of p] by auto
next
  case (2 i n p)
  then have i: "i < 32768" by simp
  then have u: "unat (word_of_nat i :: u32) = i" by (simp add: unat_of_nat_u32)
  then have t: "frame_test (word_of_nat i) p \<longleftrightarrow> i \<in> used p"
    using i by (subst frame_test_used) (auto simp: MAX_FRAMES_def word_less_nat_alt)
  show ?case
  proof (cases "i \<in> used p")
    case True
    then have "{..<Suc i} \<subseteq> used p" using 2 by (auto simp: less_Suc_eq)
    with 2 True t show ?thesis by auto
  next
    case False
    then have "alloc_scan i (Suc n) p = (word_of_nat i * 4096, frame_set (word_of_nat i) p)"
      using t by simp
    with 2(4) False i show ?thesis by blast
  qed
qed

lemma pmm_reset_used: "used pmm_reset = {..<32768}"
proof -
  have "f div 32 < 1024" if "f < 32768" for f :: nat using that by auto
  moreover have "bit (0xFFFFFFFF :: u32) k" if "k < 32" for k
  proof -
    have "(0xFFFFFFFF :: u32) = mask 32" by (simp add: mask_eq_exp_minus_1)
    then show ?thesis using that by (simp only: bit_mask_iff) simp
  qed
  ultimately show ?thesis by (auto simp: used_def pmm_reset_def)
qed

lemma pmm_ok_empty: "pmm_ok pmm_reset"
  using pmm_reset_used by (simp add: pmm_ok_def) (simp add: pmm_reset_def)

lemma mb2_entries_ok:
  assumes ret: "mb2_entries m e me es p = Some q" and "pmm_ok p"
  shows "pmm_ok q"
proof -
  have "pmm_ok p \<longrightarrow> pmm_ok q"
    by (rule mb2_entries.raw_induct [where P = "\<lambda>m e me es p q. pmm_ok p \<longrightarrow> pmm_ok q", OF _ ret])
      (fastforce split: if_splits intro: mark_region_free_used(1))
  with assms show ?thesis by simp
qed

lemma mb2_tags_ok:
  assumes ret: "mb2_tags m c e p = Some q" and "pmm_ok p"
  shows "pmm_ok q"
proof -
  have "pmm_ok p \<longrightarrow> pmm_ok q"
    by (rule mb2_tags.raw_induct [where P = "\<lambda>m c e p q. pmm_ok p \<longrightarrow> pmm_ok q", OF _ ret])
      (auto split: if_splits Option.bind_splits dest: mb2_entries_ok)
  with assms show ?thesis by simp
qed

lemma mb1_entries_ok:
  assumes ret: "mb1_entries m c e p = Some q" and "pmm_ok p"
  shows "pmm_ok q"
proof -
  have "pmm_ok p \<longrightarrow> pmm_ok q"
    by (rule mb1_entries.raw_induct [where P = "\<lambda>m c e p q. pmm_ok p \<longrightarrow> pmm_ok q", OF _ ret])
      (fastforce split: if_splits intro: mark_region_free_used(1))
  with assms show ?thesis by simp
qed

lemma frame_mono_reserve:
  "pmm_ok p \<Longrightarrow> used p \<subseteq> used (reserve_region b l p)"
  by (simp add: reserve_region_used)

lemma reserve_region_covers:
  assumes "pmm_ok p" and "unat b + unat l + 4095 < 2 ^ 32"
    and "f < 32768" and "unat b < f * 4096 + 4096" and "f * 4096 < unat b + unat l"
  shows "f \<in> used (reserve_region b l p)"
proof -
  have s: "unat (align_down b 4096) = unat b div 4096 * 4096"
    using unat_align_down [OF align_4096] by simp
  have "unat (b + l) = unat b + unat l" using assms(2) by (simp add: unat_word_ariths)
  then have e: "unat (align_up (b + l) 4096) = (unat b + unat l + 4095) div 4096 * 4096"
    using unat_align_up [OF align_4096, of "b + l"] assms(2) by simp
  have "unat b div 4096 * 4096 \<le> f * 4096" using assms(4) by simp
  moreover have "f * 4096 < (unat b + unat l + 4095) div 4096 * 4096" using assms(5) by simp
  ultimately show ?thesis
    using assms(1,3) s e by (simp add: reserve_region_used)
qed

definition kernel_frames :: "kernel_image \<Rightarrow> nat set" where
  "kernel_frames k = {f. f < 32768 \<and> unat (kernel_start k) < f * 4096 + 4096 \<and>
     f * 4096 < unat (kernel_end k)}"

definition boot_reserved :: "kernel_image \<Rightarrow> nat set" where
  "boot_reserved k = {..<256} \<union> kernel_frames k"

lemma pmm_init_spec:
  assumes ret: "pmm_init k m magic mbi = Some p"
    and k: "kernel_start k \<le> kernel_end k" "unat (kernel_end k) + 4095 < 2 ^ 32"
  shows "pmm_ok p" and "boot_reserved k \<subseteq> used p"
proof -
  from ret obtain p1 where p1: "(if magic = 0x36D76289 then parse_multiboot2 m mbi pmm_reset
         else if magic = 0x2BADB002 then parse_multiboot1 m mbi pmm_reset
         else Some (mark_region_free 0x100000 (15 * 1024 * 1024) pmm_reset)) = Some p1"
    and p: "p = reserve_region (bitmap_addr k) 4096 (reserve_region (kernel_start k)
        (kernel_end k - kernel_start k) (reserve_region 0 0x100000 p1))"
    by (auto simp: pmm_init_def Let_def bind_eq_Some_conv)
  have ok1: "pmm_ok p1" using p1 pmm_ok_empty
    by (auto simp: parse_multiboot2_def parse_multiboot1_def Let_def split: if_splits
        intro: mb2_tags_ok mb1_entries_ok mark_region_free_used(1))
  let ?p2 = "reserve_region 0 0x100000 p1"
  let ?p3 = "reserve_region (kernel_start k) (kernel_end k - kernel_start k) ?p2"
  have ok2: "pmm_ok ?p2" and ok3: "pmm_ok ?p3"
    using ok1 by (simp_all add: reserve_region_used)
  show "pmm_ok p" using ok3 p by (simp add: reserve_region_used)
  have d: "unat (kernel_end k - kernel_start k) = unat (kernel_end k) - unat (kernel_start k)"
    using k(1) by (simp add: unat_sub)
  have "{..<256} \<subseteq> used ?p2" using ok1 by (auto intro!: reserve_region_covers)
  moreover have "kernel_frames k \<subseteq> used ?p3"
    using ok2 k d by (auto simp: kernel_frames_def word_le_nat_alt intro!: reserve_region_covers)
  ultimately show "boot_reserved k \<subseteq> used p"
    using frame_mono_reserve [OF ok2] frame_mono_reserve [OF ok3]
    unfolding boot_reserved_def p by blast
qed

lemma pmm_alloc_frame_cases:
  assumes "pmm_ok p"
  obtains (full) "used p = {..<32768}" "pmm_alloc_frame p = (0, p)"
  | (got) f p' where "f < 32768" "f \<notin> used p" "{..<f} \<subseteq> used p"
      "pmm_alloc_frame p = (word_of_nat (f * 4096), p')" "used p' = insert f (used p)" "pmm_ok p'"
proof -
  have t: "unat (total_frames p) = 32768" using assms by (simp add: pmm_ok_def MAX_FRAMES_def)
  consider "used p = {..<32768} \<and> alloc_scan 0 32768 p = (0, p)"
    | f where "f < 32768" "f \<notin> used p" "{..<f} \<subseteq> used p"
      "alloc_scan 0 32768 p = (word_of_nat f * 4096, frame_set (word_of_nat f) p)"
    using alloc_scan_spec [OF assms, of 0 32768] by auto
  then show thesis
  proof cases
    case 1
    then show ?thesis using t by (intro full) (auto simp: pmm_alloc_frame_def)
  next
    case (2 f)
    have "used (frame_set (word_of_nat f) p) = insert f (used p)"
      using assms 2(1) by (simp add: used_frame_set pmm_ok_def unat_of_nat_u32)
    then show ?thesis
      using 2 t frame_set_ok [OF assms]
      by (intro got [of f "frame_set (word_of_nat f) p"]) (auto simp: pmm_alloc_frame_def)
  qed
qed


section \<open>Every reachable allocator state\<close>

text \<open>Boot, then any interleaving of allocations and frees of frames the caller holds.\<close>

inductive pmm_reach :: "kernel_image \<Rightarrow> pmm \<Rightarrow> nat set \<Rightarrow> bool" for k where
  boot: "pmm_init k m magic mbi = Some p \<Longrightarrow> pmm_reach k p {}"
| alloc: "pmm_reach k p own \<Longrightarrow> pmm_alloc_frame p = (a, p') \<Longrightarrow> a \<noteq> 0 \<Longrightarrow>
    pmm_reach k p' (insert (unat a div 4096) own)"
| alloc_fail: "pmm_reach k p own \<Longrightarrow> pmm_alloc_frame p = (0, p') \<Longrightarrow> pmm_reach k p' own"
| free: "pmm_reach k p own \<Longrightarrow> f \<in> own \<Longrightarrow>
    pmm_reach k (pmm_free_frame (word_of_nat (f * 4096)) p) (own - {f})"

definition image_ok :: "kernel_image \<Rightarrow> bool" where
  "image_ok k \<longleftrightarrow> kernel_start k \<le> kernel_end k \<and> unat (kernel_end k) + 4095 < 2 ^ 32"

definition pmm_inv :: "kernel_image \<Rightarrow> pmm \<Rightarrow> nat set \<Rightarrow> bool" where
  "pmm_inv k p own \<longleftrightarrow> pmm_ok p \<and> boot_reserved k \<subseteq> used p \<and> own \<subseteq> used p \<and>
     own \<inter> boot_reserved k = {}"

lemma frame_addr: "f < 32768 \<Longrightarrow> unat (word_of_nat (f * 4096) :: u32) = f * 4096"
  by (rule unat_of_nat_u32) simp

lemma pmm_free_frame_used:
  assumes "pmm_ok p" and "f < 32768"
  shows "pmm_ok (pmm_free_frame (word_of_nat (f * 4096)) p)"
    and "used (pmm_free_frame (word_of_nat (f * 4096)) p) = used p - {f}"
proof -
  have "unat (word_of_nat (f * 4096) div 4096 :: u32) = f"
    using frame_addr [OF assms(2)] by (simp add: unat_div_distrib)
  then show "used (pmm_free_frame (word_of_nat (f * 4096)) p) = used p - {f}"
    using assms by (simp add: pmm_free_frame_def used_frame_clear pmm_ok_def)
  show "pmm_ok (pmm_free_frame (word_of_nat (f * 4096)) p)"
    using assms(1) by (simp add: pmm_free_frame_def frame_clear_ok)
qed

text \<open>The interface to a client: while it holds the frames \<open>own\<close>, an allocation gives
  it a new page outside \<open>own\<close> and outside the pages \<open>kept\<close> from all clients.\<close>

locale frame_source =
  fixes alloc :: "'s \<Rightarrow> u32 \<times> 's"
    and release :: "u32 \<Rightarrow> 's \<Rightarrow> 's"
    and held :: "'s \<Rightarrow> nat set \<Rightarrow> bool"
    and kept :: "nat set"
  assumes alloc_fresh: "held s own \<Longrightarrow> alloc s = (a, s') \<Longrightarrow> a \<noteq> 0 \<Longrightarrow>
      unat a mod 4096 = 0 \<and> unat a div 4096 \<notin> own \<union> kept \<and> held s' (insert (unat a div 4096) own)"
    and alloc_none: "held s own \<Longrightarrow> alloc s = (0, s') \<Longrightarrow> held s' own"
    and release_held: "held s own \<Longrightarrow> f \<in> own \<Longrightarrow> held (release (word_of_nat (f * 4096)) s) (own - {f})"
begin

lemma alloc_distinct:
  assumes "held s own" and "alloc s = (a, s')" and "a \<noteq> 0"
    and "alloc s' = (b, s'')" and "b \<noteq> 0"
  shows "a \<noteq> b"
  using alloc_fresh [OF assms(1,2,3)] alloc_fresh [OF _ assms(4,5)] by auto

lemma alloc_outside:
  assumes "held s own" and "alloc s = (a, s')" and "a \<noteq> 0"
    and "(\<lambda>b. unat b div 4096) ` A \<subseteq> own \<union> kept"
  shows "a \<notin> A"
  using alloc_fresh [OF assms(1,2,3)] assms(4) by auto

end

lemma pmm_inv_alloc:
  assumes inv: "pmm_inv k p own" and "pmm_alloc_frame p = (a, p')" and "a \<noteq> 0"
  shows "unat a mod 4096 = 0 \<and> unat a div 4096 \<notin> own \<union> boot_reserved k \<and>
    pmm_inv k p' (insert (unat a div 4096) own)"
proof -
  from inv have ok: "pmm_ok p" by (simp add: pmm_inv_def)
  then show ?thesis
  proof (cases rule: pmm_alloc_frame_cases)
    case full
    with assms show ?thesis by simp
  next
    case (got f q)
    then have "unat a = f * 4096" and "p' = q" using assms(2) frame_addr by auto
    with got inv show ?thesis by (auto simp: pmm_inv_def)
  qed
qed

lemma pmm_inv_alloc_none:
  assumes inv: "pmm_inv k p own" and "pmm_alloc_frame p = (0, p')"
  shows "pmm_inv k p' own"
proof -
  from inv have ok: "pmm_ok p" by (simp add: pmm_inv_def)
  then show ?thesis
  proof (cases rule: pmm_alloc_frame_cases)
    case full
    with assms show ?thesis by simp
  next
    case (got f q)
    then have "f = 0" using assms(2) frame_addr [of f] by (metis Pair_inject mult_eq_0_iff unat_0 zero_neq_numeral)
    moreover have "0 \<in> used p" using inv by (auto simp: pmm_inv_def boot_reserved_def)
    ultimately show ?thesis using got by simp
  qed
qed

lemma pmm_inv_free:
  assumes "pmm_inv k p own" and "f \<in> own"
  shows "pmm_inv k (pmm_free_frame (word_of_nat (f * 4096)) p) (own - {f})"
proof -
  have "f < 32768" using assms used_sub by (auto simp: pmm_inv_def)
  with assms show ?thesis using pmm_free_frame_used by (auto simp: pmm_inv_def)
qed

interpretation pf: frame_source pmm_alloc_frame pmm_free_frame "pmm_inv k" "boot_reserved k" for k
  by unfold_locales (blast dest: pmm_inv_alloc intro: pmm_inv_alloc_none pmm_inv_free)+

lemma pmm_reach_inv:
  assumes "pmm_reach k p own" and "image_ok k"
  shows "pmm_inv k p own"
  using assms(1)
proof (induction rule: pmm_reach.induct)
  case (boot m magic mbi p)
  then show ?case using assms(2) pmm_init_spec by (auto simp: pmm_inv_def image_ok_def)
qed (blast dest: pf.alloc_fresh intro: pf.alloc_none pf.release_held)+

text \<open>C1. Whatever the boot loader reported, and after any sequence of allocations and frees,
  an allocation that succeeds returns a page-aligned address below 128 MiB whose frame is
  neither held by an earlier caller nor part of the first MiB or of the kernel image.\<close>

theorem pmm_alloc_frame_fresh:
  assumes "pmm_reach k p own" and "image_ok k" and "pmm_alloc_frame p = (a, p')" and "a \<noteq> 0"
  shows "unat a mod 4096 = 0 \<and> unat a < 2 ^ 27 \<and> unat a div 4096 \<notin> own \<and>
    unat a div 4096 \<notin> boot_reserved k \<and> unat (free_frames p') + 1 = unat (free_frames p)"
proof -
  from assms(1,2) have inv: "pmm_inv k p own" by (rule pmm_reach_inv)
  then have ok: "pmm_ok p" by (simp add: pmm_inv_def)
  then show ?thesis
  proof (cases rule: pmm_alloc_frame_cases)
    case full
    with assms show ?thesis by simp
  next
    case (got f q)
    then have a: "unat a = f * 4096" and q: "p' = q" using assms(3) frame_addr by auto
    have "card (used p) + 1 \<le> 32768"
      using got(2,5) used_card [of q] by simp
    then have "unat (free_frames p') + 1 = unat (free_frames p)"
      using ok got q by (simp add: pmm_ok_def)
    then show ?thesis using a got(1,2) inv by (auto simp: pmm_inv_def)
  qed
qed

text \<open>The state right after booting with an unknown boot loader: 15 MiB above the first
  MiB are free, but for the kernel image.\<close>

definition boot_image :: kernel_image where
  "boot_image = \<lparr>kernel_start = 0x100000, kernel_end = 0x180000, bitmap_addr = 0x170000\<rparr>"

definition boot_pmm :: pmm where
  "boot_pmm = the (pmm_init boot_image (\<lambda>_. 0) 0 0)"

lemma boot_pmm_init: "pmm_init boot_image (\<lambda>_. 0) 0 0 = Some boot_pmm"
  by (simp add: boot_pmm_def pmm_init_def Let_def)

lemma boot_image_ok: "image_ok boot_image"
  by (simp add: image_ok_def boot_image_def)

lemma boot_pmm_reach: "pmm_reach boot_image boot_pmm {}"
  by (rule pmm_reach.boot [OF boot_pmm_init])

lemma boot_pmm_free: "1000 \<notin> used boot_pmm"
proof -
  let ?p1 = "mark_region_free 0x100000 15728640 pmm_reset"
  have ok1: "pmm_ok ?p1" by (rule mark_region_free_used(1) [OF pmm_ok_empty])
  have "1000 \<notin> used ?p1"
    by (subst mark_region_free_used(2) [OF pmm_ok_empty]) (simp add: align_up_def align_down_def)
  then have "1000 \<notin> used (reserve_region 0x170000 4096 (reserve_region 0x100000 0x80000
      (reserve_region 0 0x100000 ?p1)))"
    by (simp add: reserve_region_used ok1 align_up_def align_down_def)
  moreover have "boot_pmm = reserve_region 0x170000 4096 (reserve_region 0x100000 0x80000
      (reserve_region 0 0x100000 ?p1))"
    by (simp add: boot_pmm_def pmm_init_def Let_def boot_image_def)
  ultimately show ?thesis by simp
qed

lemma boot_pmm_alloc: "\<exists>a p'. pmm_alloc_frame boot_pmm = (a, p') \<and> a \<noteq> 0"
proof -
  have inv: "pmm_inv boot_image boot_pmm {}"
    by (rule pmm_reach_inv [OF boot_pmm_reach boot_image_ok])
  then have "pmm_ok boot_pmm" by (simp add: pmm_inv_def)
  then show ?thesis
  proof (cases rule: pmm_alloc_frame_cases)
    case full
    then show ?thesis using boot_pmm_free by simp
  next
    case (got f p')
    have "0 \<in> used boot_pmm" using inv by (auto simp: pmm_inv_def boot_reserved_def)
    with got(2) have "f \<noteq> 0" by (intro notI) simp
    then have "unat (word_of_nat (f * 4096) :: u32) \<noteq> 0" using frame_addr [OF got(1)] by simp
    then have "(word_of_nat (f * 4096) :: u32) \<noteq> 0" by (metis unat_0)
    then show ?thesis using got by auto
  qed
qed

theorem pmm_alloc_frame_fresh_witness:
  "\<exists>a p'. pmm_reach boot_image boot_pmm {} \<and> image_ok boot_image \<and>
     pmm_alloc_frame boot_pmm = (a, p') \<and> a \<noteq> 0 \<and> unat a mod 4096 = 0 \<and>
     unat a div 4096 \<notin> boot_reserved boot_image"
proof -
  obtain a p' where a: "pmm_alloc_frame boot_pmm = (a, p')" "a \<noteq> 0"
    using boot_pmm_alloc by blast
  from pmm_alloc_frame_fresh [OF boot_pmm_reach boot_image_ok a] a boot_pmm_reach boot_image_ok
  show ?thesis by auto
qed

section \<open>What a region of the boot map does to the bitmap\<close>



text \<open>The addresses of a region are cut to 32 bits before the limit check: a region above
  4 GiB is treated as its image modulo 4 GiB, so it frees low frames.\<close>

theorem mark_region_free_truncates:
  "mark_region_free (b + 0x100000000) l p = mark_region_free b l p"
proof -
  have "ucast (x + 0x100000000) = (ucast x :: u32)" for x :: u64
    by (simp add: word_unat_eq_iff unat_ucast_u32 unat_word_ariths mod_mod_cancel)
  moreover have "b + 0x100000000 + l = (b + l) + 0x100000000" by simp
  ultimately show ?thesis by (simp only: mark_region_free_def)
qed

text \<open>A memory map whose entry size is 0 makes the walk over its entries run forever.\<close>

theorem mb2_entries_zero_size:
  assumes "entry < mmap_end"
  shows "mb2_entries m entry mmap_end 0 p = None"
proof (rule ccontr)
  assume "mb2_entries m entry mmap_end 0 p \<noteq> None"
  then obtain q where ret: "mb2_entries m entry mmap_end 0 p = Some q" by auto
  have "0 = (0::u32) \<longrightarrow> \<not> entry < mmap_end"
    by (rule mb2_entries.raw_induct [where P = "\<lambda>m e me es p q. es = 0 \<longrightarrow> \<not> e < me", OF _ ret])
      (fastforce split: if_splits)
  with assms show False by simp
qed

end
