(* ===== verification/Vmm.thy ===== *)
theory Vmm
  imports Pmm
begin

text \<open>
  The virtual memory manager, \<^verbatim>\<open>kernel/vmm.c\<close>. The page directory and the page
  tables live in one memory of 32-bit words: the two static arrays at the addresses the
  linker chose (the record \<open>vmm_image\<close>), further tables in frames that the physical
  memory manager hands out. Loading \<^verbatim>\<open>cr3\<close> and setting the paging bit of
  \<^verbatim>\<open>cr0\<close> are fields of the state; flushing one entry of the translation cache has no
  effect on it. What \<open>vmm_get_mapping\<close> answers is the abstraction of a state, and the
  lemmas say how the other operations change it.
\<close>

section \<open>State and operations\<close>

abbreviation (input) PAGE_PRESENT :: u32 where "PAGE_PRESENT \<equiv> 0x001"
abbreviation (input) PAGE_WRITE :: u32 where "PAGE_WRITE \<equiv> 0x002"
abbreviation (input) PAGE_USER :: u32 where "PAGE_USER \<equiv> 0x004"

record vmm_image =
  page_directory :: u32
  identity_tables :: u32

record vmm =
  words :: "u32 \<Rightarrow> u32"
  cr3 :: u32
  paging :: bool

definition slot :: "u32 \<Rightarrow> nat \<Rightarrow> u32" where
  "slot base i = base + 4 * word_of_nat i"

definition memset0 :: "u32 \<Rightarrow> nat \<Rightarrow> (u32 \<Rightarrow> u32) \<Rightarrow> u32 \<Rightarrow> u32" where
  "memset0 base n m = (\<lambda>a. if unat base \<le> unat a \<and> unat a < unat base + n then 0 else m a)"

definition pd_i :: "u32 \<Rightarrow> nat" where
  "pd_i virt = unat (drop_bit 22 virt)"

definition pt_i :: "u32 \<Rightarrow> nat" where
  "pt_i virt = unat (drop_bit 12 virt AND 0x3FF)"

fun fill_table :: "u32 \<Rightarrow> nat \<Rightarrow> nat \<Rightarrow> (u32 \<Rightarrow> u32) \<Rightarrow> u32 \<Rightarrow> u32" where
  "fill_table base table 0 m = m"
| "fill_table base table (Suc i) m =
     (fill_table base table i m)
       (slot base i := (word_of_nat (table * 1024 + i) * 4096) OR PAGE_PRESENT OR PAGE_WRITE)"

fun fill_tables :: "vmm_image \<Rightarrow> nat \<Rightarrow> (u32 \<Rightarrow> u32) \<Rightarrow> u32 \<Rightarrow> u32" where
  "fill_tables im 0 m = m"
| "fill_tables im (Suc table) m =
     (let base = identity_tables im + 4096 * word_of_nat table in
      (fill_table base table 1024 (fill_tables im table m))
        (slot (page_directory im) table := base OR PAGE_PRESENT OR PAGE_WRITE))"

definition vmm_init :: "vmm_image \<Rightarrow> vmm \<Rightarrow> vmm" where
  "vmm_init im v =
     v\<lparr>words := fill_tables im 32 (memset0 (identity_tables im) (32 * 4096)
                  (memset0 (page_directory im) 4096 (words v))),
       cr3 := page_directory im,
       paging := True\<rparr>"

definition vmm_map_page :: "vmm_image \<Rightarrow> u32 \<Rightarrow> u32 \<Rightarrow> u32 \<Rightarrow> vmm \<times> pmm \<Rightarrow> vmm \<times> pmm" where
  "vmm_map_page im virt phys flags = (\<lambda>(v, p).
     let pde = slot (page_directory im) (pd_i virt);
         (table, m, p) =
           (if words v pde AND PAGE_PRESENT = 0 then
              let (frame, p) = pmm_alloc_frame p;
                  m = memset0 frame 4096 (words v)
              in (frame, m(pde := frame OR PAGE_PRESENT OR PAGE_WRITE OR (flags AND PAGE_USER)), p)
            else (words v pde AND NOT 0xFFF, words v, p))
     in (v\<lparr>words := m(slot table (pt_i virt) :=
            (phys AND NOT 0xFFF) OR (flags AND 0xFFF) OR PAGE_PRESENT)\<rparr>, p))"

definition vmm_get_mapping :: "vmm_image \<Rightarrow> vmm \<Rightarrow> u32 \<Rightarrow> u32" where
  "vmm_get_mapping im v virt =
     (let pde = words v (slot (page_directory im) (pd_i virt)) in
      if pde AND PAGE_PRESENT = 0 then 0
      else let pte = words v (slot (pde AND NOT 0xFFF) (pt_i virt)) in
        if pte AND PAGE_PRESENT = 0 then 0
        else (pte AND NOT 0xFFF) OR (virt AND 0xFFF))"

section \<open>Slots of page-aligned tables\<close>

definition paligned :: "u32 \<Rightarrow> bool" where
  "paligned a \<longleftrightarrow> a AND 0xFFF = 0"

lemma mask12: "(0xFFF :: u32) = mask 12"
  by (simp add: mask_eq_exp_minus_1)

lemma unat_take_bit_u32: "unat (take_bit n (a :: u32)) = unat a mod 2 ^ n"
  by (simp only: unsigned_take_bit_eq) (simp only: take_bit_eq_mod)

lemma paligned_unat: "paligned a \<longleftrightarrow> unat a mod 4096 = 0"
  using unat_take_bit_u32 [of 12 a]
  by (simp add: paligned_def mask12 word_unat_eq_iff flip: take_bit_eq_mask)

lemma paligned_and_not [simp]: "paligned (a AND NOT 0xFFF)"
  unfolding paligned_def mask12 by (simp add: bit_eq_iff bit_simps)

lemma pd_i_less [simp]: "pd_i virt < 1024"
  using u32_lt [of virt] by (simp add: pd_i_def drop_bit_eq_div unat_div_distrib)

lemma pt_i_less [simp]: "pt_i virt < 1024"
proof -
  have "(0x3FF :: u32) = mask 10" by (simp add: mask_eq_exp_minus_1)
  then show ?thesis
    using unat_take_bit_u32 [of 10 "drop_bit 12 virt"] by (simp only: pt_i_def take_bit_eq_mask) simp
qed

lemma unat_slot:
  assumes "paligned b" and "i < 1024"
  shows "unat (slot b i) = unat b + 4 * i"
proof -
  obtain k where k: "unat b = 4096 * k" using assms(1) by (auto simp: paligned_unat)
  then have "k < 1048576" using u32_lt [of b] by simp
  with k assms(2) have "unat b + 4 * i < 2 ^ 32" by simp
  moreover have "unat (4 * word_of_nat i :: u32) = 4 * i"
    using assms(2) by (simp add: unat_word_ariths unat_of_nat_u32)
  ultimately show ?thesis by (simp add: slot_def unat_word_ariths)
qed

lemma slot_page:
  assumes "paligned b" and "i < 1024"
  shows "unat (slot b i) div 4096 = unat b div 4096" and "unat (slot b i) mod 4096 = 4 * i"
proof -
  obtain k where "unat b = 4096 * k" using assms(1) by (auto simp: paligned_unat)
  then show "unat (slot b i) div 4096 = unat b div 4096" and "unat (slot b i) mod 4096 = 4 * i"
    using assms by (simp_all add: unat_slot)
qed

lemma paligned_eq:
  assumes "paligned b" and "paligned c"
  shows "b = c \<longleftrightarrow> unat b div 4096 = unat c div 4096"
proof -
  have "unat b = 4096 * (unat b div 4096)" and "unat c = 4096 * (unat c div 4096)"
    using assms mult_div_mod_eq [of 4096 "unat b"] mult_div_mod_eq [of 4096 "unat c"]
    by (simp_all only: paligned_unat add_0_right)
  then show ?thesis by (metis word_unat_eq_iff)
qed

lemma slot_eq_iff [simp]:
  assumes "paligned b" "paligned c" "i < 1024" "j < 1024"
  shows "slot b i = slot c j \<longleftrightarrow> b = c \<and> i = j"
proof
  assume eq: "slot b i = slot c j"
  have "unat b div 4096 = unat c div 4096"
    using slot_page(1) [OF assms(1,3)] slot_page(1) [OF assms(2,4)] by (simp only: eq)
  moreover have "i = j"
    using slot_page(2) [OF assms(1,3)] slot_page(2) [OF assms(2,4)] by (simp add: eq)
  ultimately show "b = c \<and> i = j" using paligned_eq [OF assms(1,2)] by blast
qed simp

lemma memset0_slot [simp]:
  assumes "paligned b" "paligned c" "i < 1024"
  shows "memset0 b 4096 m (slot c i) = (if b = c then 0 else m (slot c i))"
proof -
  obtain k l where kl: "unat b = 4096 * k" "unat c = 4096 * l"
    using assms by (auto simp: paligned_unat elim!: dvdE)
  have "unat b \<le> unat (slot c i) \<and> unat (slot c i) < unat b + 4096 \<longleftrightarrow> k = l"
    unfolding unat_slot [OF assms(2,3)] kl using assms(3) by (cases k l rule: linorder_cases) auto
  moreover have "k = l \<longleftrightarrow> b = c" using kl by (simp add: paligned_eq [OF assms(1,2)])
  ultimately show ?thesis by (simp add: memset0_def)
qed

section \<open>Entries: an aligned address with flag bits\<close>

lemma paligned_bit: "paligned b \<longleftrightarrow> (\<forall>n < 12. \<not> bit b n)"
proof -
  have "bit (b AND mask 12) n \<longleftrightarrow> bit b n \<and> n < 12" for n
    by (auto simp: bit_simps dest: bit_imp_le_length)
  then have "b AND mask 12 = 0 \<longleftrightarrow> (\<forall>n < 12. \<not> bit b n)"
    by (metis bit_0_eq bit_eqI bot_apply bot_bool_def)
  then show ?thesis by (simp only: paligned_def mask12)
qed

lemma entry_base [simp]:
  assumes "paligned b" and "f AND NOT 0xFFF = 0"
  shows "(b OR f) AND NOT 0xFFF = b"
proof -
  have "(b OR f) AND NOT 0xFFF = b AND NOT 0xFFF"
    using assms(2) by (simp add: bit.conj_disj_distrib2)
  also have "\<dots> = b"
    using assms(1) unfolding paligned_bit mask12 by (auto simp: bit_eq_iff bit_simps)
  finally show ?thesis .
qed

lemma page_split: "(a AND NOT 0xFFF) OR (a AND 0xFFF) = (a :: u32)"
  by (metis bit.conj_disj_distrib bit.disj_cancel_left and.right_neutral)

lemma pd_pt_page: "word_of_nat (pd_i virt * 1024 + pt_i virt) * 4096 = virt AND NOT 0xFFF"
proof -
  have *: "(0x3FF :: u32) = mask 10" by (simp add: mask_eq_exp_minus_1)
  have "pt_i virt = unat virt div 4096 mod 1024"
    unfolding pt_i_def * using unat_take_bit_u32 [of 10 "drop_bit 12 virt"]
    by (simp add: take_bit_eq_mask [symmetric] drop_bit_eq_div unat_div_distrib)
  moreover have "pd_i virt = unat virt div 4096 div 1024"
    by (simp add: pd_i_def drop_bit_eq_div unat_div_distrib div_mult2_eq [symmetric])
  ultimately have "pd_i virt * 1024 + pt_i virt = unat virt div 4096" by simp
  then have "word_of_nat (pd_i virt * 1024 + pt_i virt) = drop_bit 12 virt"
    using u32_lt [of virt] by (simp add: drop_bit_eq_div word_unat_eq_iff unat_of_nat_u32 unat_div_distrib)
  then have "word_of_nat (pd_i virt * 1024 + pt_i virt) * 4096 = push_bit 12 (drop_bit 12 virt)"
    by (simp add: push_bit_eq_mult)
  also have "\<dots> = virt AND NOT 0xFFF"
    unfolding mask12 by (auto simp: bit_eq_iff bit_simps)
  finally show ?thesis .
qed

lemma same_page_iff:
  "w AND NOT 0xFFF = virt AND NOT 0xFFF \<longleftrightarrow> pd_i w = pd_i virt \<and> pt_i w = pt_i virt"
proof
  have "drop_bit 22 (a AND NOT (mask 12)) = drop_bit 22 a"
    and "drop_bit 12 (a AND NOT (mask 12)) = drop_bit 12 a" for a :: u32
    by (auto simp: bit_eq_iff bit_simps dest: bit_imp_le_length)
  then have *: "pd_i (a AND NOT 0xFFF) = pd_i a" "pt_i (a AND NOT 0xFFF) = pt_i a" for a
    by (simp_all only: pd_i_def pt_i_def mask12)
  assume "w AND NOT 0xFFF = virt AND NOT 0xFFF"
  then show "pd_i w = pd_i virt \<and> pt_i w = pt_i virt" by (metis *)
next
  assume "pd_i w = pd_i virt \<and> pt_i w = pt_i virt"
  then show "w AND NOT 0xFFF = virt AND NOT 0xFFF" by (metis pd_pt_page)
qed

lemma present_iff: "(x :: u32) AND PAGE_PRESENT = 0 \<longleftrightarrow> \<not> bit x 0"
  using and_exp_eq_0_iff_not_bit [of x 0] by simp

lemma get_mapping_entry:
  assumes "words v (slot (page_directory im) (pd_i virt)) = b OR f" and "paligned b"
    and "f AND NOT 0xFFF = 0" and "bit f 0"
    and "words v (slot b (pt_i virt)) = q OR g" and "paligned q"
    and "g AND NOT 0xFFF = 0" and "bit g 0"
  shows "vmm_get_mapping im v virt = q OR (virt AND 0xFFF)"
  using assms entry_base [OF assms(2,3)] entry_base [OF assms(6,7)]
  by (simp only: vmm_get_mapping_def Let_def present_iff bit_or_iff) simp

section \<open>The identity map\<close>

definition vmm_image_ok :: "vmm_image \<Rightarrow> bool" where
  "vmm_image_ok im \<longleftrightarrow> paligned (page_directory im) \<and> paligned (identity_tables im) \<and>
     unat (identity_tables im) + 32 * 4096 < 2 ^ 32 \<and>
     (unat (page_directory im) < unat (identity_tables im) \<or>
      unat (identity_tables im) + 32 * 4096 \<le> unat (page_directory im))"

definition itable :: "vmm_image \<Rightarrow> nat \<Rightarrow> u32" where
  "itable im t = identity_tables im + 4096 * word_of_nat t"

lemma unat_itable:
  assumes "vmm_image_ok im" and "t < 32"
  shows "unat (itable im t) = unat (identity_tables im) + 4096 * t"
proof -
  have "unat (4096 * word_of_nat t :: u32) = 4096 * t"
    using assms(2) by (simp add: unat_word_ariths unat_of_nat_u32)
  then show ?thesis using assms by (simp add: itable_def unat_word_ariths vmm_image_ok_def)
qed

lemma itable_facts [simp]:
  assumes "vmm_image_ok im" and "t < 32"
  shows "paligned (itable im t)" and "itable im t \<noteq> page_directory im"
    and "u < 32 \<Longrightarrow> itable im t = itable im u \<longleftrightarrow> t = u"
proof -
  note u = unat_itable [OF assms]
  obtain k where "unat (identity_tables im) = 4096 * k"
    using assms by (auto simp: vmm_image_ok_def paligned_unat elim!: dvdE)
  then show "paligned (itable im t)" by (simp add: paligned_unat u)
  show "itable im t \<noteq> page_directory im"
    using assms u by (auto simp: vmm_image_ok_def)
  show "itable im t = itable im u \<longleftrightarrow> t = u" if "u < 32"
    using u unat_itable [OF assms(1) that] by (metis add_left_cancel mult_cancel_left zero_neq_numeral)
qed

lemma fill_table_slot:
  assumes "paligned b" "paligned c" "j < 1024" "n \<le> 1024"
  shows "fill_table b t n m (slot c j) =
    (if c = b \<and> j < n then (word_of_nat (t * 1024 + j) * 4096) OR 1 OR 2 else m (slot c j))"
  using assms(4) by (induction n) (use assms in \<open>auto simp: less_Suc_eq\<close>)

lemma fill_tables_Suc:
  assumes im: "vmm_image_ok im" and n: "n < 32" and "i < 1024" and c: "paligned c"
  shows "fill_tables im (Suc n) m (slot c i) =
    (if c = page_directory im \<and> i = n then itable im n OR 1 OR 2
     else if c = itable im n then (word_of_nat (n * 1024 + i) * 4096) OR 1 OR 2
     else fill_tables im n m (slot c i))"
proof -
  have pd: "paligned (page_directory im)" using im by (simp add: vmm_image_ok_def)
  have "fill_table (itable im n) n 1024 (fill_tables im n m) (slot c i) =
    (if c = itable im n then (word_of_nat (n * 1024 + i) * 4096) OR 1 OR 2
     else fill_tables im n m (slot c i))"
    using fill_table_slot [OF itable_facts(1) [OF im n] c, of i 1024 n] assms by simp
  moreover have "slot c i = slot (page_directory im) n \<longleftrightarrow> c = page_directory im \<and> i = n"
    using n by (intro slot_eq_iff assms(3) c pd) simp
  ultimately show ?thesis
    by (simp only: fill_tables.simps itable_def [symmetric] Let_def fun_upd_apply)
qed

lemma fill_tables_slot:
  assumes im: "vmm_image_ok im" and "i < 1024"
  shows "n \<le> 32 \<Longrightarrow> fill_tables im n m (slot (page_directory im) i) =
      (if i < n then itable im i OR 1 OR 2 else m (slot (page_directory im) i))"
    and "n \<le> 32 \<Longrightarrow> t < n \<Longrightarrow> fill_tables im n m (slot (itable im t) i) =
      (word_of_nat (t * 1024 + i) * 4096) OR 1 OR 2"
proof -
  have pd: "paligned (page_directory im)" using im by (simp add: vmm_image_ok_def)
  show "n \<le> 32 \<Longrightarrow> fill_tables im n m (slot (page_directory im) i) =
      (if i < n then itable im i OR 1 OR 2 else m (slot (page_directory im) i))"
  proof (induction n)
    case (Suc n)
    then show ?case
      using fill_tables_Suc [OF im _ assms(2) pd, of n] itable_facts(2) [OF im, of n, symmetric]
      by (auto simp: less_Suc_eq)
  qed simp
  show "n \<le> 32 \<Longrightarrow> t < n \<Longrightarrow> fill_tables im n m (slot (itable im t) i) =
      (word_of_nat (t * 1024 + i) * 4096) OR 1 OR 2"
  proof (induction n)
    case (Suc n)
    then have "t < 32" "n < 32" by auto
    with Suc show ?case
      using fill_tables_Suc [OF im _ assms(2) itable_facts(1) [OF im \<open>t < 32\<close>], of n]
        itable_facts(2) [OF im \<open>t < 32\<close>] itable_facts(3) [OF im \<open>t < 32\<close>, of n]
      by (cases "t = n") auto
  qed simp
qed

lemma memset0_tables:
  assumes "vmm_image_ok im" and "i < 1024"
  shows "memset0 (identity_tables im) 131072 m (slot (page_directory im) i) =
    m (slot (page_directory im) i)"
proof -
  obtain k l where kl: "unat (identity_tables im) = 4096 * k" "unat (page_directory im) = 4096 * l"
    using assms by (auto simp: vmm_image_ok_def paligned_unat elim!: dvdE)
  then have "l < k \<or> k + 32 \<le> l" using assms by (auto simp: vmm_image_ok_def)
  with assms kl show ?thesis by (auto simp: memset0_def unat_slot vmm_image_ok_def)
qed

lemma pd_i_low: "pd_i virt < 32 \<longleftrightarrow> virt < 0x8000000"
proof -
  have "unat virt div 4194304 < 32 \<longleftrightarrow> unat virt < 134217728" by (simp add: div_less_iff_less_mult)
  then show ?thesis by (simp add: pd_i_def drop_bit_eq_div unat_div_distrib word_less_nat_alt)
qed

lemma and_not_simps [simp]: "(1::u32) AND NOT 0xFFF = 0" "(3::u32) AND NOT 0xFFF = 0"
  by simp_all

text \<open>C4. After \<open>vmm_init\<close> paging is on, every address below 128 MiB maps to itself and
  no address above is mapped.\<close>

theorem vmm_init_identity:
  assumes im: "vmm_image_ok im"
  shows "vmm_get_mapping im (vmm_init im v) virt = (if virt < 0x8000000 then virt else 0) \<and>
    cr3 (vmm_init im v) = page_directory im \<and> paging (vmm_init im v)"
proof -
  let ?w = "words (vmm_init im v)"
  have pd: "paligned (page_directory im)" using im by (simp add: vmm_image_ok_def)
  have pde: "?w (slot (page_directory im) (pd_i virt)) =
      (if pd_i virt < 32 then itable im (pd_i virt) OR 3 else 0)"
    using im pd by (simp add: vmm_init_def fill_tables_slot memset0_tables)
  have "vmm_get_mapping im (vmm_init im v) virt = virt" if low: "pd_i virt < 32"
  proof -
    have pa: "paligned (itable im (pd_i virt))" using im low by simp
    have "paligned (word_of_nat (pd_i virt * 1024 + pt_i virt) * 4096)"
      by (simp only: pd_pt_page paligned_and_not)
    moreover have "?w (slot (itable im (pd_i virt)) (pt_i virt)) =
        (word_of_nat (pd_i virt * 1024 + pt_i virt) * 4096) OR 3"
      using im low fill_tables_slot(2) [OF im pt_i_less, of 32 "pd_i virt"]
      by (simp add: vmm_init_def)
    ultimately have "vmm_get_mapping im (vmm_init im v) virt =
        (word_of_nat (pd_i virt * 1024 + pt_i virt) * 4096) OR (virt AND 0xFFF)"
      using pde low pa by (intro get_mapping_entry [of _ _ _ "itable im (pd_i virt)" 3 _ 3]) simp_all
    then show ?thesis by (simp only: pd_pt_page page_split)
  qed
  moreover have "vmm_get_mapping im (vmm_init im v) virt = 0" if "\<not> pd_i virt < 32"
    using pde that by (simp add: vmm_get_mapping_def)
  ultimately show ?thesis by (simp add: pd_i_low) (simp add: vmm_init_def)
qed

section \<open>Mapping a page\<close>

definition present :: "vmm_image \<Rightarrow> vmm \<Rightarrow> nat \<Rightarrow> bool" where
  "present im v i \<longleftrightarrow> bit (words v (slot (page_directory im) i)) 0"

definition table_of :: "vmm_image \<Rightarrow> vmm \<Rightarrow> nat \<Rightarrow> u32" where
  "table_of im v i = words v (slot (page_directory im) i) AND NOT 0xFFF"

definition tables :: "vmm_image \<Rightarrow> vmm \<Rightarrow> u32 set" where
  "tables im v = table_of im v ` {i. i < 1024 \<and> present im v i}"

definition vm_ok :: "vmm_image \<Rightarrow> vmm \<Rightarrow> bool" where
  "vm_ok im v \<longleftrightarrow> paligned (page_directory im) \<and> page_directory im \<notin> tables im v \<and>
     inj_on (table_of im v) {i. i < 1024 \<and> present im v i}"

lemma get_mapping_alt:
  "vmm_get_mapping im v virt =
    (if present im v (pd_i virt) \<and> bit (words v (slot (table_of im v (pd_i virt)) (pt_i virt))) 0
     then (words v (slot (table_of im v (pd_i virt)) (pt_i virt)) AND NOT 0xFFF) OR (virt AND 0xFFF)
     else 0)"
  by (simp add: vmm_get_mapping_def Let_def present_iff present_def table_of_def)

text \<open>The table a call of \<open>vmm_map_page\<close> writes to: the one the directory names, or the
  frame it allocates. In the second case the frame must be a new one.\<close>

definition map_table :: "vmm_image \<Rightarrow> u32 \<Rightarrow> vmm \<times> pmm \<Rightarrow> u32" where
  "map_table im virt = (\<lambda>(v, p).
     if present im v (pd_i virt) then table_of im v (pd_i virt) else fst (pmm_alloc_frame p))"

definition new_table_ok :: "vmm_image \<Rightarrow> u32 \<Rightarrow> vmm \<times> pmm \<Rightarrow> bool" where
  "new_table_ok im virt = (\<lambda>(v, p). present im v (pd_i virt) \<or>
     paligned (map_table im virt (v, p)) \<and> map_table im virt (v, p) \<notin> tables im v \<and>
     map_table im virt (v, p) \<noteq> page_directory im)"

lemma paligned_table_of [simp]: "paligned (table_of im v i)"
  unfolding table_of_def by (rule paligned_and_not)

lemma tablesI: "i < 1024 \<Longrightarrow> present im v i \<Longrightarrow> table_of im v i \<in> tables im v"
  by (simp add: tables_def)

lemma map_table_ok:
  assumes "vm_ok im v" and "new_table_ok im virt (v, p)"
  shows "paligned (map_table im virt (v, p))" and "map_table im virt (v, p) \<noteq> page_directory im"
  using assms tablesI [OF pd_i_less, of im v virt]
  by (auto simp: new_table_ok_def map_table_def vm_ok_def split: if_splits)

lemma map_page_alt:
  "vmm_map_page im virt phys flags (v, p) =
    (v\<lparr>words := (if present im v (pd_i virt) then words v
        else (memset0 (map_table im virt (v, p)) 4096 (words v))
               (slot (page_directory im) (pd_i virt) :=
                  map_table im virt (v, p) OR PAGE_PRESENT OR PAGE_WRITE OR (flags AND PAGE_USER)))
       (slot (map_table im virt (v, p)) (pt_i virt) :=
          (phys AND NOT 0xFFF) OR (flags AND 0xFFF) OR PAGE_PRESENT)\<rparr>,
     if present im v (pd_i virt) then p else snd (pmm_alloc_frame p))"
  by (simp add: vmm_map_page_def map_table_def present_iff present_def table_of_def Let_def
      split: prod.split)

lemma map_page_directory:
  assumes ok: "vm_ok im v" and new: "new_table_ok im virt (v, p)"
    and step: "vmm_map_page im virt phys flags (v, p) = (v', p')" and "i < 1024"
  shows "words v' (slot (page_directory im) i) =
    (if \<not> present im v (pd_i virt) \<and> i = pd_i virt
     then map_table im virt (v, p) OR (PAGE_PRESENT OR (PAGE_WRITE OR (flags AND PAGE_USER)))
     else words v (slot (page_directory im) i))"
proof -
  have "paligned (page_directory im)" using ok by (simp add: vm_ok_def)
  with assms(4) map_table_ok [OF ok new] step show ?thesis
    by (auto simp: map_page_alt or.assoc)
qed

lemma map_page_present:
  assumes ok: "vm_ok im v" and new: "new_table_ok im virt (v, p)"
    and step: "vmm_map_page im virt phys flags (v, p) = (v', p')" and i: "i < 1024"
  shows "present im v' i \<longleftrightarrow> present im v i \<or> i = pd_i virt"
    and "table_of im v' i = (if i = pd_i virt then map_table im virt (v, p) else table_of im v i)"
proof -
  let ?f = "PAGE_PRESENT OR (PAGE_WRITE OR (flags AND PAGE_USER))"
  have f: "?f AND NOT 0xFFF = 0" "bit ?f 0"
    by (simp_all add: bit.conj_disj_distrib2 and.assoc bit_or_iff)
  show "present im v' i \<longleftrightarrow> present im v i \<or> i = pd_i virt"
    using map_page_directory [OF ok new step i] f(2) by (auto simp: present_def bit_or_iff)
  have "(map_table im virt (v, p) OR ?f) AND NOT 0xFFF = map_table im virt (v, p)"
    using map_table_ok(1) [OF ok new] f(1) by (rule entry_base)
  then show "table_of im v' i = (if i = pd_i virt then map_table im virt (v, p) else table_of im v i)"
    using map_page_directory [OF ok new step i]
    by (auto simp: table_of_def map_table_def)
qed

lemma map_page_tables:
  assumes ok: "vm_ok im v" and new: "new_table_ok im virt (v, p)"
    and step: "vmm_map_page im virt phys flags (v, p) = (v', p')"
    and "paligned c" "c \<noteq> page_directory im" "j < 1024"
  shows "words v' (slot c j) =
    (if c = map_table im virt (v, p) then
       if j = pt_i virt then (phys AND NOT 0xFFF) OR ((flags AND 0xFFF) OR PAGE_PRESENT)
       else if present im v (pd_i virt) then words v (slot c j) else 0
     else words v (slot c j))"
proof -
  have "paligned (page_directory im)" using ok by (simp add: vm_ok_def)
  with assms(4-) map_table_ok [OF ok new] step show ?thesis
    by (auto simp: map_page_alt or.assoc)
qed

lemma vm_ok_map_page:
  assumes ok: "vm_ok im v" and new: "new_table_ok im virt (v, p)"
    and step: "vmm_map_page im virt phys flags (v, p) = (v', p')"
  shows "vm_ok im v'" and "tables im v' = insert (map_table im virt (v, p)) (tables im v)"
proof -
  let ?t = "map_table im virt (v, p)" and ?P = "{i. i < 1024 \<and> present im v i}"
  note pr = map_page_present [OF ok new step]
  have P': "{i. i < 1024 \<and> present im v' i} = insert (pd_i virt) ?P"
    using pr(1) by auto
  have T: "table_of im v' i = (if i = pd_i virt then ?t else table_of im v i)" if "i < 1024" for i
    using pr(2) [OF that] .
  have old: "table_of im v' ` ?P = tables im v" if "present im v (pd_i virt)"
    using that T by (auto simp: tables_def map_table_def)
  have other: "table_of im v' ` (?P - {pd_i virt}) = table_of im v ` (?P - {pd_i virt})"
    using T by (intro image_cong) auto
  show tabs: "tables im v' = insert ?t (tables im v)"
  proof (cases "present im v (pd_i virt)")
    case True
    then show ?thesis using P' old T [OF pd_i_less] by (simp add: tables_def)
  next
    case False
    then have "?P - {pd_i virt} = ?P" by auto
    then show ?thesis using P' other T [OF pd_i_less] by (simp add: tables_def)
  qed
  have inj: "inj_on (table_of im v) ?P" using ok by (simp add: vm_ok_def)
  have "?t \<notin> table_of im v ` (?P - {pd_i virt})"
  proof (cases "present im v (pd_i virt)")
    case True
    then show ?thesis using inj by (auto simp: map_table_def inj_on_def)
  next
    case False
    then show ?thesis using new by (auto simp: new_table_ok_def tables_def)
  qed
  moreover have "inj_on (table_of im v') (?P - {pd_i virt})"
    using inj T by (auto simp: inj_on_def)
  ultimately have "inj_on (table_of im v') (insert (pd_i virt) (?P - {pd_i virt}))"
    using other T [OF pd_i_less] by (simp only: inj_on_insert) simp
  then have "inj_on (table_of im v') (insert (pd_i virt) ?P)" by simp
  then show "vm_ok im v'"
    using ok tabs P' map_table_ok(2) [OF ok new] by (simp add: vm_ok_def)
qed

lemma get_mapping_map_page:
  assumes ok: "vm_ok im v" and new: "new_table_ok im virt (v, p)"
    and step: "vmm_map_page im virt phys flags (v, p) = (v', p')"
  shows "vmm_get_mapping im v' w =
    (if w AND NOT 0xFFF = virt AND NOT 0xFFF then (phys AND NOT 0xFFF) OR (w AND 0xFFF)
     else vmm_get_mapping im v w)"
proof -
  let ?t = "map_table im virt (v, p)"
  note pr = map_page_present [OF ok new step pd_i_less]
  note tb = map_page_tables [OF ok new step _ _ pt_i_less]
  note mt = map_table_ok [OF ok new]
  let ?g = "(flags AND 0xFFF) OR PAGE_PRESENT"
  let ?new = "(phys AND NOT 0xFFF) OR (w AND 0xFFF)"
  have "vmm_get_mapping im v' w =
    (if pd_i w = pd_i virt \<and> pt_i w = pt_i virt then ?new else vmm_get_mapping im v w)"
  proof (cases "pd_i w = pd_i virt")
    case True
    have "?g AND NOT 0xFFF = 0" "bit ?g 0"
      by (simp_all add: bit.conj_disj_distrib2 and.assoc bit_or_iff)
    then have "((phys AND NOT 0xFFF) OR ?g) AND NOT 0xFFF = phys AND NOT 0xFFF"
      "bit ((phys AND NOT 0xFFF) OR ?g) 0"
      using entry_base [OF paligned_and_not] by (simp_all only: bit_or_iff simp_thms)
    then show ?thesis
      using True pr [of w] tb [OF mt, of w]
      by (auto simp: get_mapping_alt map_table_def split: if_splits)
  next
    case False
    have "table_of im v (pd_i w) \<noteq> ?t" if "present im v (pd_i w)"
    proof (cases "present im v (pd_i virt)")
      case True
      then show ?thesis using that ok False by (auto simp: map_table_def vm_ok_def inj_on_def)
    next
      case False
      then show ?thesis using that new tablesI [OF pd_i_less, of im v w] by (auto simp: new_table_ok_def)
    qed
    moreover have "table_of im v (pd_i w) \<noteq> page_directory im" if "present im v (pd_i w)"
      using that ok tablesI [OF pd_i_less, of im v w] by (auto simp: vm_ok_def)
    ultimately show ?thesis
      using False pr [of w] tb [of "table_of im v (pd_i w)" w]
      by (auto simp: get_mapping_alt)
  qed
  then show ?thesis by (simp only: same_page_iff)
qed

section \<open>Every reachable state of the two managers\<close>

text \<open>Boot, then any interleaving of page mappings with allocations and frees by other
  clients, who free only frames they hold and never a page table.\<close>

definition frame_of :: "u32 \<Rightarrow> nat" where
  "frame_of a = unat a div 4096"

inductive vm_reach :: "kernel_image \<Rightarrow> vmm_image \<Rightarrow> vmm \<times> pmm \<Rightarrow> nat set \<Rightarrow> bool" for k im where
  boot: "pmm_reach k p own \<Longrightarrow> vm_reach k im (vmm_init im v, p) own"
| alloc: "vm_reach k im (v, p) own \<Longrightarrow> pmm_alloc_frame p = (a, p') \<Longrightarrow> a \<noteq> 0 \<Longrightarrow>
    vm_reach k im (v, p') (insert (frame_of a) own)"
| free: "vm_reach k im (v, p) own \<Longrightarrow> f \<in> own \<Longrightarrow> f \<notin> frame_of ` tables im v \<Longrightarrow>
    vm_reach k im (v, pmm_free_frame (word_of_nat (f * 4096)) p) (own - {f})"
| map_old: "vm_reach k im (v, p) own \<Longrightarrow> present im v (pd_i virt) \<Longrightarrow>
    vm_reach k im (vmm_map_page im virt phys flags (v, p)) own"
| map_new: "vm_reach k im (v, p) own \<Longrightarrow> \<not> present im v (pd_i virt) \<Longrightarrow>
    pmm_alloc_frame p = (a, p') \<Longrightarrow> a \<noteq> 0 \<Longrightarrow>
    vm_reach k im (vmm_map_page im virt phys flags (v, p)) (insert (frame_of a) own)"

definition vm_image_in :: "kernel_image \<Rightarrow> vmm_image \<Rightarrow> bool" where
  "vm_image_in k im \<longleftrightarrow> image_ok k \<and> vmm_image_ok im \<and>
     frame_of ` insert (page_directory im) (itable im ` {..<32}) \<subseteq> boot_reserved k"

definition vm_inv :: "kernel_image \<Rightarrow> vmm_image \<Rightarrow> vmm \<times> pmm \<Rightarrow> nat set \<Rightarrow> bool" where
  "vm_inv k im = (\<lambda>(v, p) own. pmm_inv k p own \<and> vm_ok im v \<and>
     frame_of ` insert (page_directory im) (tables im v) \<subseteq> own \<union> boot_reserved k)"

lemma vmm_init_entry:
  assumes im: "vmm_image_ok im" and "i < 1024"
  shows "present im (vmm_init im v) i \<longleftrightarrow> i < 32"
    and "i < 32 \<Longrightarrow> table_of im (vmm_init im v) i = itable im i"
proof -
  have pd: "paligned (page_directory im)" using im by (simp add: vmm_image_ok_def)
  have e: "words (vmm_init im v) (slot (page_directory im) i) = (if i < 32 then itable im i OR 3 else 0)"
    using assms pd by (simp add: vmm_init_def fill_tables_slot memset0_tables)
  show "present im (vmm_init im v) i \<longleftrightarrow> i < 32" by (simp add: present_def e bit_or_iff)
  show "table_of im (vmm_init im v) i = itable im i" if "i < 32"
    unfolding table_of_def e using that entry_base [OF itable_facts(1) [OF im that]] by simp
qed

lemma vm_ok_init:
  assumes im: "vmm_image_ok im"
  shows "vm_ok im (vmm_init im v)" and "tables im (vmm_init im v) = itable im ` {..<32}"
proof -
  have P: "{i. i < 1024 \<and> present im (vmm_init im v) i} = {..<32}"
    using vmm_init_entry(1) [OF im] by auto
  have T: "table_of im (vmm_init im v) i = itable im i" if "i < 32" for i
    using vmm_init_entry(2) [OF im, of i] that by simp
  show tabs: "tables im (vmm_init im v) = itable im ` {..<32}"
    unfolding tables_def P using T by (intro image_cong) auto
  have "inj_on (table_of im (vmm_init im v)) {..<32}"
    using T itable_facts(3) [OF im] by (auto simp: inj_on_def)
  moreover have "page_directory im \<notin> itable im ` {..<32}"
    using itable_facts(2) [OF im] by force
  ultimately show "vm_ok im (vmm_init im v)"
    using im unfolding vm_ok_def P tabs by (simp add: vmm_image_ok_def)
qed

lemma fresh_new_table_ok:
  assumes "vm_inv k im (v, p) own" and "pmm_alloc_frame p = (a, p')" and "a \<noteq> 0"
  shows "new_table_ok im virt (v, p)"
proof -
  have inv: "pmm_inv k p own"
    and "(\<lambda>b. unat b div 4096) ` insert (page_directory im) (tables im v) \<subseteq> own \<union> boot_reserved k"
    using assms(1) by (auto simp: vm_inv_def frame_of_def)
  then have "a \<notin> insert (page_directory im) (tables im v)"
    using assms(2,3) by (intro pf.alloc_outside)
  then show ?thesis
    using pf.alloc_fresh [OF inv assms(2,3)] assms(2)
    by (auto simp: new_table_ok_def map_table_def paligned_unat)
qed

lemma map_page_pmm: "snd (vmm_map_page im virt phys flags (v, p)) =
    (if present im v (pd_i virt) then p else snd (pmm_alloc_frame p))"
  by (simp add: map_page_alt)

lemma vm_inv_map_page:
  assumes inv: "vm_inv k im (v, p) own" and new: "new_table_ok im virt (v, p)"
    and held: "pmm_inv k (snd (vmm_map_page im virt phys flags (v, p))) own'"
    and sub: "own \<subseteq> own'" "frame_of (map_table im virt (v, p)) \<in> own' \<union> boot_reserved k"
  shows "vm_inv k im (vmm_map_page im virt phys flags (v, p)) own'"
proof -
  obtain v' p' where step: "vmm_map_page im virt phys flags (v, p) = (v', p')" by fastforce
  have "vm_ok im v" using inv by (simp add: vm_inv_def)
  from vm_ok_map_page [OF this new step] show ?thesis
    using inv held sub by (auto simp: step vm_inv_def)
qed

lemma vm_reach_inv:
  assumes "vm_reach k im s own" and "vm_image_in k im"
  shows "vm_inv k im s own"
  using assms(1)
proof (induction rule: vm_reach.induct)
  case (boot p own v)
  moreover have "vmm_image_ok im" using assms(2) by (simp add: vm_image_in_def)
  ultimately show ?case
    using assms(2) pmm_reach_inv vm_ok_init [of im v] by (simp add: vm_inv_def vm_image_in_def) blast
next
  case (alloc v p own a p')
  then have "pmm_inv k p own" by (simp add: vm_inv_def)
  from pf.alloc_fresh [OF this alloc.hyps(2,3)] alloc.IH show ?case
    by (auto simp: vm_inv_def frame_of_def)
next
  case (free v p own f)
  then have "pmm_inv k (pmm_free_frame (word_of_nat (f * 4096)) p) (own - {f})"
    by (intro pf.release_held) (auto simp: vm_inv_def)
  moreover have "f \<notin> boot_reserved k" using free by (auto simp: vm_inv_def pmm_inv_def)
  moreover have "frame_of (page_directory im) \<in> boot_reserved k" using assms(2) by (auto simp: vm_image_in_def)
  ultimately show ?case using free by (auto simp: vm_inv_def)
next
  case (map_old v p own virt phys flags)
  then have "table_of im v (pd_i virt) \<in> tables im v" by (intro tablesI) auto
  with map_old show ?case
    by (intro vm_inv_map_page) (auto simp: map_page_pmm new_table_ok_def map_table_def vm_inv_def)
next
  case (map_new v p own virt a p' phys flags)
  then have "pmm_inv k p own" by (simp add: vm_inv_def)
  from pf.alloc_fresh [OF this map_new.hyps(3,4)] map_new fresh_new_table_ok [OF map_new.IH map_new.hyps(3,4)]
  show ?case
    by (intro vm_inv_map_page [where own = own]) (auto simp: map_page_pmm map_table_def frame_of_def)
qed

text \<open>C3. In every reachable state, mapping a page gives exactly that page its new frame and
  leaves the translation of every other address unchanged, unless a new page table is
  needed and memory is exhausted.\<close>

theorem vmm_map_page_exact:
  assumes "vm_reach k im (v, p) own" and "vm_image_in k im"
    and "vmm_map_page im virt phys flags (v, p) = (v', p')"
    and "present im v (pd_i virt) \<or> fst (pmm_alloc_frame p) \<noteq> 0"
  shows "vmm_get_mapping im v' w =
    (if w AND NOT 0xFFF = virt AND NOT 0xFFF then (phys AND NOT 0xFFF) OR (w AND 0xFFF)
     else vmm_get_mapping im v w)"
proof -
  have inv: "vm_inv k im (v, p) own" using assms(1,2) by (rule vm_reach_inv)
  have "new_table_ok im virt (v, p)"
    using assms(4) fresh_new_table_ok [OF inv] by (cases "pmm_alloc_frame p") (auto simp: new_table_ok_def)
  with inv assms(3) show ?thesis by (intro get_mapping_map_page) (auto simp: vm_inv_def)
qed

definition boot_vmm_image :: vmm_image where
  "boot_vmm_image = \<lparr>page_directory = 0x150000, identity_tables = 0x151000\<rparr>"

definition zero_vmm :: vmm where
  "zero_vmm = \<lparr>words = (\<lambda>_. 0), cr3 = 0, paging = False\<rparr>"

lemma boot_vmm_image_ok: "vmm_image_ok boot_vmm_image"
  by (simp add: vmm_image_ok_def boot_vmm_image_def paligned_def)

lemma boot_vm_image_in: "vm_image_in boot_image boot_vmm_image"
proof -
  have "frame_of (itable boot_vmm_image t) \<in> boot_reserved boot_image" if "t < 32" for t
  proof -
    have "unat (itable boot_vmm_image t) = 0x151000 + 4096 * t"
      using unat_itable [OF boot_vmm_image_ok that] by (simp add: boot_vmm_image_def)
    then show ?thesis
      using that by (simp add: frame_of_def boot_reserved_def kernel_frames_def boot_image_def)
  qed
  moreover have "frame_of (page_directory boot_vmm_image) \<in> boot_reserved boot_image"
    by (simp add: boot_vmm_image_def frame_of_def boot_reserved_def kernel_frames_def boot_image_def)
  ultimately show ?thesis
    using boot_image_ok boot_vmm_image_ok by (auto simp: vm_image_in_def)
qed

lemma boot_vm_reach: "vm_reach boot_image boot_vmm_image (vmm_init boot_vmm_image zero_vmm, boot_pmm) {}"
  by (intro vm_reach.boot boot_pmm_reach)

theorem vmm_map_page_exact_witness:
  "vm_reach boot_image boot_vmm_image (vmm_init boot_vmm_image zero_vmm, boot_pmm) {} \<and>
   \<not> present boot_vmm_image (vmm_init boot_vmm_image zero_vmm) (pd_i 0x8000000) \<and>
   fst (pmm_alloc_frame boot_pmm) \<noteq> 0 \<and>
   vmm_get_mapping boot_vmm_image (fst (vmm_map_page boot_vmm_image 0x8000000 0x500000 3
     (vmm_init boot_vmm_image zero_vmm, boot_pmm))) 0x8000123 = 0x500123"
proof -
  let ?v = "vmm_init boot_vmm_image zero_vmm"
  obtain v' p' where s: "vmm_map_page boot_vmm_image 0x8000000 0x500000 3 (?v, boot_pmm) = (v', p')"
    by fastforce
  have a: "fst (pmm_alloc_frame boot_pmm) \<noteq> 0" using boot_pmm_alloc by auto
  have "\<not> present boot_vmm_image ?v (pd_i 0x8000000)"
    using vmm_init_entry(1) [OF boot_vmm_image_ok, of 32 zero_vmm] by (simp add: pd_i_def)
  moreover have "vmm_get_mapping boot_vmm_image v' 0x8000123 = 0x500123"
    using vmm_map_page_exact [OF boot_vm_reach boot_vm_image_in s, of "0x8000123"] a by simp
  ultimately show ?thesis using boot_vm_reach a s by simp
qed

text \<open>When memory is exhausted and a new page table is needed, the failure of the frame
  allocator goes unnoticed: frame 0 becomes the page table.\<close>

theorem vmm_map_page_exhausted:
  assumes "paligned (page_directory im)" and "page_directory im \<noteq> 0"
    and "\<not> present im v (pd_i virt)" and "pmm_alloc_frame p = (0, p)"
  shows "present im (fst (vmm_map_page im virt phys flags (v, p))) (pd_i virt) \<and>
    table_of im (fst (vmm_map_page im virt phys flags (v, p))) (pd_i virt) = 0 \<and>
    words (fst (vmm_map_page im virt phys flags (v, p))) (slot 0 (pt_i virt)) =
      (phys AND NOT 0xFFF) OR (flags AND 0xFFF) OR PAGE_PRESENT"
proof -
  have "paligned 0" by (simp add: paligned_def)
  then have "words (fst (vmm_map_page im virt phys flags (v, p))) (slot (page_directory im) (pd_i virt)) =
      0 OR (PAGE_PRESENT OR (PAGE_WRITE OR (flags AND PAGE_USER)))"
    using assms by (simp add: map_page_alt map_table_def or.assoc)
  then have "present im (fst (vmm_map_page im virt phys flags (v, p))) (pd_i virt)"
    and "table_of im (fst (vmm_map_page im virt phys flags (v, p))) (pd_i virt) = 0"
    by (simp_all add: present_def table_of_def bit_or_iff bit.conj_disj_distrib2 and.assoc)
  moreover have "words (fst (vmm_map_page im virt phys flags (v, p))) (slot 0 (pt_i virt)) =
      (phys AND NOT 0xFFF) OR (flags AND 0xFFF) OR PAGE_PRESENT"
    using assms(3,4) by (simp add: map_page_alt map_table_def)
  ultimately show ?thesis by blast
qed

theorem vmm_map_page_exhausted_witness:
  "pmm_alloc_frame pmm_reset = (0, pmm_reset) \<and>
   table_of boot_vmm_image (fst (vmm_map_page boot_vmm_image 0x8000000 0x500000 3
     (zero_vmm, pmm_reset))) 32 = 0"
proof -
  have full: "pmm_alloc_frame pmm_reset = (0, pmm_reset)"
    using pmm_ok_empty
  proof (cases rule: pmm_alloc_frame_cases)
    case (got f q)
    then show ?thesis using pmm_reset_used by simp
  qed
  then show ?thesis
    using vmm_map_page_exhausted [of boot_vmm_image zero_vmm "0x8000000" pmm_reset "0x500000" 3]
    by (simp add: boot_vmm_image_def paligned_def present_def zero_vmm_def pd_i_def)
qed

theorem vmm_init_identity_witness:
  "vmm_image_ok boot_vmm_image \<and> paging (vmm_init boot_vmm_image zero_vmm) \<and>
   vmm_get_mapping boot_vmm_image (vmm_init boot_vmm_image zero_vmm) 0x7123456 = 0x7123456 \<and>
   vmm_get_mapping boot_vmm_image (vmm_init boot_vmm_image zero_vmm) 0x8000000 = 0"
  using vmm_init_identity [OF boot_vmm_image_ok, of zero_vmm "0x7123456"]
    vmm_init_identity [OF boot_vmm_image_ok, of zero_vmm "0x8000000"] boot_vmm_image_ok by simp

end
