(* ===== verification/Heap.thy ===== *)
theory Heap
  imports Pmm
begin

text \<open>
  The kernel heap, \<^verbatim>\<open>kernel/heap.c\<close>: a doubly linked list of blocks that tile a
  region of 8 MiB, each a 20-byte header in front of its payload. Headers and payloads are
  bytes of one memory and every field access of the C code is a load or a store there, so
  that nothing but the proofs keeps a payload from overwriting a header. The search and the
  merging follow pointers and return an option, since on a corrupt list they may not end.
  The abstraction of a heap is the list of its blocks (address, size, free), on which
  first-fit allocation and freeing with merging are plain list functions.
\<close>

section \<open>Headers\<close>

abbreviation (input) HEAP_SIZE :: u32 where "HEAP_SIZE \<equiv> 8 * 1024 * 1024"
abbreviation (input) HEAP_MAGIC :: u32 where "HEAP_MAGIC \<equiv> 0xC0FFEE42"
abbreviation (input) HEADER :: u32 where "HEADER \<equiv> 20"

record heap_block =
  magic_of :: u32
  size_of :: u32
  free_of :: bool
  next_of :: u32
  prev_of :: u32

definition block_at :: "mem \<Rightarrow> u32 \<Rightarrow> heap_block" where
  "block_at m b = \<lparr>magic_of = ld32 m b, size_of = ld32 m (b + 4), free_of = (m (b + 8) \<noteq> 0),
     next_of = ld32 m (b + 12), prev_of = ld32 m (b + 16)\<rparr>"

definition set_magic :: "u32 \<Rightarrow> u32 \<Rightarrow> mem \<Rightarrow> mem" where
  "set_magic b x m = st32 m b x"

definition set_size :: "u32 \<Rightarrow> u32 \<Rightarrow> mem \<Rightarrow> mem" where
  "set_size b x m = st32 m (b + 4) x"

definition set_free :: "u32 \<Rightarrow> bool \<Rightarrow> mem \<Rightarrow> mem" where
  "set_free b x m = m(b + 8 := (if x then 1 else 0))"

definition set_next :: "u32 \<Rightarrow> u32 \<Rightarrow> mem \<Rightarrow> mem" where
  "set_next b x m = st32 m (b + 12) x"

definition set_prev :: "u32 \<Rightarrow> u32 \<Rightarrow> mem \<Rightarrow> mem" where
  "set_prev b x m = st32 m (b + 16) x"

section \<open>Operations\<close>

record heap =
  hmem :: mem
  heap_head :: u32
  heap_start :: u32
  heap_end :: u32

definition align8 :: "u32 \<Rightarrow> u32" where
  "align8 value = (value + 7) AND NOT 7"

definition heap_init :: "u32 \<Rightarrow> mem \<Rightarrow> heap" where
  "heap_init kend m =
     (let start = align_up kend 4096;
          m = set_magic start HEAP_MAGIC m;
          m = set_size start (HEAP_SIZE - HEADER) m;
          m = set_free start True m;
          m = set_next start 0 m;
          m = set_prev start 0 m
      in \<lparr>hmem = m, heap_head = start, heap_start = start, heap_end = start + HEAP_SIZE\<rparr>)"

definition split_block :: "u32 \<Rightarrow> u32 \<Rightarrow> mem \<Rightarrow> mem" where
  "split_block block sz m =
     (if size_of (block_at m block) < sz + HEADER + 16 then m
      else let next = block + HEADER + sz;
               m = set_magic next HEAP_MAGIC m;
               m = set_size next (size_of (block_at m block) - sz - HEADER) m;
               m = set_free next True m;
               m = set_next next (next_of (block_at m block)) m;
               m = set_prev next block m;
               m = (if next_of (block_at m next) \<noteq> 0
                    then set_prev (next_of (block_at m next)) next m else m);
               m = set_next block next m
           in set_size block sz m)"

partial_function (option) find_block :: "mem \<Rightarrow> u32 \<Rightarrow> u32 \<Rightarrow> u32 option" where
  "find_block m sz b =
     (if b = 0 then Some 0
      else if magic_of (block_at m b) = HEAP_MAGIC \<and> free_of (block_at m b) \<and>
              size_of (block_at m b) \<ge> sz then Some b
      else find_block m sz (next_of (block_at m b)))"

definition kmalloc :: "u32 \<Rightarrow> heap \<Rightarrow> (u32 \<times> heap) option" where
  "kmalloc sz h =
     (if sz = 0 then Some (0, h)
      else let sz = align8 sz in
        Option.bind (find_block (hmem h) sz (heap_head h)) (\<lambda>b.
          if b = 0 then Some (0, h)
          else Some (b + HEADER, h\<lparr>hmem := set_free b False (split_block b sz (hmem h))\<rparr>)))"

definition kcalloc :: "u32 \<Rightarrow> u32 \<Rightarrow> heap \<Rightarrow> (u32 \<times> heap) option" where
  "kcalloc count sz h =
     (let total = count * sz in
      Option.bind (kmalloc total h) (\<lambda>(ptr, h).
        if ptr \<noteq> 0 then Some (ptr, h\<lparr>hmem := memset (hmem h) ptr 0 total\<rparr>) else Some (ptr, h)))"

definition merge_next :: "u32 \<Rightarrow> mem \<Rightarrow> mem" where
  "merge_next block m =
     (let next = next_of (block_at m block) in
      if next \<noteq> 0 \<and> free_of (block_at m next) then
        let m = set_size block (size_of (block_at m block) + (HEADER + size_of (block_at m next))) m;
            m = set_next block (next_of (block_at m next)) m
        in if next_of (block_at m block) \<noteq> 0
           then set_prev (next_of (block_at m block)) block m else m
      else m)"

partial_function (option) coalesce :: "u32 \<Rightarrow> mem \<Rightarrow> mem option" where
  "coalesce block m =
     (let m = merge_next block m;
          prev = prev_of (block_at m block)
      in if prev \<noteq> 0 \<and> free_of (block_at m prev) then coalesce prev m else Some m)"

definition kfree :: "u32 \<Rightarrow> heap \<Rightarrow> heap option" where
  "kfree ptr h =
     (if ptr = 0 then Some h
      else let block = ptr - HEADER in
        if magic_of (block_at (hmem h) block) \<noteq> HEAP_MAGIC then Some h
        else map_option (\<lambda>m. h\<lparr>hmem := m\<rparr>) (coalesce block (set_free block True (hmem h))))"

definition krealloc :: "u32 \<Rightarrow> u32 \<Rightarrow> heap \<Rightarrow> (u32 \<times> heap) option" where
  "krealloc ptr sz h =
     (if ptr = 0 then kmalloc sz h
      else if sz = 0 then map_option (\<lambda>h. (0, h)) (kfree ptr h)
      else let block = ptr - HEADER in
        if size_of (block_at (hmem h) block) \<ge> sz then Some (ptr, h)
        else Option.bind (kmalloc sz h) (\<lambda>(next, h).
          if next = 0 then Some (0, h)
          else let h = h\<lparr>hmem := memcpy (hmem h) next ptr (size_of (block_at (hmem h) block))\<rparr>
               in map_option (\<lambda>h. (next, h)) (kfree ptr h)))"

partial_function (option) free_bytes_from :: "mem \<Rightarrow> u32 \<Rightarrow> u32 \<Rightarrow> u32 option" where
  "free_bytes_from m b acc =
     (if b = 0 then Some acc
      else free_bytes_from m (next_of (block_at m b))
             (if free_of (block_at m b) then acc + size_of (block_at m b) else acc))"

definition heap_free_bytes :: "heap \<Rightarrow> u32 option" where
  "heap_free_bytes h = free_bytes_from (hmem h) (heap_head h) 0"

definition heap_used_bytes :: "heap \<Rightarrow> u32 option" where
  "heap_used_bytes h = map_option (\<lambda>f. (heap_end h - heap_start h) - f) (heap_free_bytes h)"

section \<open>Headers that do not overlap\<close>

definition apart :: "u32 \<Rightarrow> u32 \<Rightarrow> bool" where
  "apart b c \<longleftrightarrow> (\<forall>i < 20. \<forall>j < 20. b + W i \<noteq> c + W j)"

lemma apart_sym: "apart b c \<longleftrightarrow> apart c b"
  unfolding apart_def by metis

lemma block_at_cong:
  assumes "\<forall>i < 20. m' (b + W i) = m (b + W i)"
  shows "block_at m' b = block_at m b"
proof -
  have e: "m' (b + numeral k) = m (b + numeral k)" if "numeral k < (20 :: nat)" for k
    using assms that by (metis of_nat_numeral)
  have "m' b = m b" "m' (b + 1) = m (b + 1)"
    using assms [rule_format, of 0] assms [rule_format, of 1] by simp_all
  then show ?thesis
    using e by (simp add: block_at_def ld32_def add.assoc)
qed

lemma field_bytes:
  assumes "\<forall>i < 20. x \<noteq> b + W i"
  shows "set_magic b v m x = m x" "set_size b v m x = m x" "set_free b f m x = m x"
    "set_next b v m x = m x" "set_prev b v m x = m x"
proof -
  have e: "x \<noteq> b + numeral k" if "numeral k < (20 :: nat)" for k
    using assms that by (metis of_nat_numeral)
  have "x \<noteq> b" "x \<noteq> b + 1"
    using assms [rule_format, of 0] assms [rule_format, of 1] by simp_all
  then show "set_magic b v m x = m x" "set_size b v m x = m x" "set_free b f m x = m x"
    "set_next b v m x = m x" "set_prev b v m x = m x"
    using e by (simp_all add: set_magic_def set_size_def set_free_def set_next_def set_prev_def
      st32_def add.assoc)
qed

lemma block_at_apart [simp]:
  assumes "apart b c"
  shows "block_at (set_magic b v m) c = block_at m c" "block_at (set_size b v m) c = block_at m c"
    "block_at (set_free b f m) c = block_at m c" "block_at (set_next b v m) c = block_at m c"
    "block_at (set_prev b v m) c = block_at m c"
  using assms unfolding apart_def
  by (auto intro!: block_at_cong field_bytes(1) field_bytes(2) field_bytes(3) field_bytes(4) field_bytes(5))
    metis+

lemma ld32_st32_other:
  assumes "c - a \<notin> {0, 1, 2, 3, -1, -2, -3}"
  shows "ld32 (st32 m a v) c = ld32 m c"
proof -
  have *: "c + i \<noteq> a + j" if "i \<in> {0, 1, 2, 3}" "j \<in> {0, 1, 2, 3}" for i j
  proof
    assume "c + i = a + j"
    then have "c - a = j - i" by (simp add: algebra_simps)
    then show False using assms that by auto
  qed
  have "st32 m a v (c + i) = m (c + i)" if "i \<in> {0, 1, 2, 3}" for i
    using * [OF that, of 0] * [OF that, of 1] * [OF that, of 2] * [OF that, of 3]
    by (intro st32_other) simp_all
  from this [of 0] this [of 1] this [of 2] this [of 3] show ?thesis
    by (intro ld32_cong) simp_all
qed

lemma block_at_same [simp]:
  "block_at (set_magic b v m) b = (block_at m b)\<lparr>magic_of := v\<rparr>"
  "block_at (set_size b v m) b = (block_at m b)\<lparr>size_of := v\<rparr>"
  "block_at (set_free b f m) b = (block_at m b)\<lparr>free_of := f\<rparr>"
  "block_at (set_next b v m) b = (block_at m b)\<lparr>next_of := v\<rparr>"
  "block_at (set_prev b v m) b = (block_at m b)\<lparr>prev_of := v\<rparr>"
  by (simp_all add: block_at_def set_magic_def set_size_def set_next_def set_prev_def
      ld32_st32_other st32_other)
    (simp add: set_free_def ld32_def)

lemma apart_nat:
  assumes "a + 20 \<le> b \<or> b + 20 \<le> a" and "a + 20 \<le> 2 ^ 32" and "b + 20 \<le> 2 ^ 32"
  shows "apart (W a) (W b)"
  unfolding apart_def
proof (intro allI impI notI)
  fix i j :: nat
  assume ij: "i < 20" "j < 20" and "W a + W i = W b + W j"
  then have "W (a + i) = W (b + j)" by simp
  then show False using ij assms by (subst (asm) W_inj) auto
qed

lemma split_block_fields:
  assumes A: "block_at m A = \<lparr>magic_of = HEAP_MAGIC, size_of = S, free_of = f, next_of = D, prev_of = P\<rparr>"
    and C: "C = A + HEADER + n" and big: "\<not> S < n + HEADER + 16"
    and ap: "apart A C" "D \<noteq> 0 \<Longrightarrow> apart A D" "D \<noteq> 0 \<Longrightarrow> apart C D"
  defines "m1 \<equiv> set_free A False (split_block A n m)"
  shows "block_at m1 A = \<lparr>magic_of = HEAP_MAGIC, size_of = n, free_of = False, next_of = C, prev_of = P\<rparr>"
    and "block_at m1 C = \<lparr>magic_of = HEAP_MAGIC, size_of = S - n - HEADER, free_of = True, next_of = D, prev_of = A\<rparr>"
    and "D \<noteq> 0 \<Longrightarrow> block_at m1 D = (block_at m D)\<lparr>prev_of := C\<rparr>"
    and "apart A x \<Longrightarrow> apart C x \<Longrightarrow> D \<noteq> 0 \<Longrightarrow> apart D x \<Longrightarrow> block_at m1 x = block_at m x"
    and "apart A x \<Longrightarrow> apart C x \<Longrightarrow> D = 0 \<Longrightarrow> block_at m1 x = block_at m x"
    and "\<forall>i < 20. y \<noteq> A + W i \<and> y \<noteq> C + W i \<and> (D \<noteq> 0 \<longrightarrow> y \<noteq> D + W i) \<Longrightarrow> m1 y = m y"
proof -
  have ap': "apart C A" "D \<noteq> 0 \<Longrightarrow> apart D A" "D \<noteq> 0 \<Longrightarrow> apart D C"
    using ap apart_sym by blast+
  let ?m5 = "set_prev C A (set_next C D (set_free C True (set_size C (S - n - HEADER) (set_magic C HEAP_MAGIC m))))"
  have m1: "m1 = set_free A False (set_size A n (set_next A C
      (if D \<noteq> 0 then set_prev D C ?m5 else ?m5)))"
    using big ap ap' by (simp add: m1_def split_block_def Let_def A flip: C)
  show "block_at m1 A = \<lparr>magic_of = HEAP_MAGIC, size_of = n, free_of = False, next_of = C, prev_of = P\<rparr>"
    "block_at m1 C = \<lparr>magic_of = HEAP_MAGIC, size_of = S - n - HEADER, free_of = True, next_of = D, prev_of = A\<rparr>"
    "D \<noteq> 0 \<Longrightarrow> block_at m1 D = (block_at m D)\<lparr>prev_of := C\<rparr>"
    "apart A x \<Longrightarrow> apart C x \<Longrightarrow> D \<noteq> 0 \<Longrightarrow> apart D x \<Longrightarrow> block_at m1 x = block_at m x"
    "apart A x \<Longrightarrow> apart C x \<Longrightarrow> D = 0 \<Longrightarrow> block_at m1 x = block_at m x"
    using ap ap' by (simp_all add: m1 A)
  show "m1 y = m y" if "\<forall>i < 20. y \<noteq> A + W i \<and> y \<noteq> C + W i \<and> (D \<noteq> 0 \<longrightarrow> y \<noteq> D + W i)"
    using that by (simp add: m1 field_bytes)
qed

lemma merge_next_fields:
  assumes A: "block_at m A = \<lparr>magic_of = g, size_of = S, free_of = f, next_of = B, prev_of = P\<rparr>"
    and B: "block_at m B = \<lparr>magic_of = g', size_of = T, free_of = True, next_of = D, prev_of = P'\<rparr>" "B \<noteq> 0"
    and ap: "apart A B" "D \<noteq> 0 \<Longrightarrow> apart A D"
  defines "m1 \<equiv> merge_next A m"
  shows "block_at m1 A = \<lparr>magic_of = g, size_of = S + (HEADER + T), free_of = f, next_of = D, prev_of = P\<rparr>"
    and "D \<noteq> 0 \<Longrightarrow> block_at m1 D = (block_at m D)\<lparr>prev_of := A\<rparr>"
    and "apart A x \<Longrightarrow> D \<noteq> 0 \<Longrightarrow> apart D x \<Longrightarrow> block_at m1 x = block_at m x"
    and "apart A x \<Longrightarrow> D = 0 \<Longrightarrow> block_at m1 x = block_at m x"
    and "\<forall>i < 20. y \<noteq> A + W i \<and> (D \<noteq> 0 \<longrightarrow> y \<noteq> D + W i) \<Longrightarrow> m1 y = m y"
proof -
  have ap': "apart B A" "D \<noteq> 0 \<Longrightarrow> apart D A" using ap apart_sym by blast+
  let ?m2 = "set_next A D (set_size A (S + (HEADER + T)) m)"
  have m1: "m1 = (if D \<noteq> 0 then set_prev D A ?m2 else ?m2)"
    using ap ap' B by (simp add: m1_def merge_next_def Let_def A)
  show "block_at m1 A = \<lparr>magic_of = g, size_of = S + (HEADER + T), free_of = f, next_of = D, prev_of = P\<rparr>"
    "D \<noteq> 0 \<Longrightarrow> block_at m1 D = (block_at m D)\<lparr>prev_of := A\<rparr>"
    "apart A x \<Longrightarrow> D \<noteq> 0 \<Longrightarrow> apart D x \<Longrightarrow> block_at m1 x = block_at m x"
    "apart A x \<Longrightarrow> D = 0 \<Longrightarrow> block_at m1 x = block_at m x"
    using ap ap' by (simp_all add: m1 A)
  show "m1 y = m y" if "\<forall>i < 20. y \<noteq> A + W i \<and> (D \<noteq> 0 \<longrightarrow> y \<noteq> D + W i)"
    using that by (simp add: m1 field_bytes)
qed

section \<open>The list of blocks\<close>

type_synonym blk = "nat \<times> nat \<times> bool"

fun tiled :: "nat \<Rightarrow> blk list \<Rightarrow> nat \<Rightarrow> bool" where
  "tiled a [] e \<longleftrightarrow> a = e"
| "tiled a ((b, s, f) # bs) e \<longleftrightarrow> b = a \<and> tiled (a + 20 + s) bs e"

fun first_addr :: "blk list \<Rightarrow> nat" where
  "first_addr [] = 0"
| "first_addr ((a, s, f) # bs) = a"

fun linked :: "mem \<Rightarrow> nat \<Rightarrow> blk list \<Rightarrow> nat \<Rightarrow> bool" where
  "linked m p [] nx \<longleftrightarrow> True"
| "linked m p ((a, s, f) # bs) nx \<longleftrightarrow>
     block_at m (W a) = \<lparr>magic_of = HEAP_MAGIC, size_of = W s, free_of = f,
       next_of = W (if bs = [] then nx else first_addr bs), prev_of = W p\<rparr> \<and>
     linked m a bs nx"

definition last_addr :: "nat \<Rightarrow> blk list \<Rightarrow> nat" where
  "last_addr p bs = (if bs = [] then p else fst (last bs))"

lemma tiled_append: "tiled a (xs @ ys) e \<longleftrightarrow> (\<exists>c. tiled a xs c \<and> tiled c ys e)"
  by (induction a xs e rule: tiled.induct) auto

lemma tiled_le: "tiled a bs e \<Longrightarrow> a \<le> e"
  by (induction a bs e rule: tiled.induct) auto

lemma tiled_mem: "tiled a bs e \<Longrightarrow> (b, s, f) \<in> set bs \<Longrightarrow> a \<le> b \<and> b + 20 + s \<le> e"
  by (induction a bs e rule: tiled.induct) (auto dest: tiled_le)

lemma tiled_first: "tiled a bs e \<Longrightarrow> bs \<noteq> [] \<Longrightarrow> first_addr bs = a"
  by (cases bs) auto

lemma linked_append:
  "linked m p (xs @ ys) nx \<longleftrightarrow>
    linked m p xs (if ys = [] then nx else first_addr ys) \<and> linked m (last_addr p xs) ys nx"
proof (induction xs arbitrary: p)
  case (Cons x xs)
  obtain a s f where x: "x = (a, s, f)" by (cases x)
  have "first_addr (xs @ ys) = (if xs = [] then first_addr ys else first_addr xs)"
    by (cases xs) auto
  moreover have "last_addr p (x # xs) = last_addr a xs" by (simp add: last_addr_def x)
  ultimately show ?case using Cons by (auto simp: x)
qed (simp add: last_addr_def)

lemma linked_cong:
  "\<forall>b \<in> set bs. block_at m' (W (fst b)) = block_at m (W (fst b)) \<Longrightarrow>
    linked m p bs nx \<Longrightarrow> linked m' p bs nx"
  by (induction m p bs nx rule: linked.induct) auto

lemma find_block_spec:
  assumes "linked m p bs 0" and "tiled a bs e" and "0 < a" and "e < 2 ^ 32"
  shows "find_block m n (W (first_addr bs)) =
    Some (case find (\<lambda>(b, s, f). f \<and> unat n \<le> s) bs of None \<Rightarrow> 0 | Some (b, s, f) \<Rightarrow> W b)"
  using assms
proof (induction bs arbitrary: p a)
  case Nil
  show ?case by (simp add: find_block.simps)
next
  case (Cons x bs)
  obtain b s f where x: "x = (b, s, f)" by (cases x)
  have "b + 20 + s \<le> e" and "0 < b" using Cons.prems tiled_le by (auto simp: x)
  then have W: "W b \<noteq> 0" "unat (W s) = s" "unat (W b) = b"
    using Cons.prems(4) W_inj [of b 0] by (auto simp: unat_of_nat_u32)
  have blk: "block_at m (W b) = \<lparr>magic_of = HEAP_MAGIC, size_of = W s, free_of = f,
      next_of = W (first_addr bs), prev_of = W p\<rparr>"
    using Cons.prems(1) by (cases bs) (auto simp: x)
  have IH: "find_block m n (W (first_addr bs)) =
      Some (case find (\<lambda>(b, s, f). f \<and> unat n \<le> s) bs of None \<Rightarrow> 0 | Some (b, s, f) \<Rightarrow> W b)"
    using Cons.prems by (intro Cons.IH [of b "b + 20 + s"]) (auto simp: x)
  show ?case
    using W IH by (simp add: x find_block.simps [of m n "W b"] blk word_le_nat_alt)
qed

section \<open>Allocation on the list\<close>

definition carve :: "nat \<Rightarrow> nat \<Rightarrow> nat \<Rightarrow> blk list" where
  "carve a s n = (if s < n + 36 then [(a, s, False)] else [(a, n, False), (a + 20 + n, s - n - 20, True)])"

fun first_fit :: "nat \<Rightarrow> blk list \<Rightarrow> (nat \<times> blk list) option" where
  "first_fit n [] = None"
| "first_fit n ((a, s, f) # bs) =
     (if f \<and> n \<le> s then Some (a + 20, carve a s n @ bs)
      else map_option (apsnd ((#) (a, s, f))) (first_fit n bs))"

lemma first_fit_none: "find (\<lambda>(b, s, f). f \<and> n \<le> s) bs = None \<Longrightarrow> first_fit n bs = None"
  by (induction bs) (auto split: if_splits)

lemma first_fit_some:
  assumes "find (\<lambda>(b, s, f). f \<and> n \<le> s) bs = Some (a, s, f)"
  obtains l r where "bs = l @ (a, s, True) # r" "n \<le> s" "first_fit n bs = Some (a + 20, l @ carve a s n @ r)"
  using assms
proof (induction bs arbitrary: thesis)
  case (Cons x bs)
  obtain b t g where x: "x = (b, t, g)" by (cases x)
  show ?case
  proof (cases "g \<and> n \<le> t")
    case True
    with Cons.prems(2) show ?thesis
      by (intro Cons.prems(1) [of "[]" bs]) (auto simp: x)
  next
    case False
    with Cons.prems(2) obtain l r where "bs = l @ (a, s, True) # r" "n \<le> s"
      "first_fit n bs = Some (a + 20, l @ carve a s n @ r)"
      using Cons.IH by (auto simp: x)
    with False show ?thesis
      by (intro Cons.prems(1) [of "x # l" r]) (auto simp: x)
  qed
qed simp

section \<open>Splitting and merging implement the list operations\<close>

definition region :: "nat \<Rightarrow> nat \<Rightarrow> bool" where
  "region S E \<longleftrightarrow> 0 < S \<and> E = S + 8388608 \<and> E < 2 ^ 32"

lemma tiled_mid:
  assumes "tiled S (l @ (a, s, f) # r) E"
  shows "tiled S l a" "tiled (a + 20 + s) r E" "S \<le> a" "a + 20 + s \<le> E"
    "\<forall>(b, t, g) \<in> set l. S \<le> b \<and> b + 20 + t \<le> a"
    "\<forall>(b, t, g) \<in> set r. a + 20 + s \<le> b \<and> b + 20 + t \<le> E"
  using assms by (auto simp: tiled_append dest: tiled_le tiled_mem)

lemma relink:
  assumes "linked m p r nx"
    and "r \<noteq> [] \<Longrightarrow> block_at m1 (W (first_addr r)) = (block_at m (W (first_addr r)))\<lparr>prev_of := W c\<rparr>"
    and "\<forall>b \<in> set (tl r). block_at m1 (W (fst b)) = block_at m (W (fst b))"
  shows "linked m1 c r nx"
  using assms by (cases r) (auto intro: linked_cong [where m = m])

lemma tail_apart:
  assumes "tiled c r E" and "E < 2 ^ 32"
  shows "\<forall>b \<in> set (tl r). apart (W (first_addr r)) (W (fst b))"
proof (cases r)
  case (Cons x r')
  then obtain d t g where x: "r = (d, t, g) # r'" by (cases x) auto
  then show ?thesis
    using assms tiled_mid [of c "[]" d t g r' E] by (fastforce intro!: apart_nat)
qed simp

lemma tiled_disj:
  "tiled S bs E \<Longrightarrow> (b, t, f) \<in> set bs \<Longrightarrow> (d, u, g) \<in> set bs \<Longrightarrow>
    (b, t, f) = (d, u, g) \<or> b + 20 + t \<le> d \<or> d + 20 + u \<le> b"
  by (induction S bs E rule: tiled.induct) (auto dest: tiled_mem)

lemma header_miss:
  assumes "y < a \<or> a + 20 \<le> y" and "y < 2 ^ 32" and "a + 20 \<le> 2 ^ 32"
  shows "\<forall>i < 20. W y \<noteq> W a + W i"
proof (intro allI impI notI)
  fix i :: nat
  assume i: "i < 20" and "W y = W a + W i"
  then have "W y = W (a + i)" by simp
  then show False using i assms by (subst (asm) W_inj) auto
qed

lemma payload_miss:
  assumes "tiled S bs E" and "E < 2 ^ 32" and "(b, t, f) \<in> set bs" and "(d, u, g) \<in> set bs"
    and "b + 20 \<le> y" "y < b + 20 + t"
  shows "\<forall>i < 20. W y \<noteq> W d + W i"
  using tiled_disj [OF assms(1,3,4)] tiled_mem [OF assms(1,3)] tiled_mem [OF assms(1,4)] assms(2,5,6)
  by (intro header_miss) auto

lemma carve_linked:
  assumes reg: "region S E" and til: "tiled S (l @ (a, s, True) # r) E"
    and lnk: "linked m 0 (l @ (a, s, True) # r) 0" and n: "unat n \<le> s"
  defines "m1 \<equiv> set_free (W a) False (split_block (W a) n m)"
  shows "linked m1 0 (l @ carve a s (unat n) @ r) 0"
    and "(b, t, False) \<in> set (l @ (a, s, True) # r) \<Longrightarrow> b + 20 \<le> y \<Longrightarrow> y < b + 20 + t \<Longrightarrow> m1 (W y) = m (W y)"
proof -
  note mid = tiled_mid [OF til]
  have E: "E < 2 ^ 32" "0 < a" "s < 8388608" "unat (W s) = s"
    using reg mid(3,4) by (auto simp: region_def unat_of_nat_u32)
  let ?D = "if r = [] then 0 else first_addr r"
  have L: "linked m 0 l a" and R: "linked m a r 0"
    and A: "block_at m (W a) = \<lparr>magic_of = HEAP_MAGIC, size_of = W s, free_of = True,
      next_of = W ?D, prev_of = W (last_addr 0 l)\<rparr>"
    using lnk by (auto simp: linked_append)
  have apL: "\<forall>b \<in> set l. apart (W c) (W (fst b))" if "a \<le> c" "c + 20 \<le> E" for c
    using mid(5) that E by (fastforce intro!: apart_nat)
  have apR: "\<forall>b \<in> set r. apart (W c) (W (fst b))" if "c + 20 \<le> a + 20 + s" for c
    using mid(6) that E by (fastforce intro!: apart_nat)
  have small: "W s < n + HEADER + 16 \<longleftrightarrow> s < unat n + 36"
    using n E by (simp add: word_less_nat_alt unat_word_ariths) linarith
  let ?pay = "(b, t, False) \<in> set (l @ (a, s, True) # r) \<and> b + 20 \<le> y \<and> y < b + 20 + t"
  have missA: "\<forall>i < 20. W y \<noteq> W a + W i" if ?pay
    using payload_miss [OF til E(1), of b t False a s True y] that by simp
  have "linked m1 0 (l @ carve a s (unat n) @ r) 0 \<and> (?pay \<longrightarrow> m1 (W y) = m (W y))"
  proof (cases "s < unat n + 36")
    case True
    then have m1: "m1 = set_free (W a) False m"
      using small by (simp add: m1_def split_block_def A)
    have "linked m1 0 l a" "linked m1 a r 0"
      using L R apL [of a] apR [of a] mid(4) by (auto simp: m1 intro!: linked_cong [OF _ L] linked_cong [OF _ R])
    moreover have "block_at m1 (W a) = \<lparr>magic_of = HEAP_MAGIC, size_of = W s, free_of = False,
        next_of = W ?D, prev_of = W (last_addr 0 l)\<rparr>" by (simp add: m1 A)
    moreover have "m1 (W y) = m (W y)" if ?pay using missA [OF that] by (simp add: m1 field_bytes)
    ultimately show ?thesis using True by (auto simp: carve_def linked_append)
  next
    case False
    define c where "c = a + 20 + unat n"
    have c: "W c = W a + HEADER + n" by (simp add: c_def)
    have cb: "a + 20 \<le> c" "c + 20 \<le> a + 20 + s" using False by (auto simp: c_def)
    have D: "W ?D \<noteq> 0 \<longleftrightarrow> r \<noteq> []" and rne: "r \<noteq> [] \<Longrightarrow> a + 20 + s \<le> first_addr r \<and> first_addr r + 20 \<le> E"
    proof -
      have "a + 20 + s \<le> first_addr r \<and> first_addr r + 20 \<le> E" if "r \<noteq> []"
        using that mid(6) tiled_first [OF mid(2)] by (cases r) auto
      then show "r \<noteq> [] \<Longrightarrow> a + 20 + s \<le> first_addr r \<and> first_addr r + 20 \<le> E"
        and "W ?D \<noteq> 0 \<longleftrightarrow> r \<noteq> []"
        using E W_inj [of "first_addr r" 0] by auto
    qed
    have ap: "apart (W a) (W c)" "W ?D \<noteq> 0 \<Longrightarrow> apart (W a) (W ?D)" "W ?D \<noteq> 0 \<Longrightarrow> apart (W c) (W ?D)"
      using cb rne D E mid(4) by (auto intro!: apart_nat)
    have big: "\<not> W s < n + HEADER + 16" using small False by simp
    note F = split_block_fields [OF A c big ap, folded m1_def]
    have "\<forall>b \<in> set l. block_at m1 (W (fst b)) = block_at m (W (fst b))"
      using apL [of a] apL [of c] apL [of ?D] cb mid(4) F(4,5) rne D by (cases "r = []") auto
    then have "linked m1 0 l a" using L by (rule linked_cong)
    moreover have "linked m1 c r 0"
    proof (rule relink [OF R])
      show "block_at m1 (W (first_addr r)) = (block_at m (W (first_addr r)))\<lparr>prev_of := W c\<rparr>" if "r \<noteq> []"
        using F(3) D that by simp
      have "\<forall>b \<in> set (tl r). apart (W (first_addr r)) (W (fst b))"
        using tail_apart [OF mid(2)] E by simp
      then show "\<forall>b \<in> set (tl r). block_at m1 (W (fst b)) = block_at m (W (fst b))"
        using apR [of a] apR [of c] cb F(4,5) D by (cases r) auto
    qed
    moreover have "W s - n - HEADER = W (s - unat n - 20)"
      using False by (simp add: of_nat_diff)
    moreover have "m1 (W y) = m (W y)" if ?pay
    proof (rule F(6))
      have "\<forall>i < 20. W y \<noteq> W c + W i"
        using that tiled_disj [OF til, of b t False a s True] tiled_mem [OF til, of b t False] cb mid(4) E
        by (intro header_miss) auto
      moreover have "\<forall>i < 20. W y \<noteq> W ?D + W i" if rn: "r \<noteq> []"
      proof -
        obtain d u g r' where "r = (d, u, g) # r'" using rn by (cases r) auto
        then show ?thesis using \<open>?pay\<close> payload_miss [OF til E(1), of b t False d u g y] by simp
      qed
      ultimately show "\<forall>i < 20. W y \<noteq> W a + W i \<and> W y \<noteq> W c + W i \<and> (W ?D \<noteq> 0 \<longrightarrow> W y \<noteq> W ?D + W i)"
        using missA [OF that] D by blast
    qed
    ultimately show ?thesis
      using F(1,2) False by (simp add: carve_def linked_append c_def [symmetric])
  qed
  then show "linked m1 0 (l @ carve a s (unat n) @ r) 0"
    and "(b, t, False) \<in> set (l @ (a, s, True) # r) \<Longrightarrow> b + 20 \<le> y \<Longrightarrow> y < b + 20 + t \<Longrightarrow> m1 (W y) = m (W y)"
    by blast+
qed

lemma first_addr_ge:
  assumes "tiled c r E" and "r \<noteq> []"
  shows "c \<le> first_addr r" "first_addr r + 20 \<le> E"
  using assms tiled_le by (cases r; fastforce)+

lemma apart_others:
  assumes "tiled S (l @ (a, s, f) # r) E" and "E < 2 ^ 32"
  shows "\<forall>b \<in> set l \<union> set r. apart (W a) (W (fst b))"
  using tiled_mid [OF assms(1)] assms(2) by (fastforce intro!: apart_nat)

lemma set_free_linked:
  assumes til: "tiled S (l @ (a, s, f) # r) E" and E: "E < 2 ^ 32"
    and lnk: "linked m 0 (l @ (a, s, f) # r) 0"
  shows "linked (set_free (W a) g m) 0 (l @ (a, s, g) # r) 0"
    and "(b, t, h) \<in> set (l @ (a, s, f) # r) \<Longrightarrow> b + 20 \<le> y \<Longrightarrow> y < b + 20 + t \<Longrightarrow>
      set_free (W a) g m (W y) = m (W y)"
proof -
  have L: "linked m 0 l a" and R: "linked m a r 0" using lnk by (auto simp: linked_append)
  have "\<forall>b \<in> set l \<union> set r. block_at (set_free (W a) g m) (W (fst b)) = block_at m (W (fst b))"
    using apart_others [OF til E] by simp
  then have "linked (set_free (W a) g m) 0 l a" "linked (set_free (W a) g m) a r 0"
    by (blast intro: linked_cong [OF _ L] linked_cong [OF _ R])+
  then show "linked (set_free (W a) g m) 0 (l @ (a, s, g) # r) 0"
    using lnk by (simp add: linked_append)
  show "set_free (W a) g m (W y) = m (W y)"
    if "(b, t, h) \<in> set (l @ (a, s, f) # r)" "b + 20 \<le> y" "y < b + 20 + t"
    using payload_miss [OF til E that(1), of a s f y] that(2,3) by (simp add: field_bytes)
qed

lemma merge_linked:
  assumes reg: "region S E" and til: "tiled S (l @ (a, s, f) # (b, t, True) # r) E"
    and lnk: "linked m 0 (l @ (a, s, f) # (b, t, True) # r) 0"
  shows "linked (merge_next (W a) m) 0 (l @ (a, s + 20 + t, f) # r) 0"
    and "(d, u, h) \<in> set (l @ (a, s, f) # (b, t, True) # r) \<Longrightarrow> d + 20 \<le> y \<Longrightarrow> y < d + 20 + u \<Longrightarrow>
      merge_next (W a) m (W y) = m (W y)"
proof -
  note mid = tiled_mid [OF til]
  have E: "E < 2 ^ 32" "0 < S" using reg by (simp_all add: region_def)
  have b: "b = a + 20 + s" and tr: "tiled (b + 20 + t) r E" using mid(2) by auto
  let ?D = "if r = [] then 0 else first_addr r"
  have A: "block_at m (W a) = \<lparr>magic_of = HEAP_MAGIC, size_of = W s, free_of = f,
      next_of = W b, prev_of = W (last_addr 0 l)\<rparr>"
    and B: "block_at m (W b) = \<lparr>magic_of = HEAP_MAGIC, size_of = W t, free_of = True,
      next_of = W ?D, prev_of = W a\<rparr>"
    and L: "linked m 0 l a" and R: "linked m b r 0"
    using lnk by (auto simp: linked_append)
  have Bn: "W b \<noteq> 0" using mid(3,6) E W_inj [of b 0] by auto
  have D: "W ?D \<noteq> 0 \<longleftrightarrow> r \<noteq> []"
    using first_addr_ge [OF tr] E mid(3) W_inj [of "first_addr r" 0] b by fastforce
  have others: "\<forall>c \<in> set l \<union> set ((b, t, True) # r). apart (W a) (W (fst c))"
    by (rule apart_others [OF til E(1)])
  then have ap: "apart (W a) (W b)" "W ?D \<noteq> 0 \<Longrightarrow> apart (W a) (W ?D)"
    using D by (simp, cases r rule: first_addr.cases) auto
  note F = merge_next_fields [OF A B Bn ap]
  have apD: "\<forall>c \<in> set l \<union> set (tl r). apart (W ?D) (W (fst c))" if rn: "r \<noteq> []"
  proof -
    obtain d u g r' where r: "r = (d, u, g) # r'" using rn by (cases r) auto
    show ?thesis
      using apart_others [of S "l @ [(a, s, f), (b, t, True)]" d u g r' E] til E(1) by (simp add: r)
  qed
  have "\<forall>c \<in> set l. block_at (merge_next (W a) m) (W (fst c)) = block_at m (W (fst c))"
    using others apD D F(3,4) by (cases "r = []") auto
  then have "linked (merge_next (W a) m) 0 l a" using L by (rule linked_cong)
  moreover have "linked (merge_next (W a) m) a r 0"
    using others apD D F(2,3,4) by (intro relink [OF R]) (cases r; auto)+
  moreover have "W s + (HEADER + W t) = W (s + 20 + t)" by simp
  ultimately show "linked (merge_next (W a) m) 0 (l @ (a, s + 20 + t, f) # r) 0"
    using F(1) by (simp add: linked_append)
  show "merge_next (W a) m (W y) = m (W y)"
    if "(d, u, h) \<in> set (l @ (a, s, f) # (b, t, True) # r)" "d + 20 \<le> y" "y < d + 20 + u"
  proof (rule F(5))
    have *: "\<forall>i < 20. W y \<noteq> W c + W i" if "(c, v, k) \<in> set (l @ (a, s, f) # (b, t, True) # r)" for c v k
      using payload_miss [OF til E(1) \<open>(d, u, h) \<in> _\<close> that] \<open>d + 20 \<le> y\<close> \<open>y < d + 20 + u\<close> by blast
    show "\<forall>i < 20. W y \<noteq> W a + W i \<and> (W ?D \<noteq> 0 \<longrightarrow> W y \<noteq> W ?D + W i)"
      using * [of a s f] * [of "fst (hd r)" "fst (snd (hd r))" "snd (snd (hd r))"] D by (cases r) auto
  qed
qed

lemma merge_next_id:
  assumes "linked m 0 (l @ (a, s, f) # r) 0" and "\<forall>b t. r \<noteq> [] \<longrightarrow> hd r \<noteq> (b, t, True)"
  shows "merge_next (W a) m = m"
proof (cases r)
  case Nil
  then show ?thesis using assms(1) by (simp add: merge_next_def linked_append)
next
  case (Cons x r')
  then obtain b t where "r = (b, t, False) # r'" using assms(2) by (cases x) auto
  then show ?thesis using assms(1) by (simp add: merge_next_def linked_append)
qed

section \<open>Freeing on the list\<close>

fun separated :: "blk list \<Rightarrow> bool" where
  "separated ((a, s, f) # (b, t, g) # bs) \<longleftrightarrow> \<not> (f \<and> g) \<and> separated ((b, t, g) # bs)"
| "separated bs \<longleftrightarrow> True"

fun merge_free :: "blk list \<Rightarrow> blk list" where
  "merge_free ((a, s, f) # (b, t, g) # bs) =
     (if f \<and> g then merge_free ((a, s + 20 + t, True) # bs)
      else (a, s, f) # merge_free ((b, t, g) # bs))"
| "merge_free bs = bs"

definition mark_free :: "nat \<Rightarrow> blk list \<Rightarrow> blk list" where
  "mark_free p bs = map (\<lambda>(a, s, f). if a + 20 = p then (a, s, True) else (a, s, f)) bs"

definition headed_free :: "blk list \<Rightarrow> bool" where
  "headed_free bs \<longleftrightarrow> bs \<noteq> [] \<and> snd (snd (hd bs))"

definition ends_free :: "blk list \<Rightarrow> bool" where
  "ends_free bs \<longleftrightarrow> bs \<noteq> [] \<and> snd (snd (last bs))"

lemma separated_append:
  "separated (l @ r) \<longleftrightarrow> separated l \<and> separated r \<and> \<not> (ends_free l \<and> headed_free r)"
proof (induction l rule: separated.induct, goal_cases)
  case (3 x)
  then show ?case by (cases x; cases r) (auto simp: ends_free_def headed_free_def)
qed (auto simp: ends_free_def headed_free_def)

lemma separated_Cons: "separated (b # bs) \<longleftrightarrow> separated bs \<and> \<not> (snd (snd b) \<and> headed_free bs)"
  using separated_append [of "[b]" bs] by (simp add: ends_free_def)

lemma merge_free_id: "separated bs \<Longrightarrow> merge_free bs = bs"
  by (induction bs rule: merge_free.induct) auto

lemma merge_free_Cons_used: "\<not> snd (snd b) \<Longrightarrow> merge_free (b # bs) = b # merge_free bs"
  by (cases b; cases bs) auto

lemma merge_free_append:
  "separated l \<Longrightarrow> \<not> ends_free l \<Longrightarrow> merge_free (l @ r) = l @ merge_free r"
proof (induction l rule: separated.induct, goal_cases)
  case (3 x)
  then show ?case by (simp add: ends_free_def merge_free_Cons_used)
qed (auto simp: ends_free_def)

lemma merge_free_Cons_free:
  assumes "separated r"
  shows "merge_free ((a, s, True) # r) =
    (if headed_free r then (a, s + 20 + fst (snd (hd r)), True) # tl r else (a, s, True) # r)"
proof (cases r)
  case (Cons x r')
  obtain b t g where x: "x = (b, t, g)" by (cases x)
  have "merge_free ((a, u, True) # r') = (a, u, True) # r'" if g for u
    using assms that by (intro merge_free_id) (simp add: Cons x separated_Cons)
  then show ?thesis
    using merge_free_id [OF assms] by (cases g) (simp_all add: Cons x headed_free_def)
qed (simp add: headed_free_def)

lemma tiled_merge: "tiled S (l @ (a, s, f) # (b, t, g) # r) E \<Longrightarrow> tiled S (l @ (a, s + 20 + t, h) # r) E"
  by (auto simp: tiled_append add.assoc)

text \<open>One step of \<open>coalesce\<close>: absorb the next block if it is free.\<close>

definition absorbed :: "nat \<Rightarrow> nat \<Rightarrow> blk list \<Rightarrow> blk list" where
  "absorbed a s r =
     (if headed_free r then (a, s + 20 + fst (snd (hd r)), True) # tl r else (a, s, True) # r)"

lemma merge_next_absorbs:
  assumes reg: "region S E" and til: "tiled S (l @ (a, s, True) # r) E"
    and lnk: "linked m 0 (l @ (a, s, True) # r) 0"
  shows "linked (merge_next (W a) m) 0 (l @ absorbed a s r) 0"
    and "tiled S (l @ absorbed a s r) E"
    and "(d, u, h) \<in> set (l @ (a, s, True) # r) \<Longrightarrow> d + 20 \<le> y \<Longrightarrow> y < d + 20 + u \<Longrightarrow>
      merge_next (W a) m (W y) = m (W y)"
proof -
  have "linked (merge_next (W a) m) 0 (l @ absorbed a s r) 0 \<and> tiled S (l @ absorbed a s r) E \<and>
    ((d, u, h) \<in> set (l @ (a, s, True) # r) \<and> d + 20 \<le> y \<and> y < d + 20 + u \<longrightarrow>
      merge_next (W a) m (W y) = m (W y))"
  proof (cases "headed_free r")
    case True
    then obtain b t r' where r: "r = (b, t, True) # r'"
      by (cases r) (auto simp: headed_free_def)
    show ?thesis
      using merge_linked [OF reg til [unfolded r] lnk [unfolded r]] tiled_merge [OF til [unfolded r]] True
      by (simp add: absorbed_def r) blast
  next
    case False
    then have "merge_next (W a) m = m"
      by (intro merge_next_id [OF lnk]) (auto simp: headed_free_def)
    then show ?thesis using False til lnk by (simp add: absorbed_def)
  qed
  then show "linked (merge_next (W a) m) 0 (l @ absorbed a s r) 0" "tiled S (l @ absorbed a s r) E"
    "(d, u, h) \<in> set (l @ (a, s, True) # r) \<Longrightarrow> d + 20 \<le> y \<Longrightarrow> y < d + 20 + u \<Longrightarrow>
      merge_next (W a) m (W y) = m (W y)"
    by blast+
qed

lemma used_absorbed: "(d, u, False) \<in> set r \<Longrightarrow> (d, u, False) \<in> set (absorbed a s r)"
  by (cases r) (auto simp: absorbed_def headed_free_def)

lemma coalesce_stop:
  assumes reg: "region S E" and til: "tiled S (l @ (a, s, True) # r) E"
    and lnk: "linked m 0 (l @ (a, s, True) # r) 0" and l: "\<not> ends_free l"
  shows "coalesce (W a) m = Some (merge_next (W a) m)"
proof -
  have L: "linked (merge_next (W a) m) 0 (l @ absorbed a s r) 0"
    by (rule merge_next_absorbs [OF reg til lnk])
  then have "prev_of (block_at (merge_next (W a) m) (W a)) = W (last_addr 0 l)"
    by (auto simp: linked_append absorbed_def split: if_splits)
  moreover have "\<not> free_of (block_at (merge_next (W a) m) (W (last_addr 0 l)))" if "l \<noteq> []"
  proof -
    from that obtain l' p u f where l': "l = l' @ [(p, u, f)]" by (metis prod_cases3 rev_exhaust)
    with l have "\<not> f" by (simp add: ends_free_def)
    with L show ?thesis by (simp add: l' linked_append last_addr_def)
  qed
  ultimately show ?thesis
    by (cases "l = []") (simp_all add: coalesce.simps [of "W a" m] Let_def last_addr_def)
qed

lemma coalesce_spec:
  assumes reg: "region S E" and til: "tiled S (l @ (a, s, True) # r) E"
    and lnk: "linked m 0 (l @ (a, s, True) # r) 0" and sep: "separated l" "separated r"
  shows "\<exists>m'. coalesce (W a) m = Some m' \<and> linked m' 0 (merge_free (l @ (a, s, True) # r)) 0 \<and>
    tiled S (merge_free (l @ (a, s, True) # r)) E \<and>
    (\<forall>d u y. (d, u, False) \<in> set (l @ r) \<and> d + 20 \<le> y \<and> y < d + 20 + u \<longrightarrow> m' (W y) = m (W y))"
proof (cases "ends_free l")
  case False
  have "merge_free (l @ (a, s, True) # r) = l @ absorbed a s r"
    using False sep by (simp add: merge_free_append merge_free_Cons_free absorbed_def)
  then show ?thesis
    using merge_next_absorbs [OF reg til lnk] coalesce_stop [OF reg til lnk False] by auto
next
  case True
  then obtain l' p u where l: "l = l' @ [(p, u, True)]"
    by (cases l rule: rev_cases) (auto simp: ends_free_def)
  then have l': "separated l'" "\<not> ends_free l'"
    using sep by (auto simp: separated_append headed_free_def)
  let ?m1 = "merge_next (W a) m" and ?r = "absorbed a s r"
  note M = merge_next_absorbs [OF reg til lnk]
  have til1: "tiled S (l' @ (p, u, True) # ?r) E" and lnk1: "linked ?m1 0 (l' @ (p, u, True) # ?r) 0"
    using M(1,2) by (auto simp: l)
  let ?m2 = "merge_next (W p) ?m1"
  have "0 < p" "p < 2 ^ 32" using reg tiled_mid(3,4) [OF til1] by (auto simp: region_def)
  then have "W p \<noteq> 0" using W_inj [of p 0] by simp
  moreover have "prev_of (block_at ?m1 (W a)) = W p" "free_of (block_at ?m1 (W p))"
    using M(1) by (auto simp: l linked_append last_addr_def absorbed_def split: if_splits)
  ultimately have "coalesce (W a) m = coalesce (W p) ?m1"
    by (subst coalesce.simps) (simp add: Let_def)
  also have "\<dots> = Some ?m2" by (rule coalesce_stop [OF reg til1 lnk1 l'(2)])
  finally have "coalesce (W a) m = Some ?m2" .
  moreover have "merge_free (l @ (a, s, True) # r) = l' @ absorbed p u ?r"
    using l' sep(2) by (auto simp: l merge_free_append merge_free_Cons_free absorbed_def headed_free_def)
  moreover have "?m2 (W y) = m (W y)" if "(d, v, False) \<in> set (l @ r)" "d + 20 \<le> y" "y < d + 20 + v" for d v y
  proof -
    have "(d, v, False) \<in> set (l' @ (p, u, True) # ?r)"
      using that(1) used_absorbed [of d v r a s] by (auto simp: l)
    then have "?m2 (W y) = ?m1 (W y)"
      using merge_next_absorbs(3) [OF reg til1 lnk1] that(2,3) by blast
    also have "\<dots> = m (W y)" using M(3) [of d v False y] that by auto
    finally show ?thesis .
  qed
  ultimately show ?thesis using merge_next_absorbs [OF reg til1 lnk1] by auto
qed

section \<open>The heap and its abstraction\<close>

definition heap_rep :: "heap \<Rightarrow> blk list \<Rightarrow> bool" where
  "heap_rep h bs \<longleftrightarrow> bs \<noteq> [] \<and> heap_head h = heap_start h \<and>
     region (unat (heap_start h)) (unat (heap_end h)) \<and>
     tiled (unat (heap_start h)) bs (unat (heap_end h)) \<and>
     linked (hmem h) 0 bs 0 \<and> separated bs"

definition keeps :: "blk list \<Rightarrow> mem \<Rightarrow> mem \<Rightarrow> bool" where
  "keeps bs m m' \<longleftrightarrow> (\<forall>d u y. (d, u, False) \<in> set bs \<and> d + 20 \<le> y \<and> y < d + 20 + u \<longrightarrow> m' (W y) = m (W y))"

lemma separated_carve: "separated (l @ (a, s, True) # r) \<Longrightarrow> separated (l @ carve a s n @ r)"
  by (auto simp: carve_def separated_append separated_Cons headed_free_def)

lemma tiled_carve: "tiled S (l @ (a, s, True) # r) E \<Longrightarrow> n \<le> s \<Longrightarrow> tiled S (l @ carve a s n @ r) E"
  by (auto simp: carve_def tiled_append add.assoc)

lemma headed_free_merge: "headed_free (merge_free bs) = headed_free bs"
  by (induction bs rule: merge_free.induct) (auto simp: headed_free_def)

lemma separated_merge: "separated (merge_free bs)"
proof (induction bs rule: merge_free.induct)
  case (1 a s f b t g bs)
  then show ?case
    using headed_free_merge [of "(b, t, g) # bs"] by (auto simp: separated_Cons headed_free_def)
qed auto

lemma merge_free_Nil [simp]: "merge_free bs = [] \<longleftrightarrow> bs = []"
  by (induction bs rule: merge_free.induct) auto

lemma mark_free_mid:
  assumes "tiled S (l @ (a, s, f) # r) E"
  shows "mark_free (a + 20) (l @ (a, s, f) # r) = l @ (a, s, True) # r"
proof -
  have "mark_free (a + 20) l = l" "mark_free (a + 20) r = r"
    using tiled_mid(5,6) [OF assms] by (fastforce simp: mark_free_def intro!: map_idI)+
  then show ?thesis by (simp add: mark_free_def)
qed

lemma kmalloc_list:
  assumes rep: "heap_rep h bs" and "sz \<noteq> 0"
  shows "first_fit (unat (align8 sz)) bs = None \<Longrightarrow> kmalloc sz h = Some (0, h)"
    and "first_fit (unat (align8 sz)) bs = Some (p, bs') \<Longrightarrow>
      \<exists>h'. kmalloc sz h = Some (W p, h') \<and> W p \<noteq> 0 \<and> heap_rep h' bs' \<and> keeps bs (hmem h) (hmem h')"
proof -
  let ?n = "align8 sz" and ?S = "unat (heap_start h)" and ?E = "unat (heap_end h)"
  have reg: "region ?S ?E" and til: "tiled ?S bs ?E" and lnk: "linked (hmem h) 0 bs 0"
    and bs: "bs \<noteq> []" "separated bs" "heap_head h = heap_start h"
    using rep by (auto simp: heap_rep_def)
  have "heap_head h = W (first_addr bs)" using tiled_first [OF til] bs by simp
  then have find: "find_block (hmem h) ?n (heap_head h) =
      Some (case find (\<lambda>(b, s, f). f \<and> unat ?n \<le> s) bs of None \<Rightarrow> 0 | Some (b, s, f) \<Rightarrow> W b)"
    using find_block_spec [OF lnk til] reg by (simp add: region_def)
  show "kmalloc sz h = Some (0, h)" if "first_fit (unat ?n) bs = None"
  proof (cases "find (\<lambda>(b, s, f). f \<and> unat ?n \<le> s) bs")
    case None
    then show ?thesis using find \<open>sz \<noteq> 0\<close> by (simp add: kmalloc_def)
  next
    case (Some x)
    then show ?thesis using that first_fit_some by (cases x) fastforce
  qed
  show "\<exists>h'. kmalloc sz h = Some (W p, h') \<and> W p \<noteq> 0 \<and> heap_rep h' bs' \<and> keeps bs (hmem h) (hmem h')"
    if ff: "first_fit (unat ?n) bs = Some (p, bs')"
  proof (cases "find (\<lambda>(b, s, f). f \<and> unat ?n \<le> s) bs")
    case None
    then show ?thesis using that first_fit_none by fastforce
  next
    case (Some x)
    obtain a s f where x: "x = (a, s, f)" by (cases x)
    obtain l r where lr: "bs = l @ (a, s, True) # r" "unat ?n \<le> s"
      and res: "first_fit (unat ?n) bs = Some (a + 20, l @ carve a s (unat ?n) @ r)"
      using first_fit_some Some x by blast
    let ?m1 = "set_free (W a) False (split_block (W a) ?n (hmem h))"
    note C = carve_linked [OF reg til [unfolded lr] lnk [unfolded lr] lr(2)]
    have ab: "0 < a" "a + 20 < 2 ^ 32" using tiled_mid(3,4) [OF til [unfolded lr(1)]] reg by (auto simp: region_def)
    then have "W a \<noteq> 0" "W (a + 20) \<noteq> 0" using W_inj [of a 0] W_inj [of "a + 20" 0] by auto
    then have "kmalloc sz h = Some (W p, h\<lparr>hmem := ?m1\<rparr>)" "W p \<noteq> 0"
      using find Some x \<open>sz \<noteq> 0\<close> ff res by (auto simp: kmalloc_def Let_def)
    moreover have "heap_rep (h\<lparr>hmem := ?m1\<rparr>) bs'"
      using rep C(1) ff res tiled_carve [OF til [unfolded lr(1)] lr(2)] separated_carve [of l a s r]
      by (auto simp: heap_rep_def lr(1) carve_def)
    moreover have "keeps bs (hmem h) ?m1" using C(2) by (auto simp: keeps_def lr(1))
    ultimately show ?thesis by auto
  qed
qed

lemma kfree_list:
  assumes rep: "heap_rep h bs" and used: "(a, s, False) \<in> set bs"
  shows "\<exists>h'. kfree (W (a + 20)) h = Some h' \<and> heap_rep h' (merge_free (mark_free (a + 20) bs)) \<and>
    keeps (filter (\<lambda>b. fst b \<noteq> a) bs) (hmem h) (hmem h')"
proof -
  let ?S = "unat (heap_start h)" and ?E = "unat (heap_end h)"
  have reg: "region ?S ?E" and til: "tiled ?S bs ?E" and lnk: "linked (hmem h) 0 bs 0"
    and bs: "bs \<noteq> []" "separated bs" "heap_head h = heap_start h"
    using rep by (auto simp: heap_rep_def)
  obtain l r where lr: "bs = l @ (a, s, False) # r" using used by (metis split_list)
  have E: "?E < 2 ^ 32" using reg by (simp add: region_def)
  note F = set_free_linked [OF til [unfolded lr] E lnk [unfolded lr]]
  let ?m0 = "set_free (W a) True (hmem h)"
  have til0: "tiled ?S (l @ (a, s, True) # r) ?E" using til by (auto simp: lr tiled_append)
  have sep: "separated l" "separated r" using bs by (simp_all add: lr separated_append separated_Cons)
  from coalesce_spec [OF reg til0 F(1) sep] obtain m' where
    m': "coalesce (W a) ?m0 = Some m'" "linked m' 0 (merge_free (l @ (a, s, True) # r)) 0"
      "tiled ?S (merge_free (l @ (a, s, True) # r)) ?E"
    and keep: "\<And>d u y. (d, u, False) \<in> set (l @ r) \<Longrightarrow> d + 20 \<le> y \<Longrightarrow> y < d + 20 + u \<Longrightarrow> m' (W y) = ?m0 (W y)"
    by blast
  have mark: "mark_free (a + 20) bs = l @ (a, s, True) # r"
    unfolding lr by (rule mark_free_mid [OF til [unfolded lr]])
  have "W (a + 20) \<noteq> 0"
    using tiled_mid(3,4) [OF til [unfolded lr]] E W_inj [of "a + 20" 0] by auto
  moreover have "W (a + 20) - HEADER = W a" by simp
  moreover have "magic_of (block_at (hmem h) (W a)) = HEAP_MAGIC" using lnk by (simp add: lr linked_append)
  ultimately have "kfree (W (a + 20)) h = Some (h\<lparr>hmem := m'\<rparr>)"
    using m'(1) by (simp add: kfree_def Let_def)
  moreover have "heap_rep (h\<lparr>hmem := m'\<rparr>) (merge_free (mark_free (a + 20) bs))"
    unfolding mark using rep m' separated_merge by (auto simp: heap_rep_def)
  moreover have "keeps (filter (\<lambda>b. fst b \<noteq> a) bs) (hmem h) m'"
    using keep F(2) by (fastforce simp: keeps_def lr)
  ultimately show ?thesis by auto
qed

section \<open>What clients hold\<close>

definition live_of :: "blk list \<Rightarrow> (nat \<times> nat) set" where
  "live_of bs = {(a + 20, s) | a s. (a, s, False) \<in> set bs}"

definition heap_holds :: "heap \<Rightarrow> (nat \<times> nat) set \<Rightarrow> bool" where
  "heap_holds h L \<longleftrightarrow> (\<exists>bs. heap_rep h bs \<and> L = live_of bs)"

definition same_payloads :: "(nat \<times> nat) set \<Rightarrow> mem \<Rightarrow> mem \<Rightarrow> bool" where
  "same_payloads L m m' \<longleftrightarrow> (\<forall>(p, u) \<in> L. \<forall>y. p \<le> y \<and> y < p + u \<longrightarrow> m' (W y) = m (W y))"

lemma live_ofI: "(a, s, False) \<in> set bs \<Longrightarrow> (a + 20, s) \<in> live_of bs"
  by (auto simp: live_of_def)

lemma live_ofD: "(p, u) \<in> live_of bs \<Longrightarrow> \<exists>a. p = a + 20 \<and> (a, u, False) \<in> set bs"
  by (auto simp: live_of_def)

lemma keeps_same: "keeps bs m m' \<longleftrightarrow> same_payloads (live_of bs) m m'"
  by (fastforce simp: keeps_def same_payloads_def live_of_def)

lemma live_of_Cons: "live_of ((a, s, f) # bs) = (if f then live_of bs else insert (a + 20, s) (live_of bs))"
  by (auto simp: live_of_def)

lemma live_of_append: "live_of (l @ r) = live_of l \<union> live_of r"
  by (auto simp: live_of_def)

lemma live_of_merge: "live_of (merge_free bs) = live_of bs"
  by (induction bs rule: merge_free.induct) (auto simp: live_of_Cons)

lemma live_of_tiled:
  assumes "tiled S bs E" and "(p, u) \<in> live_of bs"
  shows "S + 20 \<le> p" "p + u \<le> E"
  using live_ofD [OF assms(2)] tiled_mem [OF assms(1)] by fastforce+

lemma live_of_disj:
  assumes "tiled S bs E" and "(p, u) \<in> live_of bs" and "(q, v) \<in> live_of bs"
  shows "(p, u) = (q, v) \<or> p + u + 20 \<le> q \<or> q + v + 20 \<le> p"
proof -
  obtain a b where a: "p = a + 20" "(a, u, False) \<in> set bs" and b: "q = b + 20" "(b, v, False) \<in> set bs"
    using live_ofD assms(2,3) by meson
  show ?thesis using tiled_disj [OF assms(1) a(2) b(2)] a(1) b(1) by auto
qed

lemma live_of_free:
  assumes "tiled S bs E" and "(a, s, False) \<in> set bs"
  shows "live_of (merge_free (mark_free (a + 20) bs)) = live_of bs - {(a + 20, s)}"
proof -
  obtain l r where lr: "bs = l @ (a, s, False) # r" using assms(2) by (metis split_list)
  note mid = tiled_mid [OF assms(1) [unfolded lr]]
  have "(a + 20, s) \<notin> live_of l \<union> live_of r" using mid(5,6) by (fastforce simp: live_of_def)
  then show ?thesis
    using mark_free_mid [OF assms(1) [unfolded lr]]
    by (auto simp: live_of_merge live_of_append live_of_Cons lr)
qed

lemma first_fit_split:
  assumes "first_fit n bs = Some (p, bs')"
  obtains l r a s where "bs = l @ (a, s, True) # r" "n \<le> s" "p = a + 20" "bs' = l @ carve a s n @ r"
proof (cases "find (\<lambda>(b, s, f). f \<and> n \<le> s) bs")
  case None
  then show ?thesis using assms first_fit_none by fastforce
next
  case (Some x)
  obtain a s f where x: "x = (a, s, f)" by (cases x)
  show ?thesis
    by (rule first_fit_some [OF Some [unfolded x]]) (use assms that in auto)
qed

lemma live_of_carve: "live_of (l @ carve a s n @ r) =
    insert (a + 20, if s < n + 36 then s else n) (live_of (l @ (a, s, True) # r))"
  by (auto simp: carve_def live_of_append live_of_Cons) (auto simp: live_of_def)

lemma first_fit_live:
  assumes "first_fit n bs = Some (p, bs')"
  shows "\<exists>s \<ge> n. live_of bs' = insert (p, s) (live_of bs)"
proof -
  obtain l r a s where *: "bs = l @ (a, s, True) # r" "n \<le> s" "p = a + 20" "bs' = l @ carve a s n @ r"
    using first_fit_split [OF assms] .
  show ?thesis
    unfolding * live_of_carve using *(2) by (intro exI [of _ "if s < n + 36 then s else n"]) auto
qed

text \<open>Freeing what was just allocated restores the list of blocks.\<close>

lemma free_after_alloc:
  assumes "first_fit n bs = Some (p, bs')" and "tiled S bs E" and "separated bs"
  shows "merge_free (mark_free p bs') = bs"
proof -
  obtain l r a s where *: "bs = l @ (a, s, True) # r" "n \<le> s" "p = a + 20" "bs' = l @ carve a s n @ r"
    using first_fit_split [OF assms(1)] .
  have til: "tiled S (l @ carve a s n @ r) E" using tiled_carve assms(2) * by blast
  have sep: "separated l" "\<not> ends_free l" "separated r" "\<not> headed_free r"
    using assms(3) by (auto simp: *(1) separated_append separated_Cons headed_free_def)
  show ?thesis
  proof (cases "s < n + 36")
    case True
    then have "mark_free p bs' = bs"
      using mark_free_mid [of S l a s False r E] til by (simp add: * carve_def)
    then show ?thesis by (simp add: merge_free_id assms(3))
  next
    case False
    then have "mark_free p bs' = l @ (a, n, True) # (a + 20 + n, s - n - 20, True) # r"
      using mark_free_mid [of S l a n False] til by (simp add: * carve_def)
    then show ?thesis
      using False sep by (simp add: merge_free_append merge_free_Cons_free *(1))
  qed
qed

end
