(* ===== verification/Heap_Correct.thy ===== *)
theory Heap_Correct
  imports Heap
begin

text \<open>
  What the users of the kernel heap rely on: the contract of an allocator as a locale, that
  \<open>kmalloc\<close> and \<open>kfree\<close> meet it, and the properties of every heap a program can reach
  that writes only into blocks it holds and frees only those.
\<close>

section \<open>The contract of an allocator\<close>

locale allocator =
  fixes malloc :: "u32 \<Rightarrow> 'h \<Rightarrow> (u32 \<times> 'h) option"
    and dealloc :: "u32 \<Rightarrow> 'h \<Rightarrow> 'h option"
    and holds :: "'h \<Rightarrow> (nat \<times> nat) set \<Rightarrow> bool"
    and contents :: "'h \<Rightarrow> mem"
  assumes malloc_total: "holds h L \<Longrightarrow> \<exists>q h'. malloc n h = Some (q, h')"
    and malloc_null: "holds h L \<Longrightarrow> malloc n h = Some (0, h') \<Longrightarrow> h' = h"
    and malloc_new: "holds h L \<Longrightarrow> malloc n h = Some (q, h') \<Longrightarrow> q \<noteq> 0 \<Longrightarrow> n \<le> 0xFFFFFFF8 \<Longrightarrow>
      \<exists>s \<ge> unat n. holds h' (insert (unat q, s) L) \<and> (unat q, s) \<notin> L \<and>
        same_payloads L (contents h) (contents h')"
    and dealloc_held: "holds h L \<Longrightarrow> (p, u) \<in> L \<Longrightarrow>
      \<exists>h'. dealloc (W p) h = Some h' \<and> holds h' (L - {(p, u)}) \<and>
        same_payloads (L - {(p, u)}) (contents h) (contents h')"
    and holds_disjoint: "holds h L \<Longrightarrow> (p, u) \<in> L \<Longrightarrow> (p', v) \<in> L \<Longrightarrow>
      p + u < 2 ^ 32 \<and> ((p, u) = (p', v) \<or> p + u \<le> p' \<or> p' + v \<le> p)"
begin

lemma malloc_fits:
  assumes "holds h L" and "malloc n h = Some (q, h')" and "q \<noteq> 0" and "n \<le> 0xFFFFFFF8"
  shows "unat q + unat n < 2 ^ 32" and "\<forall>(p, u) \<in> L. unat q + unat n \<le> p \<or> p + u \<le> unat q"
proof -
  obtain s where s: "unat n \<le> s" "holds h' (insert (unat q, s) L)" "(unat q, s) \<notin> L"
    using malloc_new [OF assms] by blast
  show "unat q + unat n < 2 ^ 32"
    using holds_disjoint [OF s(2), of "unat q" s "unat q" s] s(1) by auto
  show "\<forall>(p, u) \<in> L. unat q + unat n \<le> p \<or> p + u \<le> unat q"
    using holds_disjoint [OF s(2), of "unat q" s] s(1,3) by fastforce
qed

lemma malloc_dealloc:
  assumes "holds h L" and "malloc n h = Some (q, h')" and "q \<noteq> 0" and "n \<le> 0xFFFFFFF8"
  shows "\<exists>h''. dealloc q h' = Some h'' \<and> holds h'' L \<and> same_payloads L (contents h) (contents h'')"
proof -
  obtain s where s: "holds h' (insert (unat q, s) L)" "(unat q, s) \<notin> L"
    "same_payloads L (contents h) (contents h')"
    using malloc_new [OF assms] by blast
  then obtain h'' where "dealloc q h' = Some h''" "holds h'' (insert (unat q, s) L - {(unat q, s)})"
    "same_payloads (insert (unat q, s) L - {(unat q, s)}) (contents h') (contents h'')"
    using dealloc_held [OF s(1), of "unat q" s] by auto
  then show ?thesis using s by (fastforce simp: same_payloads_def)
qed

end

section \<open>The kernel heap meets it\<close>

lemma align8_ge:
  assumes "n \<le> 0xFFFFFFF8"
  shows "unat n \<le> unat (align8 n)"
proof -
  have u: "unat (n + 7) = unat n + 7"
    using assms by (simp add: word_le_nat_alt unat_word_ariths)
  have "(7 :: u32) = mask 3" by (simp add: mask_eq_exp_minus_1)
  then have "unat (align8 n) = unat (n + 7) div 8 * 8"
    using unat_and_not_mask [of "n + 7" 3] by (simp add: align8_def)
  then show ?thesis using u by simp
qed

lemma heap_holds_tiled: "heap_rep h bs \<Longrightarrow> tiled (unat (heap_start h)) bs (unat (heap_end h))"
  by (simp add: heap_rep_def)

lemma kmalloc_0: "kmalloc 0 h = Some (0, h)"
  by (simp add: kmalloc_def)

lemma heap_malloc_total: "heap_holds h L \<Longrightarrow> \<exists>q h'. kmalloc n h = Some (q, h')"
  unfolding heap_holds_def
  by (metis kmalloc_0 kmalloc_list option.exhaust prod.exhaust)

lemma heap_malloc_null:
  assumes "heap_holds h L" and "kmalloc n h = Some (0, h')"
  shows "h' = h"
proof (cases "n = 0")
  case False
  obtain bs where "heap_rep h bs" using assms(1) by (auto simp: heap_holds_def)
  from kmalloc_list [OF this False] show ?thesis
    using assms(2) by (cases "first_fit (unat (align8 n)) bs") auto
qed (use assms kmalloc_0 in simp)

lemma heap_malloc_new:
  assumes "heap_holds h L" and "kmalloc n h = Some (q, h')" and "q \<noteq> 0" and "n \<le> 0xFFFFFFF8"
  shows "\<exists>s \<ge> unat n. heap_holds h' (insert (unat q, s) L) \<and> (unat q, s) \<notin> L \<and>
    same_payloads L (hmem h) (hmem h')"
proof -
  obtain bs where bs: "heap_rep h bs" "L = live_of bs" using assms(1) by (auto simp: heap_holds_def)
  have "n \<noteq> 0" using assms(2,3) kmalloc_0 by auto
  with kmalloc_list [OF bs(1) this] assms(2,3) obtain p bs' where
    ff: "first_fit (unat (align8 n)) bs = Some (p, bs')" and q: "q = W p" "heap_rep h' bs'"
    and keep: "keeps bs (hmem h) (hmem h')"
    by (cases "first_fit (unat (align8 n)) bs") force+
  obtain s where s: "unat (align8 n) \<le> s" "live_of bs' = insert (p, s) (live_of bs)"
    using first_fit_live [OF ff] by blast
  obtain l r a t where lr: "bs = l @ (a, t, True) # r" "p = a + 20"
    using first_fit_split [OF ff] .
  note mid = tiled_mid [OF heap_holds_tiled [OF bs(1), unfolded lr(1)]]
  have "p < 2 ^ 32" using mid(4) q(2) lr(2) u32_lt [of "heap_end h"] by simp
  then have uq: "unat q = p" by (simp add: q(1) unat_of_nat_u32)
  have "(p, s) \<notin> live_of bs" using mid(5,6) by (fastforce simp: lr live_of_def)
  moreover have "unat n \<le> s" using s(1) align8_ge [OF assms(4)] by simp
  ultimately show ?thesis
    using q(2) s(2) keep bs(2) uq by (auto simp: heap_holds_def keeps_same)
qed

lemma heap_free_held:
  assumes "heap_holds h L" and "(p, u) \<in> L"
  shows "\<exists>h'. kfree (W p) h = Some h' \<and> heap_holds h' (L - {(p, u)}) \<and>
    same_payloads (L - {(p, u)}) (hmem h) (hmem h')"
proof -
  obtain bs where bs: "heap_rep h bs" "L = live_of bs" using assms(1) by (auto simp: heap_holds_def)
  obtain a where a: "p = a + 20" "(a, u, False) \<in> set bs" using live_ofD assms(2) bs(2) by blast
  note til = heap_holds_tiled [OF bs(1)]
  have "live_of (filter (\<lambda>b. fst b \<noteq> a) bs) = L - {(p, u)}"
    using tiled_disj [OF til a(2)] by (auto simp: live_of_def bs(2) a(1)) fastforce+
  then show ?thesis
    using kfree_list [OF bs(1) a(2)] live_of_free [OF til a(2)] bs(2) a(1)
    by (auto simp: heap_holds_def keeps_same)
qed

lemma heap_disjoint:
  assumes "heap_holds h L" and "(p, u) \<in> L" and "(q, v) \<in> L"
  shows "p + u < 2 ^ 32 \<and> ((p, u) = (q, v) \<or> p + u \<le> q \<or> q + v \<le> p)"
proof -
  obtain bs where bs: "heap_rep h bs" "L = live_of bs" using assms(1) by (auto simp: heap_holds_def)
  note til = heap_holds_tiled [OF bs(1)]
  have "p + u < 2 ^ 32"
    using live_of_tiled(2) [OF til] assms(2) bs(2) u32_lt [of "heap_end h"] by fastforce
  then show ?thesis using live_of_disj [OF til] assms(2,3) bs(2) by fastforce
qed

interpretation kheap: allocator kmalloc kfree heap_holds hmem
  by unfold_locales
    (rule heap_malloc_total heap_malloc_null heap_malloc_new heap_free_held heap_disjoint; assumption)+

section \<open>Initialisation and accounting\<close>

definition heap_fits :: "u32 \<Rightarrow> bool" where
  "heap_fits kend \<longleftrightarrow> 0 < kend \<and> unat kend + 4095 + 8388608 < 2 ^ 32"

lemma heap_init_rep:
  assumes "heap_fits kend"
  shows "heap_rep (heap_init kend m) [(unat (align_up kend 4096), 8388588, True)]"
proof -
  let ?s = "align_up kend 4096"
  have a: "unat ?s = (unat kend + 4095) div 4096 * 4096"
    using unat_align_up [OF align_4096, of kend] assms by (simp add: heap_fits_def)
  moreover have "0 < unat kend" using assms by (simp add: heap_fits_def word_less_nat_alt)
  ultimately have "0 < unat ?s" "unat ?s + 8388608 < 2 ^ 32" using assms by (auto simp: heap_fits_def)
  moreover from this have "unat (?s + HEAP_SIZE) = unat ?s + 8388608" by (simp add: unat_word_ariths)
  ultimately show ?thesis
    by (simp add: heap_rep_def heap_init_def Let_def region_def)
qed

fun free_sum :: "blk list \<Rightarrow> nat" where
  "free_sum [] = 0"
| "free_sum ((a, s, f) # bs) = (if f then s else 0) + free_sum bs"

lemma free_bytes_from_spec:
  assumes "linked m p bs 0" and "tiled a bs e" and "0 < a" and "e < 2 ^ 32"
  shows "free_bytes_from m (W (first_addr bs)) acc = Some (acc + W (free_sum bs))"
  using assms
proof (induction bs arbitrary: p a acc)
  case Nil
  show ?case by (simp add: free_bytes_from.simps)
next
  case (Cons x bs)
  obtain b s f where x: "x = (b, s, f)" by (cases x)
  have "b + 20 + s \<le> e" and "0 < b" using Cons.prems tiled_le by (auto simp: x)
  then have "W b \<noteq> 0" using Cons.prems(4) W_inj [of b 0] by auto
  moreover have "block_at m (W b) = \<lparr>magic_of = HEAP_MAGIC, size_of = W s, free_of = f,
      next_of = W (first_addr bs), prev_of = W p\<rparr>"
    using Cons.prems(1) by (cases bs) (auto simp: x)
  moreover have "free_bytes_from m (W (first_addr bs)) acc' = Some (acc' + W (free_sum bs))" for acc'
    using Cons.prems by (intro Cons.IH [of b "b + 20 + s"]) (auto simp: x)
  ultimately show ?case by (simp add: x free_bytes_from.simps [of m "W b"])
qed

lemma heap_free_bytes_spec:
  assumes "heap_rep h bs"
  shows "heap_free_bytes h = Some (W (free_sum bs))"
proof -
  have "heap_head h = W (first_addr bs)"
    using assms tiled_first by (fastforce simp: heap_rep_def)
  then show ?thesis
    using assms free_bytes_from_spec [of "hmem h" 0 bs] by (auto simp: heap_rep_def region_def heap_free_bytes_def)
qed

section \<open>Writing into a block\<close>

lemma heap_write_rep:
  assumes bs: "heap_rep h bs" and a: "(a, u, False) \<in> set bs"
    and same: "\<And>x. x < 2 ^ 32 \<Longrightarrow> x < a + 20 \<or> a + 20 + u \<le> x \<Longrightarrow> m' (W x) = hmem h (W x)"
  shows "heap_rep (h\<lparr>hmem := m'\<rparr>) bs"
proof -
  note til = heap_holds_tiled [OF bs]
  have "block_at m' (W d) = block_at (hmem h) (W d)" if d: "(d, t, f) \<in> set bs" for d t f
  proof (rule block_at_cong, intro allI impI)
    fix i :: nat
    assume i: "i < 20"
    have "d + i < 2 ^ 32"
      using i tiled_mem [OF til d] u32_lt [of "heap_end h"] by simp
    moreover have "d + i < a + 20 \<or> a + 20 + u \<le> d + i"
      using i tiled_disj [OF til d a] by auto
    ultimately have "m' (W (d + i)) = hmem h (W (d + i))" by (rule same)
    then show "m' (W d + W i) = hmem h (W d + W i)" by simp
  qed
  then have "\<forall>b \<in> set bs. block_at m' (W (fst b)) = block_at (hmem h) (W (fst b))" by auto
  then show ?thesis using bs by (auto simp: heap_rep_def intro: linked_cong)
qed

lemma heap_write:
  assumes "heap_holds h L" and pu: "(p, u) \<in> L"
    and same: "\<And>x. x < 2 ^ 32 \<Longrightarrow> x < p \<or> p + u \<le> x \<Longrightarrow> m' (W x) = hmem h (W x)"
  shows "heap_holds (h\<lparr>hmem := m'\<rparr>) L"
proof -
  obtain bs where bs: "heap_rep h bs" "L = live_of bs" using assms(1) by (auto simp: heap_holds_def)
  obtain a where a: "p = a + 20" "(a, u, False) \<in> set bs" using live_ofD pu bs(2) by blast
  have "heap_rep (h\<lparr>hmem := m'\<rparr>) bs" using same a(1) by (intro heap_write_rep [OF bs(1) a(2)]) blast
  then show ?thesis using bs(2) by (auto simp: heap_holds_def)
qed

lemma same_payloadsD:
  "same_payloads L m m' \<Longrightarrow> (p, u) \<in> L \<Longrightarrow> p \<le> y \<Longrightarrow> y < p + u \<Longrightarrow> m' (W y) = m (W y)"
  by (auto simp: same_payloads_def)

lemma heap_live_pos: "heap_holds h L \<Longrightarrow> (p, u) \<in> L \<Longrightarrow> 0 < p"
  by (auto simp: heap_holds_def live_of_def)

lemma held_size:
  assumes "heap_holds h L" and "(p, u) \<in> L"
  shows "size_of (block_at (hmem h) (W p - HEADER)) = W u"
proof -
  obtain bs where bs: "heap_rep h bs" "L = live_of bs" using assms(1) by (auto simp: heap_holds_def)
  obtain a where a: "p = a + 20" "(a, u, False) \<in> set bs" using live_ofD assms(2) bs(2) by blast
  obtain l r where "bs = l @ (a, u, False) # r" using a(2) by (metis split_list)
  then show ?thesis using bs(1) a(1) by (simp add: heap_rep_def linked_append)
qed

lemma memcpy_nat:
  assumes "p + n \<le> q \<or> q + n \<le> p" and "p + n < 2 ^ 32" and "q + n < 2 ^ 32" and "x < 2 ^ 32"
  shows "memcpy m (W q) (W p) (W n) (W x) = (if q \<le> x \<and> x < q + n then m (W (p + (x - q))) else m (W x))"
proof -
  have u: "unat (W p) = p" "unat (W q) = q" "unat (W n) = n" using assms by (simp_all add: unat_of_nat_u32)
  have "n \<le> unat (W q - W p)"
    using assms u by (auto simp: unat_sub_if_size word_size)
  then have "memcpy m (W q) (W p) (W n) (W x) =
      (if in_range (W q) n (W x) then m (W p + (W x - W q)) else m (W x))"
    using memcpy_spec [of "W q" "W p" "W n" m "W x"] u by simp
  moreover have "in_range (W q) n (W x) \<longleftrightarrow> q \<le> x \<and> x < q + n"
    using assms by (intro in_range_nat) auto
  moreover have "W p + (W x - W q) = W (p + (x - q))" if "q \<le> x" using that by simp
  ultimately show ?thesis by (auto simp: add_diff_eq)
qed

section \<open>Properties\<close>

text \<open>C6. First fit: \<open>kmalloc\<close> always returns. It gives the first free block that is large
  enough, splits off what is left when that is worth a block, and marks nothing else; when no
  free block is large enough it returns NULL and changes nothing. The bytes of every block in
  use are kept.\<close>

theorem kmalloc_first_fit:
  assumes "heap_rep h bs" and "sz \<noteq> 0"
  shows "case first_fit (unat (align8 sz)) bs of
      None \<Rightarrow> kmalloc sz h = Some (0, h)
    | Some (p, bs') \<Rightarrow> \<exists>h'. kmalloc sz h = Some (W p, h') \<and> W p \<noteq> 0 \<and> heap_rep h' bs' \<and>
        keeps bs (hmem h) (hmem h')"
  using kmalloc_list [OF assms] by (auto split: option.split)

text \<open>C7. \<open>kfree\<close> of a block in use returns, marks it free and merges it with its free
  neighbours; the list stays well formed and no two free blocks touch. The bytes of the
  blocks still in use are kept.\<close>

theorem kfree_merges:
  assumes "heap_rep h bs" and "(a, s, False) \<in> set bs"
  shows "\<exists>h'. kfree (W (a + 20)) h = Some h' \<and> heap_rep h' (merge_free (mark_free (a + 20) bs)) \<and>
    keeps (filter (\<lambda>b. fst b \<noteq> a) bs) (hmem h) (hmem h')"
  by (rule kfree_list [OF assms])

text \<open>C8. Allocating and freeing at once is a round trip: the block list, the number of free
  bytes and the contents of all blocks in use are as before.\<close>

theorem kmalloc_kfree_roundtrip:
  assumes "heap_rep h bs" and "kmalloc sz h = Some (q, h')" and "q \<noteq> 0"
  shows "\<exists>h''. kfree q h' = Some h'' \<and> heap_rep h'' bs \<and> heap_free_bytes h'' = heap_free_bytes h \<and>
    keeps bs (hmem h) (hmem h'')"
proof -
  have "sz \<noteq> 0" using assms(2,3) kmalloc_0 by auto
  with kmalloc_list [OF assms(1) this] assms(2,3) obtain p bs' where
    ff: "first_fit (unat (align8 sz)) bs = Some (p, bs')" and q: "q = W p" "heap_rep h' bs'"
    and k1: "keeps bs (hmem h) (hmem h')"
    by (cases "first_fit (unat (align8 sz)) bs") force+
  obtain l r a t where lr: "bs = l @ (a, t, True) # r" "p = a + 20" "bs' = l @ carve a t (unat (align8 sz)) @ r"
    using first_fit_split [OF ff] .
  have "\<exists>s. (a, s, False) \<in> set bs'" unfolding lr(3) carve_def by auto
  then obtain s where used: "(a, s, False) \<in> set bs'" ..
  have til: "tiled (unat (heap_start h)) bs (unat (heap_end h))" and sep: "separated bs"
    using assms(1) by (auto simp: heap_rep_def)
  from kfree_list [OF q(2) used] obtain h'' where h'': "kfree q h' = Some h''" "heap_rep h'' bs"
    and k2: "keeps (filter (\<lambda>b. fst b \<noteq> a) bs') (hmem h') (hmem h'')"
    using free_after_alloc [OF ff til sep] lr(2) q(1) by auto
  have "(d, u, False) \<in> set (filter (\<lambda>b. fst b \<noteq> a) bs')" if "(d, u, False) \<in> set bs" for d u
    using that tiled_mid(5,6) [OF til [unfolded lr(1)]] by (fastforce simp: lr)
  then have "keeps bs (hmem h) (hmem h'')"
    unfolding keeps_def using k1 k2 by (intro allI impI) (metis keeps_def)
  then show ?thesis using h'' heap_free_bytes_spec assms(1) by auto
qed

lemma same_payloads_trans:
  "same_payloads L m m1 \<Longrightarrow> same_payloads L' m1 m2 \<Longrightarrow> L' \<subseteq> L \<Longrightarrow> same_payloads L' m m2"
  unfolding same_payloads_def by fastforce

text \<open>Copying a block into a larger new one and freeing the old one.\<close>

lemma move_block:
  assumes h1: "heap_holds h1 (insert (q, s) L)" and new: "(q, s) \<notin> L" and pu: "(p, u) \<in> L" and us: "u \<le> s"
  shows "\<exists>h3. kfree (W p) (h1\<lparr>hmem := memcpy (hmem h1) (W q) (W p) (W u)\<rparr>) = Some h3 \<and>
    heap_holds h3 (insert (q, s) (L - {(p, u)})) \<and>
    (\<forall>i < u. hmem h3 (W (q + i)) = hmem h1 (W (p + i))) \<and>
    same_payloads (L - {(p, u)}) (hmem h1) (hmem h3)"
proof -
  have qb: "q + s < 2 ^ 32" "p + u < 2 ^ 32" "p + u \<le> q \<or> q + s \<le> p"
    using kheap.holds_disjoint [OF h1, of q s p u] kheap.holds_disjoint [OF h1, of p u p u] pu new by auto
  define m2 where "m2 = memcpy (hmem h1) (W q) (W p) (W u)"
  have m2: "m2 (W x) = (if q \<le> x \<and> x < q + u then hmem h1 (W (p + (x - q))) else hmem h1 (W x))"
    if "x < 2 ^ 32" for x
    unfolding m2_def using qb us that by (intro memcpy_nat) auto
  have h2: "heap_holds (h1\<lparr>hmem := m2\<rparr>) (insert (q, s) L)"
    using m2 us by (intro heap_write [OF h1, of q s]) auto
  have eq: "insert (q, s) L - {(p, u)} = insert (q, s) (L - {(p, u)})" using pu new by auto
  obtain h3 where h3: "kfree (W p) (h1\<lparr>hmem := m2\<rparr>) = Some h3" "heap_holds h3 (insert (q, s) (L - {(p, u)}))"
    and k3: "same_payloads (insert (q, s) (L - {(p, u)})) m2 (hmem h3)"
    using kheap.dealloc_held [OF h2, of p u] pu eq by auto
  have "hmem h3 (W (q + i)) = hmem h1 (W (p + i))" if "i < u" for i
    using same_payloadsD [OF k3, of q s "q + i"] m2 [of "q + i"] that qb(1) us by simp
  moreover have "m2 (W y) = hmem h1 (W y)" if "(d, v) \<in> L - {(p, u)}" "d \<le> y" "y < d + v" for d v y
    using kheap.holds_disjoint [OF h1, of d v q s] that new us m2 [of y] by auto
  then have "same_payloads (L - {(p, u)}) (hmem h1) m2" by (auto simp: same_payloads_def)
  then have "same_payloads (L - {(p, u)}) (hmem h1) (hmem h3)"
    by (rule same_payloads_trans) (use k3 in \<open>simp_all add: same_payloads_def\<close>)
  ultimately show ?thesis using h3 by (auto simp: m2_def)
qed

text \<open>C9. Growing a block with \<open>krealloc\<close> returns; when it succeeds, the new block holds the
  old contents and is large enough, the old block is gone, and all other blocks keep their
  contents; when it fails, the heap is unchanged and the old block still held.\<close>

theorem krealloc_preserves:
  assumes "heap_holds h L" and pu: "(p, u) \<in> L" and grow: "u < unat sz" and sz: "sz \<le> 0xFFFFFFF8"
  shows "krealloc (W p) sz h = Some (0, h) \<or>
    (\<exists>q s h'. krealloc (W p) sz h = Some (W q, h') \<and> unat sz \<le> s \<and>
       heap_holds h' (insert (q, s) (L - {(p, u)})) \<and>
       (\<forall>i < u. hmem h' (W (q + i)) = hmem h (W (p + i))) \<and>
       same_payloads (L - {(p, u)}) (hmem h) (hmem h'))"
proof -
  have pb: "p + u < 2 ^ 32" "0 < p" using assms(1) pu heap_live_pos kheap.holds_disjoint by blast+
  have pn: "W p \<noteq> 0" using pb W_inj [of p 0] by simp
  have "sz \<noteq> 0" using grow by auto
  have uu: "unat (W u) = u" using pb by (simp add: unat_of_nat_u32)
  have small: "\<not> sz \<le> size_of (block_at (hmem h) (W p - HEADER))"
    using held_size [OF assms(1) pu] grow uu by (simp add: word_le_nat_alt)
  obtain q1 h1 where m: "kmalloc sz h = Some (q1, h1)" using kheap.malloc_total [OF assms(1)] by blast
  show ?thesis
  proof (cases "q1 = 0")
    case True
    then have "krealloc (W p) sz h = Some (0, h)"
      using m pn \<open>sz \<noteq> 0\<close> small kheap.malloc_null [OF assms(1)] by (auto simp: krealloc_def Let_def)
    then show ?thesis ..
  next
    case False
    define q where "q = unat q1"
    have q1: "q1 = W q" by (simp add: q_def)
    obtain s where s: "unat sz \<le> s" "heap_holds h1 (insert (q, s) L)" "(q, s) \<notin> L"
      and k1: "same_payloads L (hmem h) (hmem h1)"
      using kheap.malloc_new [OF assms(1) m False sz] by (auto simp: q_def)
    have size1: "size_of (block_at (hmem h1) (W p - HEADER)) = W u"
      using held_size [OF s(2)] pu by simp
    obtain h3 where h3: "kfree (W p) (h1\<lparr>hmem := memcpy (hmem h1) (W q) (W p) (W u)\<rparr>) = Some h3"
      "heap_holds h3 (insert (q, s) (L - {(p, u)}))" "\<forall>i < u. hmem h3 (W (q + i)) = hmem h1 (W (p + i))"
      and k3: "same_payloads (L - {(p, u)}) (hmem h1) (hmem h3)"
      using move_block [OF s(2,3) pu] grow s(1) by auto
    have "krealloc (W p) sz h = Some (W q, h3)"
      using m False pn \<open>sz \<noteq> 0\<close> small size1 h3(1) by (simp add: krealloc_def Let_def q1)
    moreover have "hmem h3 (W (q + i)) = hmem h (W (p + i))" if "i < u" for i
      using h3(3) that same_payloadsD [OF k1 pu, of "p + i"] by simp
    moreover have "same_payloads (L - {(p, u)}) (hmem h) (hmem h3)"
      using same_payloads_trans [OF k1 k3] by auto
    ultimately show ?thesis using h3(2) s(1) by auto
  qed
qed

section \<open>Every reachable heap\<close>

text \<open>Programs allocate, free blocks they hold, and write any byte of blocks they hold.\<close>

inductive heap_reach :: "heap \<Rightarrow> (nat \<times> nat) set \<Rightarrow> bool" where
  init: "heap_fits kend \<Longrightarrow> heap_reach (heap_init kend m) {}"
| alloc: "heap_reach h L \<Longrightarrow> kmalloc sz h = Some (q, h') \<Longrightarrow> q \<noteq> 0 \<Longrightarrow> sz \<le> 0xFFFFFFF8 \<Longrightarrow>
    heap_reach h' (insert (unat q, unat (size_of (block_at (hmem h') (q - HEADER)))) L)"
| free: "heap_reach h L \<Longrightarrow> (p, u) \<in> L \<Longrightarrow> kfree (W p) h = Some h' \<Longrightarrow> heap_reach h' (L - {(p, u)})"
| poke: "heap_reach h L \<Longrightarrow> (p, u) \<in> L \<Longrightarrow> p \<le> y \<Longrightarrow> y < p + u \<Longrightarrow>
    heap_reach (h\<lparr>hmem := (hmem h)(W y := v)\<rparr>) L"

lemma heap_reach_holds: "heap_reach h L \<Longrightarrow> heap_holds h L"
proof (induction rule: heap_reach.induct)
  case (init kend m)
  then show ?case using heap_init_rep by (fastforce simp: heap_holds_def live_of_def)
next
  case (alloc h L sz q h')
  from kheap.malloc_new [OF alloc.IH alloc.hyps(2-4)] obtain s where
    s: "heap_holds h' (insert (unat q, s) L)" by blast
  then have "size_of (block_at (hmem h') (q - HEADER)) = W s" "unat q + s < 2 ^ 32"
    using held_size [OF s, of "unat q" s] kheap.holds_disjoint [OF s, of "unat q" s "unat q" s] by auto
  then show ?case using s by (simp add: unat_of_nat_u32)
next
  case (free h L p u h')
  then show ?case using kheap.dealloc_held [OF free.IH, of p u] by auto
next
  case (poke h L p u y v)
  then have "y < 2 ^ 32" using kheap.holds_disjoint [OF poke.IH, of p u p u] by auto
  then show ?case
    using poke W_inj by (intro heap_write [OF poke.IH, of p u]) auto
qed

text \<open>C5. As long as programs free only blocks they hold and write only inside them, whatever
  they write there, the blocks they hold lie inside the heap, are pairwise disjoint with room
  for a header between them, and both operations always return.\<close>

theorem heap_reach_safe:
  assumes "heap_reach h L"
  shows "(\<forall>(p, u) \<in> L. unat (heap_start h) + 20 \<le> p \<and> p + u \<le> unat (heap_end h)) \<and>
    (\<forall>(p, u) \<in> L. \<forall>(q, v) \<in> L. (p, u) = (q, v) \<or> p + u + 20 \<le> q \<or> q + v + 20 \<le> p) \<and>
    (\<forall>sz. kmalloc sz h \<noteq> None) \<and> (\<forall>(p, u) \<in> L. kfree (W p) h \<noteq> None)"
proof -
  have hold: "heap_holds h L" using assms by (rule heap_reach_holds)
  then obtain bs where bs: "heap_rep h bs" "L = live_of bs" by (auto simp: heap_holds_def)
  note til = heap_holds_tiled [OF bs(1)]
  have "\<forall>(p, u) \<in> L. unat (heap_start h) + 20 \<le> p \<and> p + u \<le> unat (heap_end h)"
    using live_of_tiled [OF til] bs(2) by blast
  moreover have "\<forall>(p, u) \<in> L. \<forall>(q, v) \<in> L. (p, u) = (q, v) \<or> p + u + 20 \<le> q \<or> q + v + 20 \<le> p"
    using live_of_disj [OF til] bs(2) by blast
  moreover have "\<forall>sz. kmalloc sz h \<noteq> None" using kheap.malloc_total [OF hold] by fastforce
  moreover have "\<forall>(p, u) \<in> L. kfree (W p) h \<noteq> None" using kheap.dealloc_held [OF hold] by fastforce
  ultimately show ?thesis by blast
qed

section \<open>Witnesses\<close>

definition boot_heap :: heap where
  "boot_heap = heap_init 0x180000 (\<lambda>_. 0)"

lemma boot_heap_fits: "heap_fits 0x180000"
  by (simp add: heap_fits_def)

lemma boot_heap_rep: "heap_rep boot_heap [(0x180000, 8388588, True)]"
  using heap_init_rep [OF boot_heap_fits, of "\<lambda>_. 0"] by (simp add: boot_heap_def align_up_def)

lemma boot_heap_malloc:
  "\<exists>h'. kmalloc 100 boot_heap = Some (0x180014, h') \<and>
     heap_rep h' [(0x180000, 104, False), (0x18007C, 8388464, True)]"
  using kmalloc_list(2) [OF boot_heap_rep, of 100 "0x180014"
      "[(0x180000, 104, False), (0x18007C, 8388464, True)]"]
  by (auto simp: align8_def carve_def)

theorem kmalloc_first_fit_witness:
  "heap_rep boot_heap [(0x180000, 8388588, True)] \<and>
   (\<exists>h'. kmalloc 100 boot_heap = Some (0x180014, h') \<and>
     heap_rep h' [(0x180000, 104, False), (0x18007C, 8388464, True)])"
  using kmalloc_first_fit [OF boot_heap_rep, of 100] boot_heap_rep
  by (auto simp: align8_def carve_def)

theorem kfree_merges_witness:
  "\<exists>h h'. heap_rep h [(0x180000, 104, False), (0x18007C, 8388464, True)] \<and>
     kfree 0x180014 h = Some h' \<and> heap_rep h' [(0x180000, 8388588, True)]"
proof -
  obtain h where h: "heap_rep h [(0x180000, 104, False), (0x18007C, 8388464, True)]"
    using boot_heap_malloc by blast
  from kfree_merges [OF h, of "0x180000" 104] h show ?thesis by (auto simp: mark_free_def)
qed

theorem kmalloc_kfree_roundtrip_witness:
  "\<exists>h' h''. heap_rep boot_heap [(0x180000, 8388588, True)] \<and>
     kmalloc 100 boot_heap = Some (0x180014, h') \<and> kfree 0x180014 h' = Some h'' \<and>
     heap_free_bytes h'' = heap_free_bytes boot_heap"
proof -
  obtain h' where m: "kmalloc 100 boot_heap = Some (0x180014, h')"
    using boot_heap_malloc by blast
  from kmalloc_kfree_roundtrip [OF boot_heap_rep m] m boot_heap_rep show ?thesis by auto
qed

lemma boot_heap_held: "\<exists>h. heap_reach h {(0x180014, 104)}"
proof -
  obtain h' where m: "kmalloc 100 boot_heap = Some (0x180014, h')"
    and r: "heap_rep h' [(0x180000, 104, False), (0x18007C, 8388464, True)]"
    using boot_heap_malloc by blast
  have "heap_holds h' {(0x180014, 104)}"
    using r by (auto simp: heap_holds_def live_of_def intro!: exI [of _ "[(0x180000, 104, False), (0x18007C, 8388464, True)]"])
  from held_size [OF this, of "0x180014" 104]
  have "size_of (block_at (hmem h') (0x180014 - HEADER)) = 104" by simp
  moreover have "heap_reach boot_heap {}"
    unfolding boot_heap_def by (rule heap_reach.init [OF boot_heap_fits])
  ultimately have "heap_reach h' {(0x180014, 104)}"
    using heap_reach.alloc [OF _ m, of "{}"] by simp
  then show ?thesis ..
qed

theorem krealloc_preserves_witness:
  "\<exists>h. heap_holds h {(0x180014, 104)} \<and> krealloc 0x180014 200 h \<noteq> None"
proof -
  obtain h where "heap_reach h {(0x180014, 104)}" using boot_heap_held ..
  then have h: "heap_holds h {(0x180014, 104)}" by (rule heap_reach_holds)
  from krealloc_preserves [OF h, of "0x180014" 104 200] h show ?thesis by auto
qed

theorem heap_reach_safe_witness:
  "\<exists>h. heap_reach h {(0x180014, 104)} \<and> unat (heap_start h) \<le> 0x180000 \<and> kmalloc 8 h \<noteq> None"
proof -
  obtain h where h: "heap_reach h {(0x180014, 104)}" using boot_heap_held ..
  from heap_reach_safe [OF h] h show ?thesis by auto
qed

text \<open>The rounding of a request to a multiple of 8 wraps around: asking for the largest size
  there is yields an empty block instead of NULL.\<close>

theorem kmalloc_wraps: "\<exists>h'. kmalloc 0xFFFFFFFF boot_heap = Some (0x180014, h') \<and>
  heap_rep h' [(0x180000, 0, False), (0x180014, 8388568, True)]"
  using kmalloc_list(2) [OF boot_heap_rep, of "0xFFFFFFFF" "0x180014"
      "[(0x180000, 0, False), (0x180014, 8388568, True)]"]
  by (auto simp: align8_def carve_def)

end
