(* ===== verification/Task.thy ===== *)
theory Task
  imports Heap_Correct
begin

text \<open>
  Tasks and the round-robin scheduler, \<^verbatim>\<open>kernel/task.c\<close>,
  \<^verbatim>\<open>include/pureunix/task.h\<close> and \<^verbatim>\<open>arch/i386/context_switch.S\<close>. Task structures
  are records in a store indexed by their address; the kernel heap supplies the addresses and
  holds the stacks. All walks follow the circular list of tasks and return an option. A
  context switch saves and restores the processor's registers through the two stacks, byte
  by byte in the flat memory.
\<close>

section \<open>Data\<close>

datatype task_state = TASK_READY | TASK_RUNNING | TASK_SLEEPING | TASK_ZOMBIE

record fd_entry =
  fd_used :: bool
  fd_flags :: u32
  fd_path :: bytes
  fd_data :: "bytes option"
  fd_size :: u32
  fd_offset :: u32

record task =
  t_id :: u32
  t_name :: string
  t_state :: task_state
  stack_ptr :: u32
  stack_base :: u32
  t_entry :: u32
  t_arg :: u32
  t_next :: u32
  t_fds :: "fd_entry list"
  t_uid :: u32
  t_gid :: u32

record cpu =
  eip :: u32
  esp :: u32
  eflags :: u32
  eax :: u32
  ecx :: u32
  edx :: u32
  ebx :: u32
  ebp :: u32
  esi :: u32
  edi :: u32

record sched =
  tasks :: "u32 \<Rightarrow> task"
  main_task :: u32
  current :: u32
  task_list_head :: u32
  next_task_id :: u32
  kheap_of :: heap
  cpu_of :: cpu

definition fd_zero :: fd_entry where
  "fd_zero = \<lparr>fd_used = False, fd_flags = 0, fd_path = [], fd_data = None, fd_size = 0, fd_offset = 0\<rparr>"

definition task_zero :: task where
  "task_zero = \<lparr>t_id = 0, t_name = [], t_state = TASK_READY, stack_ptr = 0, stack_base = 0, t_entry = 0,
     t_arg = 0, t_next = 0, t_fds = replicate 16 fd_zero, t_uid = 0, t_gid = 0\<rparr>"

definition upd :: "u32 \<Rightarrow> (task \<Rightarrow> task) \<Rightarrow> sched \<Rightarrow> sched" where
  "upd p f s = s\<lparr>tasks := (tasks s)(p := f (tasks s p))\<rparr>"

definition reserve_stdio :: "task \<Rightarrow> task" where
  "reserve_stdio t = t\<lparr>t_fds := (t_fds t)[0 := (t_fds t ! 0)\<lparr>fd_used := True\<rparr>,
     1 := (t_fds t ! 1)\<lparr>fd_used := True\<rparr>, 2 := (t_fds t ! 2)\<lparr>fd_used := True\<rparr>]\<rparr>"

section \<open>The context switch\<close>

definition push_frame :: "cpu \<Rightarrow> u32 \<Rightarrow> u32 \<Rightarrow> mem \<Rightarrow> mem" where
  "push_frame c prev sp m =
     (let e = esp c;
          m = st32 m (e - 4) (eflags c);
          m = st32 m (e - 8) (prev + 40);
          m = st32 m (e - 12) (ecx c);
          m = st32 m (e - 16) sp;
          m = st32 m (e - 20) (ebx c);
          m = st32 m (e - 24) (e - 4);
          m = st32 m (e - 28) (ebp c);
          m = st32 m (e - 32) (esi c)
      in st32 m (e - 36) (edi c))"

definition pop_frame :: "u32 \<Rightarrow> mem \<Rightarrow> cpu" where
  "pop_frame sp m = \<lparr>eip = ld32 m (sp + 36), esp = sp + 40, eflags = ld32 m (sp + 32),
     eax = ld32 m (sp + 28), ecx = ld32 m (sp + 24), edx = ld32 m (sp + 20),
     ebx = ld32 m (sp + 16), ebp = ld32 m (sp + 8), esi = ld32 m (sp + 4), edi = ld32 m sp\<rparr>"

definition context_switch :: "u32 \<Rightarrow> u32 \<Rightarrow> sched \<Rightarrow> sched" where
  "context_switch prev sp s =
     (let m = push_frame (cpu_of s) prev sp (hmem (kheap_of s));
          s = upd prev (\<lambda>t. t\<lparr>stack_ptr := esp (cpu_of s) - 36\<rparr>) s
      in s\<lparr>kheap_of := (kheap_of s)\<lparr>hmem := m\<rparr>, cpu_of := pop_frame sp m\<rparr>)"

section \<open>Operations\<close>

definition tasking_init :: "sched \<Rightarrow> sched" where
  "tasking_init s =
     (let main = main_task s;
          t = task_zero\<lparr>t_id := next_task_id s, t_name := ''kernel'', t_state := TASK_RUNNING, t_next := main\<rparr>
      in s\<lparr>tasks := (tasks s)(main := (reserve_stdio t)\<lparr>t_uid := 0, t_gid := 0\<rparr>),
           next_task_id := next_task_id s + 1, current := main, task_list_head := main\<rparr>)"

partial_function (option) find_tail :: "(u32 \<Rightarrow> task) \<Rightarrow> u32 \<Rightarrow> u32 \<Rightarrow> u32 option" where
  "find_tail ts head tail =
     (if t_next (ts tail) \<noteq> head then find_tail ts head (t_next (ts tail)) else Some tail)"

definition build_frame :: "u32 \<Rightarrow> u32 \<Rightarrow> mem \<Rightarrow> mem" where
  "build_frame bootstrap stk m =
     (let m = st32 m (stk - 4) bootstrap;
          m = st32 m (stk - 8) 0x202;
          m = st32 m (stk - 12) 0; m = st32 m (stk - 16) 0;
          m = st32 m (stk - 20) 0; m = st32 m (stk - 24) 0;
          m = st32 m (stk - 28) 0; m = st32 m (stk - 32) 0;
          m = st32 m (stk - 36) 0
      in st32 m (stk - 40) 0)"

definition task_create :: "u32 \<Rightarrow> string option \<Rightarrow> u32 \<Rightarrow> u32 \<Rightarrow> sched \<Rightarrow> (u32 \<times> sched) option" where
  "task_create bootstrap name entry arg s =
     Option.bind (kcalloc 1 4484 (kheap_of s)) (\<lambda>(task, h).
       if task = 0 then Some (0, s\<lparr>kheap_of := h\<rparr>)
       else Option.bind (kmalloc 16384 h) (\<lambda>(stack, h).
         if stack = 0 then map_option (\<lambda>h. (0, s\<lparr>kheap_of := h\<rparr>)) (kfree task h)
         else
           let t = task_zero\<lparr>stack_base := stack, t_id := next_task_id s,
                     t_name := take 31 (case name of Some n \<Rightarrow> n | None \<Rightarrow> ''task''),
                     t_state := TASK_READY, t_entry := entry, t_arg := arg\<rparr>;
               t = reserve_stdio t;
               t = t\<lparr>t_uid := (if current s \<noteq> 0 then t_uid (tasks s (current s)) else 0),
                     t_gid := (if current s \<noteq> 0 then t_gid (tasks s (current s)) else 0)\<rparr>;
               stk = stack + 16384;
               h = h\<lparr>hmem := build_frame bootstrap stk (hmem h)\<rparr>;
               t = t\<lparr>stack_ptr := stk - 40\<rparr>;
               s = s\<lparr>kheap_of := h, next_task_id := next_task_id s + 1, tasks := (tasks s)(task := t)\<rparr>
           in map_option (\<lambda>tail.
                let s = upd tail (\<lambda>t. t\<lparr>t_next := task\<rparr>) s
                in (task, upd task (\<lambda>t. t\<lparr>t_next := task_list_head s\<rparr>) s))
              (find_tail (tasks s) (task_list_head s) (task_list_head s))))"

partial_function (option) ready_from :: "(u32 \<Rightarrow> task) \<Rightarrow> u32 \<Rightarrow> u32 \<Rightarrow> u32 option" where
  "ready_from ts cur candidate =
     (if candidate \<noteq> cur then
        (if t_state (ts candidate) = TASK_READY \<or> t_state (ts candidate) = TASK_RUNNING then Some candidate
         else ready_from ts cur (t_next (ts candidate)))
      else Some cur)"

definition next_ready_task :: "sched \<Rightarrow> u32 option" where
  "next_ready_task s = ready_from (tasks s) (current s) (t_next (tasks s (current s)))"

definition task_yield :: "sched \<Rightarrow> sched option" where
  "task_yield s =
     (let prev = current s in
      map_option (\<lambda>next.
        if next = prev then s
        else
          let s = (if t_state (tasks s prev) = TASK_RUNNING
                   then upd prev (\<lambda>t. t\<lparr>t_state := TASK_READY\<rparr>) s else s);
              s = upd next (\<lambda>t. t\<lparr>t_state := TASK_RUNNING\<rparr>) s;
              s = s\<lparr>current := next\<rparr>
          in context_switch prev (stack_ptr (tasks s next)) s)
      (next_ready_task s))"

definition task_exit :: "sched \<Rightarrow> sched option" where
  "task_exit s = task_yield (upd (current s) (\<lambda>t. t\<lparr>t_state := TASK_ZOMBIE\<rparr>) s)"

definition current_uid :: "sched \<Rightarrow> u32" where
  "current_uid s = (if current s \<noteq> 0 then t_uid (tasks s (current s)) else 0)"

definition current_gid :: "sched \<Rightarrow> u32" where
  "current_gid s = (if current s \<noteq> 0 then t_gid (tasks s (current s)) else 0)"

partial_function (option) list_from :: "(u32 \<Rightarrow> task) \<Rightarrow> u32 \<Rightarrow> u32 \<Rightarrow> u32 list option" where
  "list_from ts head task =
     (if t_next (ts task) \<noteq> 0 \<and> t_next (ts task) \<noteq> head
      then Option.bind (list_from ts head (t_next (ts task))) (\<lambda>rest. Some (task # rest))
      else Some [task])"

definition task_list :: "sched \<Rightarrow> u32 list option" where
  "task_list s = (if task_list_head s = 0 then Some [] else list_from (tasks s) (task_list_head s) (task_list_head s))"

partial_function (option) kill_from :: "sched \<Rightarrow> u32 \<Rightarrow> u32 \<Rightarrow> (bool \<times> sched) option" where
  "kill_from s tid task =
     (if t_id (tasks s task) = tid \<and> task \<noteq> main_task s
      then Some (True, upd task (\<lambda>t. t\<lparr>t_state := TASK_ZOMBIE\<rparr>) s)
      else if t_next (tasks s task) \<noteq> 0 \<and> t_next (tasks s task) \<noteq> task_list_head s
      then kill_from s tid (t_next (tasks s task))
      else Some (False, s))"

definition task_kill :: "u32 \<Rightarrow> sched \<Rightarrow> (int \<times> sched) option" where
  "task_kill tid s = map_option (\<lambda>(ok, s). (if ok then 0 else -1, s)) (kill_from s tid (task_list_head s))"

section \<open>The circular list\<close>

fun chain :: "(u32 \<Rightarrow> task) \<Rightarrow> u32 \<Rightarrow> u32 list \<Rightarrow> u32 \<Rightarrow> bool" where
  "chain ts c [] e \<longleftrightarrow> c = e"
| "chain ts c (y # ys) e \<longleftrightarrow> c = y \<and> chain ts (t_next (ts y)) ys e"

lemma chain_append: "chain ts c (xs @ ys) e \<longleftrightarrow> (\<exists>d. chain ts c xs d \<and> chain ts d ys e)"
  by (induction xs arbitrary: c) auto

lemma chain_cong:
  "\<forall>y \<in> set ys. t_next (ts' y) = t_next (ts y) \<Longrightarrow> chain ts' c ys e = chain ts c ys e"
  by (induction ys arbitrary: c) auto

lemma find_tail_spec:
  "chain ts c (c # ys) h \<Longrightarrow> h \<notin> set ys \<Longrightarrow> find_tail ts h c = Some (last (c # ys))"
proof (induction ys arbitrary: c)
  case Nil
  then show ?case by (subst find_tail.simps) simp
next
  case (Cons y ys)
  then show ?case by (subst find_tail.simps) auto
qed

lemma list_from_spec:
  "chain ts c (c # ys) h \<Longrightarrow> h \<notin> set ys \<Longrightarrow> 0 \<notin> set ys \<Longrightarrow> list_from ts h c = Some (c # ys)"
proof (induction ys arbitrary: c)
  case Nil
  then show ?case by (subst list_from.simps) simp
next
  case (Cons y ys)
  then show ?case by (subst list_from.simps) auto
qed

definition runnable :: "(u32 \<Rightarrow> task) \<Rightarrow> u32 \<Rightarrow> bool" where
  "runnable ts t \<longleftrightarrow> t_state (ts t) = TASK_READY \<or> t_state (ts t) = TASK_RUNNING"

lemma ready_from_spec:
  "chain ts c ys cur \<Longrightarrow> cur \<notin> set ys \<Longrightarrow>
    ready_from ts cur c = Some (case find (runnable ts) ys of None \<Rightarrow> cur | Some t \<Rightarrow> t)"
proof (induction ys arbitrary: c)
  case Nil
  then show ?case by (subst ready_from.simps) simp
next
  case (Cons y ys)
  then show ?case by (subst ready_from.simps) (auto simp: runnable_def [of ts y])
qed

lemma kill_from_spec:
  "chain (tasks s) c (c # ys) (task_list_head s) \<Longrightarrow> task_list_head s \<notin> set ys \<Longrightarrow> 0 \<notin> set ys \<Longrightarrow>
    kill_from s tid c = Some (case find (\<lambda>t. t_id (tasks s t) = tid \<and> t \<noteq> main_task s) (c # ys) of
      None \<Rightarrow> (False, s) | Some t \<Rightarrow> (True, upd t (\<lambda>t. t\<lparr>t_state := TASK_ZOMBIE\<rparr>) s))"
proof (induction ys arbitrary: c)
  case Nil
  then show ?case by (subst kill_from.simps) auto
next
  case (Cons y ys)
  then show ?case by (subst kill_from.simps) auto
qed

definition ring :: "sched \<Rightarrow> u32 list \<Rightarrow> bool" where
  "ring s xs \<longleftrightarrow> xs \<noteq> [] \<and> distinct xs \<and> 0 \<notin> set xs \<and> current s \<in> set xs \<and> main_task s \<in> set xs \<and>
     chain (tasks s) (task_list_head s) xs (task_list_head s)"

lemma ring_rotate:
  assumes "ring s (l @ c # r)"
  shows "chain (tasks s) (t_next (tasks s c)) (r @ l) c" and "c \<notin> set (r @ l)" and "distinct (r @ l)"
proof -
  have ch: "chain (tasks s) (task_list_head s) (l @ c # r) (task_list_head s)"
    and d: "distinct (l @ c # r)" using assms by (simp_all add: ring_def)
  then have "chain (tasks s) (task_list_head s) l c"
    and "chain (tasks s) (t_next (tasks s c)) r (task_list_head s)"
    by (auto simp: chain_append)
  then show "chain (tasks s) (t_next (tasks s c)) (r @ l) c" by (auto simp: chain_append)
  show "c \<notin> set (r @ l)" "distinct (r @ l)" using d by auto
qed

lemma next_ready_task_spec:
  assumes "ring s (l @ current s # r)"
  shows "next_ready_task s = Some (case find (runnable (tasks s)) (r @ l) of None \<Rightarrow> current s | Some t \<Rightarrow> t)"
  unfolding next_ready_task_def by (rule ready_from_spec [OF ring_rotate(1,2) [OF assms]])

section \<open>The scheduler's invariant\<close>

definition sched_ok :: "sched \<Rightarrow> u32 list \<Rightarrow> bool" where
  "sched_ok s xs \<longleftrightarrow> ring s xs \<and>
     (\<forall>t \<in> set xs. t \<noteq> current s \<longrightarrow> t_state (tasks s t) \<noteq> TASK_RUNNING) \<and>
     t_state (tasks s (current s)) \<in> {TASK_RUNNING, TASK_ZOMBIE} \<and>
     inj_on (\<lambda>t. t_id (tasks s t)) (set xs) \<and>
     (\<forall>t \<in> set xs. t_id (tasks s t) < next_task_id s \<and> length (t_fds (tasks s t)) = 16)"

lemma find_ready:
  assumes "sched_ok s (l @ current s # r)"
  shows "find (runnable (tasks s)) (r @ l) = find (\<lambda>t. t_state (tasks s t) = TASK_READY) (r @ l)"
proof (rule find_cong [OF refl])
  fix t
  assume "t \<in> set (r @ l)"
  moreover from this have "t \<noteq> current s" using assms ring_rotate(2) by (auto simp: sched_ok_def)
  ultimately show "runnable (tasks s) t \<longleftrightarrow> t_state (tasks s t) = TASK_READY"
    using assms by (auto simp: sched_ok_def runnable_def)
qed

lemma context_switch_frame [simp]:
  "tasks (context_switch prev sp s) = (tasks s)(prev := (tasks s prev)\<lparr>stack_ptr := esp (cpu_of s) - 36\<rparr>)"
  "current (context_switch prev sp s) = current s"
  "main_task (context_switch prev sp s) = main_task s"
  "task_list_head (context_switch prev sp s) = task_list_head s"
  "next_task_id (context_switch prev sp s) = next_task_id s"
  by (simp_all add: context_switch_def Let_def upd_def)

lemma upd_frame [simp]:
  "tasks (upd p f s) = (tasks s)(p := f (tasks s p))" "current (upd p f s) = current s"
  "main_task (upd p f s) = main_task s" "task_list_head (upd p f s) = task_list_head s"
  "next_task_id (upd p f s) = next_task_id s" "kheap_of (upd p f s) = kheap_of s" "cpu_of (upd p f s) = cpu_of s"
  by (simp_all add: upd_def)

lemma ring_cong:
  assumes "ring s xs" and "\<forall>t \<in> set xs. t_next (tasks s' t) = t_next (tasks s t)"
    and "current s' \<in> set xs" and "main_task s' = main_task s" and "task_list_head s' = task_list_head s"
  shows "ring s' xs"
  using assms chain_cong [of xs "tasks s'" "tasks s"] by (simp add: ring_def)

lemma task_yield_spec:
  assumes ok: "sched_ok s xs" and xs: "xs = l @ current s # r"
  shows "\<exists>s'. task_yield s = Some s' \<and> sched_ok s' xs \<and>
    current s' = (case find (\<lambda>t. t_state (tasks s t) = TASK_READY) (r @ l) of None \<Rightarrow> current s | Some t \<Rightarrow> t) \<and>
    (\<forall>t. t \<noteq> current s \<and> t \<noteq> current s' \<longrightarrow> tasks s' t = tasks s t) \<and>
    (current s' \<noteq> current s \<longrightarrow> t_state (tasks s' (current s')) = TASK_RUNNING \<and> t_state (tasks s' (current s)) =
      (if t_state (tasks s (current s)) = TASK_RUNNING then TASK_READY else t_state (tasks s (current s))))"
proof (cases "find (\<lambda>t. t_state (tasks s t) = TASK_READY) (r @ l)")
  case None
  then have "next_ready_task s = Some (current s)"
    using ok xs next_ready_task_spec [of s l r] find_ready [of s l r] by (simp add: sched_ok_def)
  then have "task_yield s = Some s" by (simp add: task_yield_def)
  then show ?thesis using None ok by simp
next
  case (Some t)
  then have t: "t \<in> set (r @ l)" "t_state (tasks s t) = TASK_READY"
    using find_SomeD by fastforce+
  have ring: "ring s (l @ current s # r)" using ok xs by (simp add: sched_ok_def)
  then have ne: "t \<noteq> current s" using t(1) ring_rotate(2) by blast
  have nx: "next_ready_task s = Some t"
    using ok xs next_ready_task_spec [of s l r] find_ready [of s l r] Some by (simp add: sched_ok_def)
  then obtain s' where s': "task_yield s = Some s'" by (auto simp: task_yield_def Let_def)
  define st where "st = (if t_state (tasks s (current s)) = TASK_RUNNING then TASK_READY
    else t_state (tasks s (current s)))"
  have ts: "tasks s' = (tasks s)(current s := (tasks s (current s))\<lparr>t_state := st, stack_ptr := esp (cpu_of s) - 36\<rparr>,
      t := (tasks s t)\<lparr>t_state := TASK_RUNNING\<rparr>)"
    and fr: "current s' = t" "main_task s' = main_task s" "task_list_head s' = task_list_head s"
      "next_task_id s' = next_task_id s"
    using s' nx ne by (auto simp: task_yield_def Let_def st_def fun_eq_iff split: if_splits)
  have "t \<in> set xs" using t(1) xs by auto
  have nxt: "t_next (tasks s' y) = t_next (tasks s y)" for y by (simp add: ts)
  have "ring s xs" using ok by (simp add: sched_ok_def)
  then have "ring s' xs"
    by (rule ring_cong) (use nxt fr \<open>t \<in> set xs\<close> in simp_all)
  moreover have "inj_on (\<lambda>t. t_id (tasks s' t)) (set xs) = inj_on (\<lambda>t. t_id (tasks s t)) (set xs)"
    by (intro inj_on_cong) (simp add: ts)
  moreover have "st \<noteq> TASK_RUNNING" by (simp add: st_def)
  ultimately have "sched_ok s' xs"
    using ok ne by (auto simp: sched_ok_def ts fr)
  then show ?thesis using s' Some ne by (auto simp: ts fr st_def)
qed

section \<open>Fairness\<close>

fun yields :: "nat \<Rightarrow> sched \<Rightarrow> sched option" where
  "yields 0 s = Some s"
| "yields (Suc n) s = Option.bind (task_yield s) (yields n)"

lemma rotate_split:
  assumes "r @ l = a @ u # b"
  shows "\<exists>l' r'. l @ c # r = l' @ u # r' \<and> r' @ l' = b @ c # a"
proof -
  consider (in_r) b' where "r = a @ u # b'" "b = b' @ l" | (in_l) a' where "a = r @ a'" "l = a' @ u # b"
    using assms by (auto simp: append_eq_append_conv2 append_eq_Cons_conv Cons_eq_append_conv)
  then show ?thesis
  proof cases
    case in_r
    then show ?thesis by (intro exI [of _ "l @ c # a"] exI [of _ b']) simp
  next
    case in_l
    then show ?thesis by (intro exI [of _ a'] exI [of _ "b @ c # r"]) simp
  qed
qed

lemma yields_reach:
  "sched_ok s xs \<Longrightarrow> xs = l @ current s # r \<Longrightarrow> r @ l = a @ t # b \<Longrightarrow> t_state (tasks s t) = TASK_READY \<Longrightarrow>
    \<exists>k \<le> Suc (length a). \<exists>s'. yields k s = Some s' \<and> sched_ok s' xs \<and> current s' = t \<and>
      t_state (tasks s' t) = TASK_RUNNING"
proof (induction "length a" arbitrary: s l r a b rule: less_induct)
  case less
  let ?P = "\<lambda>t. t_state (tasks s t) = TASK_READY"
  obtain s1 where s1: "task_yield s = Some s1" "sched_ok s1 xs"
    "current s1 = (case find ?P (r @ l) of None \<Rightarrow> current s | Some t \<Rightarrow> t)"
    and same: "\<forall>t. t \<noteq> current s \<and> t \<noteq> current s1 \<longrightarrow> tasks s1 t = tasks s t"
    and run: "current s1 \<noteq> current s \<Longrightarrow> t_state (tasks s1 (current s1)) = TASK_RUNNING"
    using task_yield_spec [OF less.prems(1,2)] by blast
  have rot: "current s \<notin> set (r @ l)" "distinct (r @ l)"
    using ring_rotate(2,3) [of s l "current s" r] less.prems(1,2) by (simp_all add: sched_ok_def)
  show ?case
  proof (cases "find ?P a")
    case None
    then have cur: "current s1 = t" using s1(3) less.prems(3,4) by (simp add: find_append)
    have "t \<noteq> current s" using rot less.prems(3) by auto
    then have "t_state (tasks s1 t) = TASK_RUNNING" using run cur by simp
    then show ?thesis using s1 cur by (intro exI [of _ 1]) auto
  next
    case (Some u)
    then have u: "u \<in> set a" and cur: "current s1 = u"
      using s1(3) less.prems(3) find_SomeD by (fastforce simp: find_append)+
    then obtain a1 a2 where a: "a = a1 @ u # a2" by (metis split_list)
    obtain l' r' where lr: "xs = l' @ current s1 # r'" "r' @ l' = a2 @ t # (b @ current s # a1)"
      using rotate_split [of r l a1 u "a2 @ t # b" "current s"] less.prems(2,3) by (auto simp: a cur)
    have "t \<noteq> u" "t \<noteq> current s" using rot less.prems(3) u by auto
    then have "t_state (tasks s1 t) = TASK_READY" using same less.prems(4) cur by simp
    from less.hyps [OF _ s1(2) lr this] obtain k s' where "k \<le> Suc (length a2)" "yields k s1 = Some s'"
      "sched_ok s' xs" "current s' = t" "t_state (tasks s' t) = TASK_RUNNING"
      by (auto simp: a)
    then show ?thesis using s1(1) by (intro exI [of _ "Suc k"]) (auto simp: a)
  qed
qed

end
