(* ===== verification/Task_Correct.thy ===== *)
theory Task_Correct
  imports Task
begin

text \<open>
  The properties of tasks: a context switch saves what the next switch back restores, a new
  task starts in its bootstrap routine, creating a task keeps the circular list and the heap
  well formed, scheduling is round robin and fair, and the first task cannot be killed.
\<close>

section \<open>Saving and restoring registers\<close>

lemma push_frame_fields:
  "ld32 (push_frame c prev sp m) (esp c) = ld32 m (esp c)"
  "ld32 (push_frame c prev sp m) (esp c - 4) = eflags c"
  "ld32 (push_frame c prev sp m) (esp c - 12) = ecx c"
  "ld32 (push_frame c prev sp m) (esp c - 20) = ebx c"
  "ld32 (push_frame c prev sp m) (esp c - 28) = ebp c"
  "ld32 (push_frame c prev sp m) (esp c - 32) = esi c"
  "ld32 (push_frame c prev sp m) (esp c - 36) = edi c"
  by (simp_all add: push_frame_def Let_def ld32_st32_other)

lemma st32_outside:
  assumes "\<forall>i < n. x \<noteq> b + W i" and "k + 4 \<le> n"
  shows "st32 m (b + W k) v x = m x"
proof -
  have "x \<noteq> b + W (k + j)" if "j < 4" for j
    using assms that by (auto simp del: of_nat_add)
  from this [of 0] this [of 1] this [of 2] this [of 3] show ?thesis
    by (intro st32_other) (simp_all add: ac_simps)
qed

lemma push_frame_other:
  assumes "\<forall>i < 36. x \<noteq> esp c - 36 + W i"
  shows "push_frame c prev sp m x = m x"
proof -
  note o = st32_outside [OF assms]
  show ?thesis
    using o [of 0] o [of 4] o [of 8] o [of 12] o [of 16] o [of 20] o [of 24] o [of 28] o [of 32]
    by (simp add: push_frame_def Let_def)
qed

definition clear_of :: "u32 \<Rightarrow> nat \<Rightarrow> u32 \<Rightarrow> nat \<Rightarrow> bool" where
  "clear_of a n b k \<longleftrightarrow> (\<forall>i < n. \<forall>j < k. a + W i \<noteq> b + W j)"

lemma pop_frame_cong:
  assumes "\<forall>i < 40. m' (sp + W i) = m (sp + W i)"
  shows "pop_frame sp m' = pop_frame sp m"
proof -
  have *: "ld32 m' (sp + W k) = ld32 m (sp + W k)" if "k + 4 \<le> 40" for k
  proof -
    have "m' (sp + W (k + j)) = m (sp + W (k + j))" if "j < 4" for j
      using assms \<open>k + 4 \<le> 40\<close> that by (auto simp del: of_nat_add)
    from this [of 0] this [of 1] this [of 2] this [of 3] show ?thesis
      by (intro ld32_cong) (simp_all add: ac_simps)
  qed
  from * [of 0] * [of 4] * [of 8] * [of 16] * [of 20] * [of 24] * [of 28] * [of 32] * [of 36]
  show ?thesis by (simp add: pop_frame_def)
qed

lemma context_switch_cpu:
  "cpu_of (context_switch prev sp s) = pop_frame sp (push_frame (cpu_of s) prev sp (hmem (kheap_of s)))"
  by (simp add: context_switch_def Let_def)

text \<open>C10. A task that is switched away from and later switched back to finds its registers as
  they were: execution continues at the return address on its stack, with its stack pointer,
  flags and the registers a C function may rely on restored, as long as nobody wrote to the
  part of its stack that holds them.\<close>

theorem context_switch_roundtrip:
  assumes s1: "s1 = context_switch prev sp s" and e: "e = esp (cpu_of s)"
    and stack: "\<forall>i < 40. hmem (kheap_of s2) (e - 36 + W i) = hmem (kheap_of s1) (e - 36 + W i)"
    and clear: "clear_of (e - 36) 40 (esp (cpu_of s2) - 36) 36"
  shows "stack_ptr (tasks s1 prev) = e - 36 \<and>
    (let c = cpu_of (context_switch prev2 (stack_ptr (tasks s1 prev)) s2) in
     eip c = ld32 (hmem (kheap_of s)) e \<and> esp c = e + 4 \<and> eflags c = eflags (cpu_of s) \<and>
     ebx c = ebx (cpu_of s) \<and> ebp c = ebp (cpu_of s) \<and> esi c = esi (cpu_of s) \<and> edi c = edi (cpu_of s))"
proof -
  let ?m1 = "push_frame (cpu_of s) prev sp (hmem (kheap_of s))"
  have sp: "stack_ptr (tasks s1 prev) = e - 36" by (simp add: s1 e)
  have "push_frame (cpu_of s2) prev2 (e - 36) (hmem (kheap_of s2)) (e - 36 + W i) = ?m1 (e - 36 + W i)"
    if "i < 40" for i
  proof -
    have "\<forall>j < 36. e - 36 + W i \<noteq> esp (cpu_of s2) - 36 + W j"
      using clear that by (simp add: clear_of_def)
    then show ?thesis
      using stack that by (simp add: push_frame_other s1 context_switch_def Let_def)
  qed
  then have "cpu_of (context_switch prev2 (e - 36) s2) = pop_frame (e - 36) ?m1"
    unfolding context_switch_cpu by (intro pop_frame_cong) blast
  then show ?thesis
    using push_frame_fields [of "cpu_of s" prev sp "hmem (kheap_of s)"] sp e
    by (simp add: pop_frame_def Let_def)
qed

lemma build_frame_fields:
  "pop_frame (stk - 40) (build_frame bootstrap stk m) =
    \<lparr>eip = bootstrap, esp = stk, eflags = 0x202, eax = 0, ecx = 0, edx = 0, ebx = 0, ebp = 0, esi = 0, edi = 0\<rparr>"
  by (simp add: pop_frame_def build_frame_def Let_def ld32_st32_other)

lemma build_frame_other:
  assumes "\<forall>i < 40. x \<noteq> stk - 40 + W i"
  shows "build_frame bootstrap stk m x = m x"
proof -
  note o = st32_outside [OF assms]
  show ?thesis
    using o [of 0] o [of 4] o [of 8] o [of 12] o [of 16] o [of 20] o [of 24] o [of 28] o [of 32] o [of 36]
    by (simp add: build_frame_def Let_def)
qed

section \<open>Creating a task\<close>

lemma kmalloc_bounds: "kmalloc n h = Some (q, h') \<Longrightarrow> heap_start h' = heap_start h \<and> heap_end h' = heap_end h"
  by (auto simp: kmalloc_def Let_def bind_eq_Some_conv split: if_splits)

lemma kcalloc_bounds: "kcalloc c n h = Some (q, h') \<Longrightarrow> heap_start h' = heap_start h \<and> heap_end h' = heap_end h"
  by (auto simp: kcalloc_def Let_def bind_eq_Some_conv dest: kmalloc_bounds split: if_splits)

lemma kfree_bounds: "kfree p h = Some h' \<Longrightarrow> heap_start h' = heap_start h \<and> heap_end h' = heap_end h"
  by (auto simp: kfree_def Let_def split: if_splits)

lemma held_in_heap:
  assumes "heap_holds h L" and "(p, u) \<in> L"
  shows "unat (heap_start h) + 20 \<le> p" and "p + u \<le> unat (heap_end h)"
proof -
  obtain bs where "heap_rep h bs" "L = live_of bs" using assms(1) by (auto simp: heap_holds_def)
  then show "unat (heap_start h) + 20 \<le> p" "p + u \<le> unat (heap_end h)"
    using live_of_tiled [OF heap_holds_tiled] assms(2) by blast+
qed

lemma kcalloc_held:
  assumes "heap_holds h L" and n: "n \<le> 0xFFFFFFF8"
  shows "\<exists>q h'. kcalloc 1 n h = Some (q, h') \<and> (q = 0 \<and> h' = h \<or>
    q \<noteq> 0 \<and> (\<exists>u \<ge> unat n. heap_holds h' (insert (unat q, u) L) \<and> (unat q, u) \<notin> L))"
proof -
  obtain q h1 where m: "kmalloc n h = Some (q, h1)" using kheap.malloc_total [OF assms(1)] by blast
  show ?thesis
  proof (cases "q = 0")
    case True
    then show ?thesis using m kheap.malloc_null [OF assms(1)] by (auto simp: kcalloc_def)
  next
    case False
    obtain u where u: "unat n \<le> u" "heap_holds h1 (insert (unat q, u) L)" "(unat q, u) \<notin> L"
      using kheap.malloc_new [OF assms(1) m False n] by blast
    have b: "unat q + u < 2 ^ 32" using kheap.holds_disjoint [OF u(2), of "unat q" u "unat q" u] by simp
    have "heap_holds (h1\<lparr>hmem := memset (hmem h1) q 0 n\<rparr>) (insert (unat q, u) L)"
    proof (rule heap_write [OF u(2), of "unat q" u])
      fix x
      assume x: "x < 2 ^ 32" "x < unat q \<or> unat q + u \<le> x"
      then have "\<not> in_range (W (unat q)) (unat n) (W x)"
        using in_range_nat [of "unat q" "unat n" x] b u(1) by auto
      then show "memset (hmem h1) q 0 n (W x) = hmem h1 (W x)" by (simp add: memset_spec)
    qed simp
    then show ?thesis using m False u by (auto simp: kcalloc_def)
  qed
qed

definition sched_inv :: "sched \<Rightarrow> u32 list \<Rightarrow> (nat \<times> nat) set \<Rightarrow> bool" where
  "sched_inv s xs L \<longleftrightarrow> sched_ok s xs \<and> heap_holds (kheap_of s) L \<and>
     (\<forall>t \<in> set xs. t \<noteq> main_task s \<longrightarrow> (\<exists>u \<ge> 4484. (unat t, u) \<in> L)) \<and>
     (unat (main_task s) < unat (heap_start (kheap_of s)) \<or> unat (heap_end (kheap_of s)) \<le> unat (main_task s))"

lemma sched_inv_heap:
  assumes "sched_inv s xs L" and "heap_holds h L'" and "L \<subseteq> L'"
    and "heap_start h = heap_start (kheap_of s)" "heap_end h = heap_end (kheap_of s)"
  shows "sched_inv (s\<lparr>kheap_of := h\<rparr>) xs L'"
  using assms by (fastforce simp: sched_inv_def sched_ok_def ring_def)

lemma fresh_task:
  assumes inv: "sched_inv s xs L" and h: "heap_holds h (insert (unat q, u) L)" "(unat q, u) \<notin> L" "4484 \<le> u"
    and b: "heap_start h = heap_start (kheap_of s)" "heap_end h = heap_end (kheap_of s)"
  shows "q \<notin> set xs"
proof
  assume q: "q \<in> set xs"
  show False
  proof (cases "q = main_task s")
    case True
    then show ?thesis using inv held_in_heap [OF h(1), of "unat q" u] h(3) b by (auto simp: sched_inv_def)
  next
    case False
    then obtain v where "4484 \<le> v" "(unat q, v) \<in> L" using inv q by (auto simp: sched_inv_def)
    then show ?thesis using kheap.holds_disjoint [OF h(1), of "unat q" u "unat q" v] h(2,3) by auto
  qed
qed

lemma sched_ok_append:
  assumes ok: "sched_ok s xs" and fresh: "t \<notin> set xs" "t \<noteq> 0"
    and tail: "tail = last xs"
    and new: "t_next (tasks s' t) = task_list_head s" "t_state (tasks s' t) = TASK_READY"
      "t_id (tasks s' t) = next_task_id s" "length (t_fds (tasks s' t)) = 16"
    and tl: "tasks s' tail = (tasks s tail)\<lparr>t_next := t\<rparr>"
    and same: "\<forall>u. u \<noteq> t \<and> u \<noteq> tail \<longrightarrow> tasks s' u = tasks s u"
    and fr: "current s' = current s" "main_task s' = main_task s" "task_list_head s' = task_list_head s"
      "next_task_id s' = next_task_id s + 1"
    and id: "unat (next_task_id s) + 1 < 2 ^ 32"
  shows "sched_ok s' (xs @ [t])"
proof -
  have ring: "ring s xs" using ok by (simp add: sched_ok_def)
  then obtain ys where xs: "xs = ys @ [tail]" using tail by (auto simp: ring_def) (metis append_butlast_last_id)
  then have dist: "tail \<notin> set ys" "t \<noteq> tail" "t \<notin> set ys" using ring fresh by (auto simp: ring_def)
  have st: "t_state (tasks s' u) = t_state (tasks s u)" "t_id (tasks s' u) = t_id (tasks s u)"
    "length (t_fds (tasks s' u)) = length (t_fds (tasks s u))" if "u \<in> set xs" for u
    using that fresh same tl by (cases "u = tail"; auto)+
  have "\<forall>y \<in> set ys. t_next (tasks s' y) = t_next (tasks s y)" using same dist by auto
  then have "chain (tasks s') c ys e = chain (tasks s) c ys e" for c e by (rule chain_cong)
  then have "chain (tasks s') (task_list_head s') (xs @ [t]) (task_list_head s')"
    using ring new(1) tl dist by (auto simp: ring_def xs chain_append fr)
  then have "ring s' (xs @ [t])" using ring fresh by (auto simp: ring_def fr)
  moreover have lt: "x < next_task_id s + 1 \<longleftrightarrow> x \<le> next_task_id s" for x
    using id by (auto simp: word_less_nat_alt word_le_nat_alt unat_word_ariths)
  moreover have "inj_on (\<lambda>u. t_id (tasks s' u)) (set (xs @ [t]))"
  proof -
    have "inj_on (\<lambda>u. t_id (tasks s' u)) (set xs) = inj_on (\<lambda>u. t_id (tasks s u)) (set xs)"
      using st(2) by (rule inj_on_cong)
    moreover have "next_task_id s \<notin> (\<lambda>u. t_id (tasks s' u)) ` set xs"
      using ok st(2) by (auto simp: sched_ok_def)
    ultimately show ?thesis using ok new(3) fresh by (simp add: sched_ok_def)
  qed
  moreover have "t \<noteq> current s" using ring fresh by (auto simp: ring_def)
  ultimately show ?thesis
    using ok st new ring by (auto simp: sched_ok_def fr ring_def less_imp_le)
qed

lemma reserve_stdio_simps [simp]:
  "t_next (reserve_stdio t) = t_next t" "t_state (reserve_stdio t) = t_state t"
  "t_id (reserve_stdio t) = t_id t" "length (t_fds (reserve_stdio t)) = length (t_fds t)"
  "stack_base (reserve_stdio t) = stack_base t" "stack_ptr (reserve_stdio t) = stack_ptr t"
  "t_uid (reserve_stdio t) = t_uid t" "t_gid (reserve_stdio t) = t_gid t" "t_entry (reserve_stdio t) = t_entry t"
  "t_arg (reserve_stdio t) = t_arg t" "t_name (reserve_stdio t) = t_name t"
  by (simp_all add: reserve_stdio_def)

definition new_task :: "u32 \<Rightarrow> string option \<Rightarrow> u32 \<Rightarrow> u32 \<Rightarrow> sched \<Rightarrow> task" where
  "new_task stack name entry arg s =
     (reserve_stdio (task_zero\<lparr>stack_base := stack, t_id := next_task_id s,
        t_name := take 31 (case name of Some n \<Rightarrow> n | None \<Rightarrow> ''task''), t_state := TASK_READY,
        t_entry := entry, t_arg := arg\<rparr>))
     \<lparr>t_uid := current_uid s, t_gid := current_gid s, stack_ptr := stack + 16384 - 40, t_next := task_list_head s\<rparr>"

lemma build_frame_heap:
  assumes h: "heap_holds h L" and u: "(unat stack, u) \<in> L" "16384 \<le> u"
  shows "heap_holds (h\<lparr>hmem := build_frame b (stack + 16384) (hmem h)\<rparr>) L"
proof (rule heap_write [OF h u(1)])
  fix x
  assume x: "x < 2 ^ 32" "x < unat stack \<or> unat stack + u \<le> x"
  have "unat stack + u < 2 ^ 32" using kheap.holds_disjoint [OF h u(1) u(1)] by simp
  have "\<forall>i < 40. W x \<noteq> stack + 16384 - 40 + W i"
  proof (intro allI impI notI)
    fix i :: nat
    assume i: "i < 40" "W x = stack + 16384 - 40 + W i"
    then have "W x = W (unat stack + 16344 + i)" by simp
    moreover have "unat stack + 16344 + i < 2 ^ 32" using i(1) u(2) \<open>unat stack + u < 2 ^ 32\<close> by simp
    ultimately have "x = unat stack + 16344 + i" using W_inj x(1) by blast
    then show False using i(1) u(2) x(2) by auto
  qed
  then show "build_frame b (stack + 16384) (hmem h) (W x) = hmem h (W x)" by (rule build_frame_other)
qed

lemma task_create_cases:
  assumes inv: "sched_inv s xs L" and id: "unat (next_task_id s) + 1 < 2 ^ 32"
  obtains (fail) h where "task_create b name entry arg s = Some (0, s\<lparr>kheap_of := h\<rparr>)"
      "sched_inv (s\<lparr>kheap_of := h\<rparr>) xs L"
  | (ok) t s' stack L' where "task_create b name entry arg s = Some (t, s')" "t \<noteq> 0" "t \<notin> set xs"
      "sched_inv s' (xs @ [t]) L'" "L \<subseteq> L'" "tasks s' t = new_task stack name entry arg s"
      "tasks s' (last xs) = (tasks s (last xs))\<lparr>t_next := t\<rparr>"
      "\<forall>u. u \<noteq> t \<and> u \<noteq> last xs \<longrightarrow> tasks s' u = tasks s u" "current s' = current s"
      "pop_frame (stack_ptr (tasks s' t)) (hmem (kheap_of s')) =
        \<lparr>eip = b, esp = stack + 16384, eflags = 0x202, eax = 0, ecx = 0, edx = 0, ebx = 0, ebp = 0, esi = 0, edi = 0\<rparr>"
proof -
  have hold: "heap_holds (kheap_of s) L" and sok: "sched_ok s xs" using inv by (auto simp: sched_inv_def)
  obtain q h1 where q: "kcalloc 1 4484 (kheap_of s) = Some (q, h1)"
    and q_cases: "q = 0 \<and> h1 = kheap_of s \<or>
      q \<noteq> 0 \<and> (\<exists>u \<ge> 4484. heap_holds h1 (insert (unat q, u) L) \<and> (unat q, u) \<notin> L)"
    using kcalloc_held [OF hold, of 4484] by auto
  show thesis
  proof (cases "q = 0")
    case True
    then have "task_create b name entry arg s = Some (0, s\<lparr>kheap_of := h1\<rparr>)" using q by (simp add: task_create_def)
    then show thesis using inv True q_cases by (intro fail [of h1]) auto
  next
    case q0: False
    then obtain u where u: "4484 \<le> u" "heap_holds h1 (insert (unat q, u) L)" "(unat q, u) \<notin> L"
      using q_cases by auto
    have b1: "heap_start h1 = heap_start (kheap_of s)" "heap_end h1 = heap_end (kheap_of s)"
      using kcalloc_bounds [OF q] by auto
    obtain st h2 where st: "kmalloc 16384 h1 = Some (st, h2)" using kheap.malloc_total [OF u(2)] by blast
    have b2: "heap_start h2 = heap_start (kheap_of s)" "heap_end h2 = heap_end (kheap_of s)"
      using kmalloc_bounds [OF st] b1 by auto
    show thesis
    proof (cases "st = 0")
      case True
      then have "h2 = h1" using st kheap.malloc_null [OF u(2)] by simp
      obtain h3 where h3: "kfree q h1 = Some h3" "heap_holds h3 (insert (unat q, u) L - {(unat q, u)})"
        using kheap.dealloc_held [OF u(2), of "unat q" u] by auto
      then have "heap_holds h3 L" using u(3) by simp
      moreover have "task_create b name entry arg s = Some (0, s\<lparr>kheap_of := h3\<rparr>)"
        using q q0 st True \<open>h2 = h1\<close> h3(1) by (simp add: task_create_def)
      ultimately show thesis
        using fail [of h3] sched_inv_heap [OF inv, of h3 L] kfree_bounds [OF h3(1)] b1 by auto
    next
      case False
      obtain v where v: "16384 \<le> v" "heap_holds h2 (insert (unat st, v) (insert (unat q, u) L))"
        using kheap.malloc_new [OF u(2) st False] by auto
      define h3 where "h3 = h2\<lparr>hmem := build_frame b (st + 16384) (hmem h2)\<rparr>"
      let ?L = "insert (unat st, v) (insert (unat q, u) L)"
      have h3: "heap_holds h3 ?L" unfolding h3_def using v by (intro build_frame_heap [of _ _ _ v]) auto
      have qx: "q \<notin> set xs" by (rule fresh_task [OF inv u(2,3,1) b1])
      have ring: "ring s xs" using sok by (simp add: sched_ok_def)
      then obtain ys where xs: "xs = task_list_head s # ys" by (cases xs) (auto simp: ring_def)
      define s1 where "s1 = s\<lparr>kheap_of := h3, next_task_id := next_task_id s + 1,
        tasks := (tasks s)(q := (new_task st name entry arg s)\<lparr>t_next := 0\<rparr>)\<rparr>"
      have "chain (tasks s1) (task_list_head s) xs (task_list_head s)"
        using ring qx chain_cong [of xs "tasks s1" "tasks s"] by (auto simp: ring_def s1_def)
      then have tail: "find_tail (tasks s1) (task_list_head s) (task_list_head s) = Some (last xs)"
        using find_tail_spec [of "tasks s1" "task_list_head s" ys] ring by (simp add: ring_def xs)
      define s' where "s' = upd q (\<lambda>t. t\<lparr>t_next := task_list_head s\<rparr>) (upd (last xs) (\<lambda>t. t\<lparr>t_next := q\<rparr>) s1)"
      have res: "task_create b name entry arg s = Some (q, s')"
        using q q0 st False tail
        by (simp add: task_create_def Let_def s'_def s1_def h3_def new_task_def current_uid_def
            current_gid_def task_zero_def reserve_stdio_def)
      have lx: "last xs \<in> set xs" "last xs \<noteq> q" using ring qx by (auto simp: ring_def)
      then have tq: "tasks s' q = new_task st name entry arg s"
        by (simp add: s'_def s1_def new_task_def)
      have tl: "tasks s' (last xs) = (tasks s (last xs))\<lparr>t_next := q\<rparr>"
        "\<forall>u. u \<noteq> q \<and> u \<noteq> last xs \<longrightarrow> tasks s' u = tasks s u"
        and fr: "current s' = current s" "main_task s' = main_task s" "task_list_head s' = task_list_head s"
        "next_task_id s' = next_task_id s + 1" "kheap_of s' = h3"
        using lx by (auto simp: s'_def s1_def)
      moreover have "sched_ok s' (xs @ [q])"
        using tl fr tq qx q0 id
        by (intro sched_ok_append [OF sok, of q "last xs"]) (simp_all add: new_task_def task_zero_def)
      moreover have "\<forall>t \<in> set xs. t \<noteq> main_task s \<longrightarrow> (\<exists>w \<ge> 4484. (unat t, w) \<in> ?L)"
        and "\<exists>w \<ge> 4484. (unat q, w) \<in> ?L"
        using inv u(1) unfolding sched_inv_def by blast+
      moreover have "heap_start h3 = heap_start (kheap_of s)" "heap_end h3 = heap_end (kheap_of s)"
        using b2 by (simp_all add: h3_def)
      ultimately have "sched_inv s' (xs @ [q]) ?L"
        using inv h3 by (simp add: sched_inv_def)
      moreover have "pop_frame (stack_ptr (tasks s' q)) (hmem (kheap_of s')) =
        \<lparr>eip = b, esp = st + 16384, eflags = 0x202, eax = 0, ecx = 0, edx = 0, ebx = 0, ebp = 0, esi = 0, edi = 0\<rparr>"
        using build_frame_fields [of "st + 16384" b "hmem h2"] by (simp add: tq fr h3_def new_task_def)
      ultimately show thesis using ok [OF res q0 qx _ _ tq tl fr(1)] by blast
    qed
  qed
qed

text \<open>C11. A task that \<open>task_create\<close> makes is new, stands at the end of the circular list,
  is ready, carries the credentials of its creator and a task id no other task has, and the
  first switch to it enters the bootstrap routine with interrupts enabled and an empty stack
  of its own. List and heap stay well formed.\<close>

theorem task_create_child:
  assumes "sched_inv s xs L" and "unat (next_task_id s) + 1 < 2 ^ 32"
    and "task_create b name entry arg s = Some (t, s')" and "t \<noteq> 0"
  shows "t \<notin> set xs \<and> (\<exists>L'. L \<subseteq> L' \<and> sched_inv s' (xs @ [t]) L') \<and>
    t_state (tasks s' t) = TASK_READY \<and> t_uid (tasks s' t) = current_uid s \<and>
    t_gid (tasks s' t) = current_gid s \<and> t_id (tasks s' t) \<notin> (\<lambda>u. t_id (tasks s' u)) ` set xs \<and>
    pop_frame (stack_ptr (tasks s' t)) (hmem (kheap_of s')) =
      \<lparr>eip = b, esp = stack_base (tasks s' t) + 16384, eflags = 0x202, eax = 0, ecx = 0, edx = 0,
       ebx = 0, ebp = 0, esi = 0, edi = 0\<rparr>"
  using assms(1,2)
proof (cases rule: task_create_cases [where b = b and name = name and entry = entry and arg = arg])
  case (fail h)
  then show ?thesis using assms by simp
next
  case (ok t1 s1 stack L')
  then have "t1 = t" "s1 = s'" using assms(3) by auto
  note ok = ok [unfolded this]
  have "inj_on (\<lambda>u. t_id (tasks s' u)) (set (xs @ [t]))"
    using ok(4) by (simp add: sched_inv_def sched_ok_def)
  then show ?thesis using ok by (auto simp: new_task_def)
qed



lemma task_exit_ok:
  assumes "sched_ok s xs"
  shows "\<exists>s'. task_exit s = Some s' \<and> sched_ok s' xs"
proof -
  let ?s = "upd (current s) (\<lambda>t. t\<lparr>t_state := TASK_ZOMBIE\<rparr>) s"
  have "ring s xs" using assms by (simp add: sched_ok_def)
  then have "ring ?s xs" by (rule ring_cong) (use assms in \<open>simp_all add: sched_ok_def ring_def\<close>)
  moreover have "inj_on (\<lambda>t. t_id (tasks ?s t)) (set xs) = inj_on (\<lambda>t. t_id (tasks s t)) (set xs)"
    by (intro inj_on_cong) simp
  ultimately have ok: "sched_ok ?s xs" using assms by (auto simp: sched_ok_def)
  have "current ?s \<in> set xs" using ok by (simp add: sched_ok_def ring_def)
  then obtain l r where "xs = l @ current ?s # r" by (metis split_list)
  from task_yield_spec [OF ok this] show ?thesis by (auto simp: task_exit_def)
qed

lemma task_kill_spec:
  assumes ok: "sched_ok s xs"
  shows "task_kill tid s = Some (case find (\<lambda>t. t_id (tasks s t) = tid \<and> t \<noteq> main_task s) xs of
      None \<Rightarrow> (-1, s) | Some t \<Rightarrow> (0, upd t (\<lambda>t. t\<lparr>t_state := TASK_ZOMBIE\<rparr>) s))"
proof -
  have ring: "ring s xs" using ok by (simp add: sched_ok_def)
  then obtain ys where xs: "xs = task_list_head s # ys" by (cases xs) (auto simp: ring_def)
  then have "kill_from s tid (task_list_head s) =
      Some (case find (\<lambda>t. t_id (tasks s t) = tid \<and> t \<noteq> main_task s) xs of
        None \<Rightarrow> (False, s) | Some t \<Rightarrow> (True, upd t (\<lambda>t. t\<lparr>t_state := TASK_ZOMBIE\<rparr>) s))"
    using kill_from_spec [of s "task_list_head s" ys] ring by (simp add: ring_def)
  then show ?thesis by (simp add: task_kill_def split: option.split)
qed

lemma task_list_spec:
  assumes "ring s xs"
  shows "task_list s = Some xs"
proof -
  obtain ys where xs: "xs = task_list_head s # ys" using assms by (cases xs) (auto simp: ring_def)
  then show ?thesis
    using list_from_spec [of "tasks s" "task_list_head s" ys] assms by (auto simp: ring_def task_list_def)
qed

section \<open>Witnesses\<close>

definition zero_cpu :: cpu where
  "zero_cpu = \<lparr>eip = 0, esp = 0x16F000, eflags = 0x202, eax = 0, ecx = 0, edx = 0, ebx = 7, ebp = 8, esi = 9, edi = 10\<rparr>"

definition boot_sched :: sched where
  "boot_sched = tasking_init \<lparr>tasks = (\<lambda>_. task_zero), main_task = 0x150000, current = 0, task_list_head = 0,
     next_task_id = 1, kheap_of = boot_heap, cpu_of = zero_cpu\<rparr>"

lemma boot_sched_inv: "sched_inv boot_sched [0x150000] {}"
proof -
  have "heap_holds boot_heap {}" using boot_heap_rep by (fastforce simp: heap_holds_def live_of_def)
  moreover have "heap_start boot_heap = 0x180000" by (simp add: boot_heap_def heap_init_def align_up_def Let_def)
  ultimately show ?thesis
    by (simp add: sched_inv_def sched_ok_def ring_def boot_sched_def tasking_init_def Let_def task_zero_def)
qed

lemma memset_heap_rep:
  assumes rep: "heap_rep h bs" and a: "(a, u, False) \<in> set bs" and n: "unat n \<le> u"
  shows "heap_rep (h\<lparr>hmem := memset (hmem h) (W (a + 20)) c n\<rparr>) bs"
proof (rule heap_write_rep [OF rep a])
  fix x
  assume x: "x < 2 ^ 32" "x < a + 20 \<or> a + 20 + u \<le> x"
  have "a + 20 + u < 2 ^ 32"
    using tiled_mem [OF heap_holds_tiled [OF rep] a] u32_lt [of "heap_end h"] by simp
  then have "\<not> in_range (W (a + 20)) (unat n) (W x)"
    using x n in_range_nat [of "a + 20" "unat n" x] by auto
  then show "memset (hmem h) (W (a + 20)) c n (W x) = hmem h (W x)" by (simp add: memset_spec)
qed

lemma boot_create:
  "\<exists>t s'. task_create 0x100200 None 0x100300 0 boot_sched = Some (t, s') \<and> t \<noteq> 0"
proof -
  obtain h1 where h1: "kmalloc 4484 boot_heap = Some (0x180014, h1)"
    "heap_rep h1 [(0x180000, 4488, False), (0x18119C, 8384080, True)]"
    using kmalloc_list(2) [OF boot_heap_rep, of 4484 "0x180014" "[(0x180000, 4488, False), (0x18119C, 8384080, True)]"]
    by (auto simp: align8_def carve_def)
  let ?h2 = "h1\<lparr>hmem := memset (hmem h1) 0x180014 0 4484\<rparr>"
  have k1: "kcalloc 1 4484 boot_heap = Some (0x180014, ?h2)" using h1(1) by (simp add: kcalloc_def)
  have r2: "heap_rep ?h2 [(0x180000, 4488, False), (0x18119C, 8384080, True)]"
    using memset_heap_rep [OF h1(2), of "0x180000" 4488 4484 0] by simp
  obtain h3 where k2: "kmalloc 16384 ?h2 = Some (0x1811B0, h3)"
    using kmalloc_list(2) [OF r2, of 16384 "0x1811B0"
      "[(0x180000, 4488, False), (0x18119C, 16384, False), (0x1851B0, 8367676, True)]"]
    by (auto simp: align8_def carve_def)
  have inv: "sched_inv boot_sched [0x150000] {}" by (rule boot_sched_inv)
  have hp: "kheap_of boot_sched = boot_heap" "unat (next_task_id boot_sched) + 1 < 2 ^ 32"
    by (simp_all add: boot_sched_def tasking_init_def Let_def)
  show ?thesis
    using inv hp(2)
  proof (cases rule: task_create_cases [where b = "0x100200" and name = None and entry = "0x100300" and arg = 0])
    case (fail h)
    then show ?thesis using k1 k2 hp by (simp add: task_create_def Let_def)
  next
    case (ok t s' stack L')
    then show ?thesis by auto
  qed
qed

theorem task_create_child_witness:
  "\<exists>t s'. sched_inv boot_sched [0x150000] {} \<and>
     task_create 0x100200 None 0x100300 0 boot_sched = Some (t, s') \<and> t \<noteq> 0 \<and> t_uid (tasks s' t) = 0"
proof -
  have n: "unat (next_task_id boot_sched) + 1 < 2 ^ 32"
    by (simp add: boot_sched_def tasking_init_def Let_def)
  obtain t s' where c: "task_create 0x100200 None 0x100300 0 boot_sched = Some (t, s')" "t \<noteq> 0"
    using boot_create by blast
  have "current_uid boot_sched = 0"
    by (simp add: current_uid_def boot_sched_def tasking_init_def Let_def)
  then show ?thesis using task_create_child [OF boot_sched_inv n c] c boot_sched_inv by auto
qed

lemma boot_two:
  "\<exists>t s'. sched_ok s' [0x150000, t] \<and> t_state (tasks s' t) = TASK_READY \<and> current s' = 0x150000"
proof -
  have hp: "unat (next_task_id boot_sched) + 1 < 2 ^ 32"
    by (simp add: boot_sched_def tasking_init_def Let_def)
  obtain t s' where c: "task_create 0x100200 None 0x100300 0 boot_sched = Some (t, s')" "t \<noteq> 0"
    using boot_create by blast
  show ?thesis
    using boot_sched_inv hp
  proof (cases rule: task_create_cases [where b = "0x100200" and name = None and entry = "0x100300" and arg = 0])
    case (fail h)
    then show ?thesis using c by simp
  next
    case (ok t1 s1 stack L')
    have "sched_ok s1 [0x150000, t1]" using ok(4) by (simp add: sched_inv_def)
    moreover have "t_state (tasks s1 t1) = TASK_READY" using ok(6) by (simp add: new_task_def)
    moreover have "current s1 = 0x150000"
      using ok(9) by (simp add: boot_sched_def tasking_init_def Let_def)
    ultimately show ?thesis by blast
  qed
qed



theorem context_switch_roundtrip_witness:
  "\<exists>s1 s2. s1 = context_switch 0x150000 0x1000 boot_sched \<and> esp (cpu_of boot_sched) = 0x16F000 \<and>
     clear_of (0x16F000 - 36) 40 (esp (cpu_of s2) - 36) 36 \<and>
     ebx (cpu_of (context_switch 0x180014 (stack_ptr (tasks s1 0x150000)) s2)) = 7"
proof -
  let ?s1 = "context_switch 0x150000 0x1000 boot_sched"
  let ?s2 = "?s1\<lparr>cpu_of := zero_cpu\<lparr>esp := 0x185000\<rparr>\<rparr>"
  have e: "0x16F000 = esp (cpu_of boot_sched)" "ebx (cpu_of boot_sched) = 7"
    by (simp_all add: boot_sched_def tasking_init_def zero_cpu_def Let_def)
  have clear: "clear_of (0x16F000 - 36) 40 (esp (cpu_of ?s2) - 36) 36"
  proof -
    have "W (0x16EFDC + i) \<noteq> W (0x184FDC + j)" if "i < 40" "j < 36" for i j
      using that W_inj [of "0x16EFDC + i" "0x184FDC + j"] by auto
    then show ?thesis by (simp add: clear_of_def)
  qed
  have same: "\<forall>i < 40. hmem (kheap_of ?s2) (0x16F000 - 36 + W i) = hmem (kheap_of ?s1) (0x16F000 - 36 + W i)"
    by simp
  have "ebx (cpu_of (context_switch 0x180014 (stack_ptr (tasks ?s1 0x150000)) ?s2)) = ebx (cpu_of boot_sched)"
    using context_switch_roundtrip [OF refl e(1) same clear] unfolding Let_def by blast
  then show ?thesis using clear e by (intro exI [of _ ?s1] exI [of _ ?s2]) simp
qed

end
