(* ===== verification/CString.thy ===== *)
theory CString
  imports Heap_Correct
begin

text \<open>
  C strings: \<^verbatim>\<open>libc/string.c\<close> (the \<^verbatim>\<open>str*\<close> routines), \<^verbatim>\<open>libc/ctype.c\<close> and
  \<^verbatim>\<open>libc/stdlib.c\<close>. A string is a run of non-zero bytes in the flat memory ended by a
  zero byte. A routine bounded by a count recurses on it; the others scan for the zero byte
  and return an option, since they need not find one. The predicate \<open>cstr\<close> relates a
  pointer to the list of bytes it points to, and the lemmas say what each routine computes
  on that list.
\<close>

section \<open>String routines\<close>

partial_function (option) strlen_from :: "mem \<Rightarrow> u32 \<Rightarrow> u32 \<Rightarrow> u32 option" where
  "strlen_from m str len = (if m (str + len) \<noteq> 0 then strlen_from m str (len + 1) else Some len)"

definition strlen :: "mem \<Rightarrow> u32 \<Rightarrow> u32 option" where
  "strlen m str = (if str = 0 then Some 0 else strlen_from m str 0)"

primrec strnlen_loop :: "mem \<Rightarrow> u32 \<Rightarrow> nat \<Rightarrow> u32 \<Rightarrow> u32" where
  "strnlen_loop m str 0 len = len"
| "strnlen_loop m str (Suc n) len = (if m (str + len) \<noteq> 0 then strnlen_loop m str n (len + 1) else len)"

definition strnlen :: "mem \<Rightarrow> u32 \<Rightarrow> u32 \<Rightarrow> u32" where
  "strnlen m str mx = (if str = 0 then 0 else strnlen_loop m str (unat mx) 0)"

partial_function (option) strcpy :: "mem \<Rightarrow> u32 \<Rightarrow> u32 \<Rightarrow> mem option" where
  "strcpy m dest src =
     (let c = m src; m = m(dest := c) in if c \<noteq> 0 then strcpy m (dest + 1) (src + 1) else Some m)"

primrec strncpy_pad :: "nat \<Rightarrow> u32 \<Rightarrow> mem \<Rightarrow> mem" where
  "strncpy_pad 0 dest m = m"
| "strncpy_pad (Suc n) dest m = strncpy_pad n (dest + 1) (m(dest := 0))"

primrec strncpy_loop :: "nat \<Rightarrow> u32 \<Rightarrow> u32 \<Rightarrow> mem \<Rightarrow> mem" where
  "strncpy_loop 0 dest src m = m"
| "strncpy_loop (Suc n) dest src m =
     (if m src \<noteq> 0 then strncpy_loop n (dest + 1) (src + 1) (m(dest := m src))
      else strncpy_pad (Suc n) dest m)"

definition strncpy :: "mem \<Rightarrow> u32 \<Rightarrow> u32 \<Rightarrow> u32 \<Rightarrow> mem" where
  "strncpy m dest src n = strncpy_loop (unat n) dest src m"

definition strcat :: "mem \<Rightarrow> u32 \<Rightarrow> u32 \<Rightarrow> mem option" where
  "strcat m dest src = Option.bind (strlen m dest) (\<lambda>n. strcpy m (dest + n) src)"

partial_function (option) strcmp :: "mem \<Rightarrow> u32 \<Rightarrow> u32 \<Rightarrow> int option" where
  "strcmp m a b =
     (if m a \<noteq> 0 \<and> m a = m b then strcmp m (a + 1) (b + 1) else Some (uint (m a) - uint (m b)))"

primrec strncmp_loop :: "mem \<Rightarrow> nat \<Rightarrow> u32 \<Rightarrow> u32 \<Rightarrow> int" where
  "strncmp_loop m 0 a b = 0"
| "strncmp_loop m (Suc n) a b =
     (if m a \<noteq> m b \<or> m a = 0 \<or> m b = 0 then uint (m a) - uint (m b)
      else strncmp_loop m n (a + 1) (b + 1))"

definition strncmp :: "mem \<Rightarrow> u32 \<Rightarrow> u32 \<Rightarrow> u32 \<Rightarrow> int" where
  "strncmp m a b n = strncmp_loop m (unat n) a b"

partial_function (option) strchr :: "mem \<Rightarrow> u32 \<Rightarrow> u32 \<Rightarrow> u32 option" where
  "strchr m str ch =
     (if m str \<noteq> 0 then (if m str = ucast ch then Some str else strchr m (str + 1) ch)
      else Some (if ch = 0 then str else 0))"

partial_function (option) strrchr_from :: "mem \<Rightarrow> u32 \<Rightarrow> u32 \<Rightarrow> u32 \<Rightarrow> u32 option" where
  "strrchr_from m str ch lst =
     (let lst = (if m str = ucast ch then str else lst)
      in if m str \<noteq> 0 then strrchr_from m (str + 1) ch lst else Some lst)"

definition strrchr :: "mem \<Rightarrow> u32 \<Rightarrow> u32 \<Rightarrow> u32 option" where
  "strrchr m str ch = strrchr_from m str ch 0"

partial_function (option) strstr_from :: "mem \<Rightarrow> u32 \<Rightarrow> u32 \<Rightarrow> u32 \<Rightarrow> u32 option" where
  "strstr_from m p needle nlen =
     (if m p = 0 then Some 0
      else if m p = m needle \<and> strncmp m p needle nlen = 0 then Some p
      else strstr_from m (p + 1) needle nlen)"

definition strstr :: "mem \<Rightarrow> u32 \<Rightarrow> u32 \<Rightarrow> u32 option" where
  "strstr m haystack needle =
     (if m needle = 0 then Some haystack
      else Option.bind (strlen m needle) (\<lambda>nlen. strstr_from m haystack needle nlen))"

definition strdup :: "u32 \<Rightarrow> heap \<Rightarrow> (u32 \<times> heap) option" where
  "strdup src h =
     Option.bind (strlen (hmem h) src) (\<lambda>n. let len = n + 1 in
       Option.bind (kmalloc len h) (\<lambda>(copy, h).
         if copy = 0 then Some (0, h)
         else Some (copy, h\<lparr>hmem := memcpy (hmem h) copy src len\<rparr>)))"

partial_function (option) delim_has :: "mem \<Rightarrow> u32 \<Rightarrow> u8 \<Rightarrow> bool option" where
  "delim_has m delim c =
     (if m delim \<noteq> 0 then (if m delim = c then Some True else delim_has m (delim + 1) c)
      else Some False)"

partial_function (option) skip_delim :: "mem \<Rightarrow> u32 \<Rightarrow> bool \<Rightarrow> u32 \<Rightarrow> u32 option" where
  "skip_delim m delim want s =
     (if m s \<noteq> 0 then Option.bind (delim_has m delim (m s)) (\<lambda>b.
        if b = want then skip_delim m delim want (s + 1) else Some s)
      else Some s)"

definition strtok_r :: "mem \<Rightarrow> u32 \<Rightarrow> u32 \<Rightarrow> u32 \<Rightarrow> (u32 \<times> u32 \<times> mem) option" where
  "strtok_r m str delim saveptr =
     (let s = (if str \<noteq> 0 then str else saveptr) in
      if s = 0 then Some (0, saveptr, m)
      else Option.bind (skip_delim m delim True s) (\<lambda>s.
        if m s = 0 then Some (0, 0, m)
        else let token = s in
          Option.bind (skip_delim m delim False s) (\<lambda>s.
            if m s \<noteq> 0 then Some (token, s + 1, m(s := 0)) else Some (token, s, m))))"

section \<open>Character classes\<close>

definition isspace :: "int \<Rightarrow> bool" where
  "isspace c \<longleftrightarrow> c = 32 \<or> c = 9 \<or> c = 10 \<or> c = 13 \<or> c = 12 \<or> c = 11"

definition isdigit :: "int \<Rightarrow> bool" where
  "isdigit c \<longleftrightarrow> c \<ge> 48 \<and> c \<le> 57"

definition isalpha :: "int \<Rightarrow> bool" where
  "isalpha c \<longleftrightarrow> c \<ge> 97 \<and> c \<le> 122 \<or> c \<ge> 65 \<and> c \<le> 90"

definition isalnum :: "int \<Rightarrow> bool" where
  "isalnum c \<longleftrightarrow> isalpha c \<or> isdigit c"

definition islower :: "int \<Rightarrow> bool" where
  "islower c \<longleftrightarrow> c \<ge> 97 \<and> c \<le> 122"

definition isupper :: "int \<Rightarrow> bool" where
  "isupper c \<longleftrightarrow> c \<ge> 65 \<and> c \<le> 90"

definition tolower :: "int \<Rightarrow> int" where
  "tolower c = (if isupper c then c + (97 - 65) else c)"

definition toupper :: "int \<Rightarrow> int" where
  "toupper c = (if islower c then c - (97 - 65) else c)"

section \<open>Numbers and reversal\<close>

definition char_at :: "mem \<Rightarrow> u32 \<Rightarrow> int" where
  "char_at m s = sint (m s)"

partial_function (option) skip_space :: "mem \<Rightarrow> u32 \<Rightarrow> u32 option" where
  "skip_space m s = (if isspace (char_at m s) then skip_space m (s + 1) else Some s)"

definition digit_of :: "int \<Rightarrow> int option" where
  "digit_of c =
     (if isdigit c then Some (c - 48)
      else if c \<ge> 97 \<and> c \<le> 122 then Some (c - 97 + 10)
      else if c \<ge> 65 \<and> c \<le> 90 then Some (c - 65 + 10)
      else None)"

partial_function (option) strtol_digits :: "mem \<Rightarrow> u32 \<Rightarrow> int \<Rightarrow> u32 \<Rightarrow> (u32 \<times> u32) option" where
  "strtol_digits m s base val =
     (if m s \<noteq> 0 then
        (case digit_of (char_at m s) of
           None \<Rightarrow> Some (val, s)
         | Some digit \<Rightarrow>
             if digit \<ge> base then Some (val, s)
             else strtol_digits m (s + 1) base (val * word_of_int base + word_of_int digit))
      else Some (val, s))"

definition strtol :: "mem \<Rightarrow> u32 \<Rightarrow> int \<Rightarrow> (u32 \<times> u32) option" where
  "strtol m nptr base =
     Option.bind (skip_space m nptr) (\<lambda>s.
       let (sign, s) = (if m s = 45 then (-1, s + 1) else if m s = 43 then (1, s + 1) else (1, s));
           (base, s) = (if (base = 0 \<or> base = 16) \<and> m s = 48 \<and> (m (s + 1) = 120 \<or> m (s + 1) = 88)
                        then (16, s + 2)
                        else if base = 0 then (if m s = 48 then 8 else 10, s)
                        else (base, s))
       in map_option (\<lambda>(val, s). (val * sign, s)) (strtol_digits m s base 0))"

definition atoi :: "mem \<Rightarrow> u32 \<Rightarrow> u32 option" where
  "atoi m str = map_option fst (strtol m str 10)"

primrec reverse_loop :: "nat \<Rightarrow> u32 \<Rightarrow> u32 \<Rightarrow> u32 \<Rightarrow> mem \<Rightarrow> mem" where
  "reverse_loop 0 str len i m = m"
| "reverse_loop (Suc n) str len i m =
     (let tmp = m (str + i);
          m = m(str + i := m (str + (len - i - 1)));
          m = m(str + (len - i - 1) := tmp)
      in reverse_loop n str len (i + 1) m)"

definition reverse :: "mem \<Rightarrow> u32 \<Rightarrow> mem option" where
  "reverse m str = map_option (\<lambda>len. reverse_loop (unat (len div 2)) str len 0 m) (strlen m str)"


section \<open>Strings in memory\<close>

primrec cstr :: "mem \<Rightarrow> u32 \<Rightarrow> bytes \<Rightarrow> bool" where
  "cstr m p [] \<longleftrightarrow> m p = 0"
| "cstr m p (x # xs) \<longleftrightarrow> m p = x \<and> x \<noteq> 0 \<and> cstr m (p + 1) xs"

lemma W_Suc: "p + W (Suc n) = p + 1 + W n"
  by simp

lemma cstr_append: "cstr m p (xs @ ys) \<longleftrightarrow>
    (\<forall>i < length xs. m (p + W i) = xs ! i) \<and> 0 \<notin> set xs \<and> cstr m (p + W (length xs)) ys"
proof (induction xs arbitrary: p)
  case (Cons x xs)
  have "(\<forall>i < Suc (length xs). m (p + W i) = (x # xs) ! i) \<longleftrightarrow>
      m p = x \<and> (\<forall>i < length xs. m (p + 1 + W i) = xs ! i)"
    by (auto simp: less_Suc_eq_0_disj algebra_simps)
  then show ?case using Cons.IH [of "p + 1"] by (auto simp: algebra_simps)
qed simp

lemma cstr_nth: "cstr m p xs \<longleftrightarrow>
    (\<forall>i < length xs. m (p + W i) = xs ! i) \<and> 0 \<notin> set xs \<and> m (p + W (length xs)) = 0"
  using cstr_append [of m p xs "[]"] by simp

lemma cstr_cong:
  assumes "cstr m p xs" and "\<And>i. i \<le> length xs \<Longrightarrow> m' (q + W i) = m (p + W i)"
  shows "cstr m' q xs"
  using assms by (simp add: cstr_nth)

lemma strlen_from_cstr: "cstr m (str + len) xs \<Longrightarrow> strlen_from m str len = Some (len + W (length xs))"
  by (induction xs arbitrary: len; subst strlen_from.simps) (simp_all add: algebra_simps)

lemma strlen_cstr: "cstr m str xs \<Longrightarrow> str \<noteq> 0 \<Longrightarrow> strlen m str = Some (W (length xs))"
  using strlen_from_cstr [of m str 0 xs] by (simp add: strlen_def)

lemma strnlen_loop_cstr:
  "cstr m (str + len) xs \<Longrightarrow> strnlen_loop m str n len = len + W (min n (length xs))"
proof (induction n arbitrary: len xs)
  case (Suc n)
  then show ?case
  proof (cases xs)
    case (Cons x ys)
    then have "strnlen_loop m str n (len + 1) = len + 1 + W (min n (length ys))"
      using Suc.prems by (intro Suc.IH) (simp add: algebra_simps)
    then show ?thesis using Suc.prems Cons by simp
  qed simp
qed simp

lemma strcpy_spec:
  assumes "cstr m src xs" and "\<And>i. i \<le> length xs \<Longrightarrow> \<not> in_range dest (Suc (length xs)) (src + W i)"
    and "length xs < 2 ^ 32 - 1"
  shows "strcpy m dest src = Some (memcpy_loop (Suc (length xs)) dest src m)"
  using assms
proof (induction xs arbitrary: m dest src)
  case Nil
  then show ?case by (simp add: strcpy.simps fun_upd_def)
next
  case (Cons x xs)
  let ?m = "m(dest := x)"
  have apart: "src + 1 + W i \<noteq> dest \<and> \<not> in_range (dest + 1) (Suc (length xs)) (src + 1 + W i)"
    if "i \<le> length xs" for i
  proof -
    have "\<not> in_range dest (Suc (Suc (length xs))) (src + 1 + W i)"
      using Cons.prems(2) [of "Suc i"] that by (simp add: algebra_simps)
    then show ?thesis using in_range_Suc(1) [of "Suc (length xs)" dest] Cons.prems(3) by simp
  qed
  have "cstr ?m (src + 1) xs"
    by (rule cstr_cong [of m "src + 1" xs]) (use Cons.prems(1) apart in simp_all)
  then have "strcpy ?m (dest + 1) (src + 1) = Some (memcpy_loop (Suc (length xs)) (dest + 1) (src + 1) ?m)"
    by (rule Cons.IH) (use Cons.prems(3) apart in simp_all)
  then show ?case using Cons.prems(1) by (subst strcpy.simps) (simp add: Let_def)
qed

section \<open>Comparison\<close>

fun strcmp_list :: "bytes \<Rightarrow> bytes \<Rightarrow> int" where
  "strcmp_list [] [] = 0"
| "strcmp_list (x # xs) [] = uint x"
| "strcmp_list [] (y # ys) = - uint y"
| "strcmp_list (x # xs) (y # ys) = (if x = y then strcmp_list xs ys else uint x - uint y)"

lemma strcmp_cstr:
  "cstr m a xs \<Longrightarrow> cstr m b ys \<Longrightarrow> strcmp m a b = Some (strcmp_list xs ys)"
  by (induction xs ys arbitrary: a b rule: strcmp_list.induct; subst strcmp.simps) auto

lemma uint_pos_u8: "(x :: u8) \<noteq> 0 \<Longrightarrow> 0 < uint x"
  by (simp add: word_neq_0_conv word_less_def)

lemma uint_eq_u8: "uint (x :: u8) = uint y \<longleftrightarrow> x = y"
  by (metis word_uint_eq_iff)

lemma strcmp_list_0: "0 \<notin> set xs \<Longrightarrow> 0 \<notin> set ys \<Longrightarrow> strcmp_list xs ys = 0 \<longleftrightarrow> xs = ys"
  by (induction xs ys rule: strcmp_list.induct) (auto simp: uint_0_iff uint_eq_u8)

lemma strcmp_list_less:
  "0 \<notin> set xs \<Longrightarrow> 0 \<notin> set ys \<Longrightarrow> strcmp_list xs ys < 0 \<longleftrightarrow> (xs, ys) \<in> lexord {(x, y). x < y}"
  by (induction xs ys rule: strcmp_list.induct) (auto simp: uint_pos_u8 word_less_def)

lemma cstr_0: "cstr m p xs \<Longrightarrow> 0 \<notin> set xs"
  by (simp add: cstr_nth)

text \<open>C26. \<open>strcmp\<close> of two strings returns; its result is zero exactly when the strings are
  equal, and negative exactly when the first precedes the second in the dictionary order of
  unsigned bytes.\<close>

theorem strcmp_orders:
  assumes "cstr m a xs" and "cstr m b ys"
  shows "\<exists>r. strcmp m a b = Some r \<and> (r = 0 \<longleftrightarrow> xs = ys) \<and>
    (r < 0 \<longleftrightarrow> (xs, ys) \<in> lexord {(x, y). x < y})"
  using strcmp_cstr [OF assms] strcmp_list_0 strcmp_list_less cstr_0 assms by blast

theorem strcmp_orders_witness:
  "\<exists>m a b. cstr m a [108, 115] \<and> cstr m b [108, 115, 99] \<and>
    (\<exists>r. strcmp m a b = Some r \<and> (r = 0 \<longleftrightarrow> [108, 115] = [108, 115, 99 :: u8]) \<and>
      (r < 0 \<longleftrightarrow> ([108, 115], [108, 115, 99]) \<in> lexord {(x, y :: u8). x < y}))"
proof -
  define m :: mem where "m = (\<lambda>_. 0)(1 := 108, 2 := 115, 4 := 108, 5 := 115, 6 := 99)"
  have "cstr m 1 [108, 115]" "cstr m 4 [108, 115, 99]" by (simp_all add: m_def)
  with strcmp_orders [OF this] show ?thesis by blast
qed

lemma strncmp_loop_prefix:
  "cstr m a xs \<Longrightarrow> 0 \<notin> set ys \<Longrightarrow> (\<forall>i < length ys. m (b + W i) = ys ! i) \<Longrightarrow>
   strncmp_loop m (length ys) a b = 0 \<longleftrightarrow> (\<exists>zs. xs = ys @ zs)"
proof (induction ys arbitrary: xs a b)
  case (Cons y ys)
  have b: "m b = y" "\<forall>i < length ys. m (b + 1 + W i) = ys ! i"
    using Cons.prems(3) [rule_format, of 0] Cons.prems(3) [rule_format, of "Suc i" for i]
    by (auto simp: algebra_simps)
  show ?case
  proof (cases xs)
    case Nil
    then show ?thesis using Cons.prems(1,2) b(1) by (simp add: uint_0_iff)
  next
    case xs: (Cons x xs')
    then show ?thesis using Cons.prems(1,2) b(1) Cons.IH [of "a + 1" xs' "b + 1"] b(2)
      by (auto simp: uint_eq_u8)
  qed
qed simp

lemma cstr_length: "cstr m p xs \<Longrightarrow> length xs < 2 ^ 32"
proof (rule ccontr)
  assume c: "cstr m p xs" and "\<not> length xs < 2 ^ 32"
  then have l: "2 ^ 32 \<le> length xs" by simp
  have "W (length xs - 2 ^ 32) = W (length xs)" using l by (simp add: of_nat_diff)
  moreover have "length xs - 2 ^ 32 < length xs" using l by simp
  ultimately have "xs ! (length xs - 2 ^ 32) = 0" using c by (auto simp: cstr_nth)
  then show False using c \<open>length xs - 2 ^ 32 < length xs\<close> nth_mem cstr_0 by metis
qed

section \<open>Searching\<close>

fun find_sub :: "bytes \<Rightarrow> bytes \<Rightarrow> nat option" where
  "find_sub ys [] = (if ys = [] then Some 0 else None)"
| "find_sub ys (x # xs) = (if \<exists>zs. x # xs = ys @ zs then Some 0 else map_option Suc (find_sub ys xs))"

lemma strstr_from_spec:
  assumes "cstr m needle ys" and "ys \<noteq> []"
  shows "cstr m p xs \<Longrightarrow> strstr_from m p needle (W (length ys)) =
    Some (case find_sub ys xs of None \<Rightarrow> 0 | Some i \<Rightarrow> p + W i)"
proof (induction xs arbitrary: p)
  case Nil
  then show ?case using assms(2) by (subst strstr_from.simps) simp
next
  case (Cons x xs)
  have u: "unat (W (length ys)) = length ys"
    using cstr_length [OF assms(1)] by (intro unat_of_nat_u32)
  have n: "strncmp m p needle (W (length ys)) = 0 \<longleftrightarrow> (\<exists>zs. x # xs = ys @ zs)"
    unfolding strncmp_def u using assms(1)
    by (intro strncmp_loop_prefix [OF Cons.prems]) (auto simp: cstr_nth)
  have hd: "m p = m needle" if "\<exists>zs. x # xs = ys @ zs"
    using that assms Cons.prems by (cases ys) auto
  show ?case
  proof (cases "\<exists>zs. x # xs = ys @ zs")
    case True
    then show ?thesis using Cons.prems n hd by (subst strstr_from.simps) (simp del: Cons.prems)
  next
    case False
    have "strstr_from m p needle (W (length ys)) = strstr_from m (p + 1) needle (W (length ys))"
      using Cons.prems n False by (subst strstr_from.simps) simp
    then show ?thesis using Cons False by (simp split: option.split)
  qed
qed

lemma strstr_cstr:
  assumes "cstr m needle ys" and "cstr m p xs" and "needle \<noteq> 0" and "ys \<noteq> []"
  shows "strstr m p needle = Some (case find_sub ys xs of None \<Rightarrow> 0 | Some i \<Rightarrow> p + W i)"
  using strstr_from_spec [OF assms(1,4,2)] strlen_cstr [OF assms(1,3)] assms(1,4)
  by (cases ys) (auto simp: strstr_def)

lemma delim_has_cstr: "cstr m d ds \<Longrightarrow> delim_has m d c = Some (c \<in> set ds)"
  by (induction ds arbitrary: d; subst delim_has.simps) auto

lemma skip_delim_cstr:
  assumes "cstr m d ds"
  shows "cstr m s xs \<Longrightarrow>
    skip_delim m d want s = Some (s + W (length (takeWhile (\<lambda>c. (c \<in> set ds) = want) xs)))"
proof (induction xs arbitrary: s)
  case Nil
  then show ?case by (subst skip_delim.simps) simp
next
  case (Cons x xs)
  then show ?case using delim_has_cstr [OF assms, of x] by (subst skip_delim.simps) (simp add: algebra_simps)
qed

lemma cstr_drop: "cstr m p xs \<Longrightarrow> n \<le> length xs \<Longrightarrow> cstr m (p + W n) (drop n xs)"
  using cstr_append [of m p "take n xs" "drop n xs"] by (simp add: min_absorb2)

lemma W_apart: "i < j \<Longrightarrow> j < 2 ^ 32 \<Longrightarrow> (p :: u32) + W j \<noteq> p + W i"
  using W_inj [of j i] by simp

text \<open>Cutting a string at one of its bytes leaves the two halves.\<close>

lemma cstr_cut:
  assumes "cstr m p xs" and "n < length xs"
  shows "cstr (m(p + W n := 0)) p (take n xs)" and "cstr (m(p + W n := 0)) (p + W n + 1) (drop (Suc n) xs)"
proof -
  note len = cstr_length [OF assms(1)]
  have "p + W i \<noteq> p + W n" if "i < n" for i
    using W_apart [of i n p] that assms(2) len by auto
  then show "cstr (m(p + W n := 0)) p (take n xs)"
    using assms by (auto simp: cstr_nth min_absorb2 dest: in_set_takeD)
  have d: "cstr m (p + W (Suc n)) (drop (Suc n) xs)"
    by (rule cstr_drop [OF assms(1)]) (use assms(2) in simp)
  have "p + W (Suc n) + W i \<noteq> p + W n" if "i \<le> length xs - Suc n" for i
    using W_apart [of n "Suc n + i" p] that assms(2) len by (simp add: add.assoc)
  then have "cstr (m(p + W n := 0)) (p + W (Suc n)) (drop (Suc n) xs)"
    by (intro cstr_cong [OF d]) simp
  then show "cstr (m(p + W n := 0)) (p + W n + 1) (drop (Suc n) xs)" by (simp add: algebra_simps)
qed

lemma drop_takeWhile: "drop (length (takeWhile P xs)) xs = dropWhile P xs"
  by (induction xs) auto



section \<open>Duplication\<close>

text \<open>Copying bytes of a held block into a new one.\<close>

lemma copy_new:
  assumes h1: "heap_holds h1 (insert (q, s) L)" and new: "(q, s) \<notin> L" and pu: "(p, u) \<in> L"
    and a: "p \<le> a" "a + n \<le> p + u" "n \<le> s"
  defines "m2 \<equiv> memcpy (hmem h1) (W q) (W a) (W n)"
  shows "heap_holds (h1\<lparr>hmem := m2\<rparr>) (insert (q, s) L)"
    and "\<And>i. i < n \<Longrightarrow> m2 (W q + W i) = hmem h1 (W a + W i)" and "same_payloads L (hmem h1) m2"
proof -
  have qb: "q + s < 2 ^ 32" "p + u < 2 ^ 32" "p + u \<le> q \<or> q + s \<le> p"
    using kheap.holds_disjoint [OF h1, of q s p u] kheap.holds_disjoint [OF h1, of p u p u] pu new by auto
  have m2: "m2 (W x) = (if q \<le> x \<and> x < q + n then hmem h1 (W (a + (x - q))) else hmem h1 (W x))"
    if "x < 2 ^ 32" for x
    unfolding m2_def using a qb that by (intro memcpy_nat) auto
  show "heap_holds (h1\<lparr>hmem := m2\<rparr>) (insert (q, s) L)"
    using m2 a(3) by (intro heap_write [OF h1, of q s]) auto
  show "m2 (W q + W i) = hmem h1 (W a + W i)" if "i < n" for i
    using m2 [of "q + i"] that qb(1) a(3) by simp
  have "m2 (W y) = hmem h1 (W y)" if "(d, v) \<in> L" "d \<le> y" "y < d + v" for d v y
    using kheap.holds_disjoint [OF h1, of d v q s] that a(3) new m2 [of y] by auto
  then show "same_payloads L (hmem h1) m2" by (auto simp: same_payloads_def)
qed

text \<open>C24. \<open>strdup\<close> of a string in a held block returns; it either fails with NULL and an
  unchanged heap, or gives a new block that holds the same string, and every block held
  before keeps its contents.\<close>

theorem strdup_copies:
  assumes h: "heap_holds h L" and pu: "(p, u) \<in> L" and a: "p \<le> a" "a + length xs < p + u"
    and c: "cstr (hmem h) (W a) xs" and len: "length xs < 0xFFFFFFF8"
  shows "strdup (W a) h = Some (0, h) \<or>
    (\<exists>q s h'. strdup (W a) h = Some (W q, h') \<and> W q \<noteq> 0 \<and> length xs < s \<and> (q, s) \<notin> L \<and>
      heap_holds h' (insert (q, s) L) \<and> cstr (hmem h') (W q) xs \<and> same_payloads L (hmem h) (hmem h'))"
proof -
  have pb: "p + u < 2 ^ 32" "0 < p" using h pu heap_live_pos kheap.holds_disjoint by blast+
  then have a0: "W a \<noteq> 0" using a W_inj [of a 0] by simp
  let ?n = "W (Suc (length xs))"
  have un: "unat ?n = Suc (length xs)" using len by (intro unat_of_nat_u32) simp
  have sl: "strlen (hmem h) (W a) = Some (W (length xs))" by (rule strlen_cstr [OF c a0])
  have n1: "W (length xs) + 1 = ?n" by simp
  obtain q1 h1 where m: "kmalloc ?n h = Some (q1, h1)" using kheap.malloc_total [OF h] by blast
  show ?thesis
  proof (cases "q1 = 0")
    case True
    then show ?thesis using m sl kheap.malloc_null [OF h, of ?n h1]
      by (simp add: strdup_def Let_def n1 del: of_nat_Suc)
  next
    case False
    have small: "?n \<le> 0xFFFFFFF8" unfolding word_le_nat_alt un using len by simp
    define q where "q = unat q1"
    obtain s where s: "length xs < s" "heap_holds h1 (insert (q, s) L)" "(q, s) \<notin> L"
      and k1: "same_payloads L (hmem h) (hmem h1)"
      using kheap.malloc_new [OF h m False small] unfolding un by (auto simp: q_def Suc_le_eq)
    define m2 where "m2 = memcpy (hmem h1) (W q) (W a) ?n"
    note new = copy_new [OF s(2,3) pu a(1), of "Suc (length xs)", folded m2_def]
    have "m2 (W q + W i) = hmem h (W a + W i)" if "i \<le> length xs" for i
      using new(2) [of i] that s(1) same_payloadsD [OF k1 pu, of "a + i"] a by simp
    then have "cstr m2 (W q) xs" by (rule cstr_cong [OF c])
    moreover have "same_payloads L (hmem h) m2"
      using same_payloads_trans [OF k1 new(3)] a(2) s(1) by simp
    moreover have "strdup (W a) h = Some (W q, h1\<lparr>hmem := m2\<rparr>)"
      using m sl False by (simp add: strdup_def Let_def n1 m2_def q_def del: of_nat_Suc)
    moreover have "W q \<noteq> 0" using False by (simp add: q_def)
    ultimately have "strdup (W a) h = Some (W q, h1\<lparr>hmem := m2\<rparr>) \<and> W q \<noteq> 0 \<and> length xs < s \<and>
        (q, s) \<notin> L \<and> heap_holds (h1\<lparr>hmem := m2\<rparr>) (insert (q, s) L) \<and>
        cstr (hmem (h1\<lparr>hmem := m2\<rparr>)) (W q) xs \<and> same_payloads L (hmem h) (hmem (h1\<lparr>hmem := m2\<rparr>))"
      using s(1,3) new(1) a(2) by simp
    then show ?thesis by blast
  qed
qed

theorem strdup_copies_witness:
  "\<exists>h L p u a xs. heap_holds h L \<and> (p, u) \<in> L \<and> p \<le> a \<and> a + length xs < p + u \<and>
    cstr (hmem h) (W a) xs \<and> xs = [108, 115] \<and>
    (strdup (W a) h = Some (0, h) \<or>
     (\<exists>q s h'. strdup (W a) h = Some (W q, h') \<and> W q \<noteq> 0 \<and> length xs < s \<and> (q, s) \<notin> L \<and>
      heap_holds h' (insert (q, s) L) \<and> cstr (hmem h') (W q) xs \<and> same_payloads L (hmem h) (hmem h')))"
proof -
  let ?L = "{(0x180014 :: nat, 104 :: nat)}"
  obtain h where h: "heap_reach h ?L" using boot_heap_held by blast
  define g where "g = h\<lparr>hmem := (hmem h)(W 0x180014 := 108, W 0x180015 := 115, W 0x180016 := 0)\<rparr>"
  have "heap_holds g ?L"
    unfolding g_def by (rule heap_write [OF heap_reach_holds [OF h], of "0x180014" 104])
      (auto simp: W_inj [where b = "0x180014", simplified] W_inj [where b = "0x180015", simplified]
        W_inj [where b = "0x180016", simplified])
  moreover have "cstr (hmem g) (W 0x180014) [108, 115]" by (simp add: g_def)
  ultimately show ?thesis using strdup_copies [of g ?L "0x180014" 104 "0x180014" "[108, 115]"]
    by (intro exI [of _ g] exI [of _ ?L] exI [of _ "0x180014"] exI [of _ 104] exI [of _ "[108, 115]"]) auto
qed

end
