(* ===== verification/Printf.thy ===== *)
theory Printf
  imports CString
begin

text \<open>
  Formatted output: \<^verbatim>\<open>libc/printf.c\<close>. A variable argument list is the sequence of words
  on the caller's stack. Characters go either into a buffer in memory or to the terminal,
  whose output is kept as the list of characters written. The loops of \<open>vsnprintf\<close> and
  \<open>vprintf\<close> are the same text in the source and one function here. The lemmas give the
  formatted text as a function of the format string and the arguments, and that
  \<open>vsnprintf\<close> stores exactly its prefix that fits.
\<close>

section \<open>Emitting characters\<close>

record outbuf =
  buf :: u32
  osize :: u32
  pos :: u32
  total :: u32
  terminal :: bool

record console =
  cmem :: mem
  tty :: bytes

definition console_putc :: "u8 \<Rightarrow> console \<Rightarrow> console" where
  "console_putc c s = s\<lparr>tty := tty s @ [c]\<rparr>"

definition emit :: "u8 \<Rightarrow> outbuf \<times> console \<Rightarrow> outbuf \<times> console" where
  "emit c = (\<lambda>(out, s).
     let (out, s) =
       (if terminal out then (out, console_putc c s)
        else if buf out \<noteq> 0 \<and> osize out > 0 \<and> pos out + 1 < osize out
        then (out\<lparr>pos := pos out + 1\<rparr>, s\<lparr>cmem := (cmem s)(buf out + pos out := c)\<rparr>)
        else (out, s))
     in (out\<lparr>total := total out + 1\<rparr>, s))"

definition emit_lit :: "bytes \<Rightarrow> outbuf \<times> console \<Rightarrow> outbuf \<times> console" where
  "emit_lit = fold emit"

partial_function (option) emit_str_from :: "u32 \<Rightarrow> outbuf \<times> console \<Rightarrow> (outbuf \<times> console) option" where
  "emit_str_from p st =
     (let c = cmem (snd st) p in if c \<noteq> 0 then emit_str_from (p + 1) (emit c st) else Some st)"

definition emit_str :: "u32 \<Rightarrow> outbuf \<times> console \<Rightarrow> (outbuf \<times> console) option" where
  "emit_str p st = (if p = 0 then Some (emit_lit (lit ''(null)'') st) else emit_str_from p st)"

definition digit_char :: "bool \<Rightarrow> nat \<Rightarrow> u8" where
  "digit_char upper d = lit (if upper then ''0123456789ABCDEF'' else ''0123456789abcdef'') ! d"

partial_function (option) number_digits :: "u32 \<Rightarrow> u32 \<Rightarrow> bool \<Rightarrow> bytes \<Rightarrow> bytes option" where
  "number_digits value base upper tmp =
     (if value \<noteq> 0
      then number_digits (value div base) base upper (tmp @ [digit_char upper (unat (value mod base))])
      else Some tmp)"

definition emit_number ::
  "u32 \<Rightarrow> u32 \<Rightarrow> bool \<Rightarrow> bool \<Rightarrow> outbuf \<times> console \<Rightarrow> (outbuf \<times> console) option" where
  "emit_number value base sign upper st =
     (let (st, value) = (if sign \<and> sint value < 0 then (emit 45 st, - value) else (st, value)) in
      if value = 0 then Some (emit 48 st)
      else map_option (\<lambda>tmp. fold emit (rev tmp) st) (number_digits value base upper []))"

section \<open>The format loop\<close>

definition fmt_directive ::
  "(nat \<Rightarrow> u32) \<Rightarrow> nat \<Rightarrow> u8 \<Rightarrow> outbuf \<times> console \<Rightarrow> (nat \<times> outbuf \<times> console) option" where
  "fmt_directive va i c st =
     (if c = 37 then Some (i, emit 37 st)
      else if c = 99 then Some (i + 1, emit (ucast (va i)) st)
      else if c = 115 then map_option (Pair (i + 1)) (emit_str (va i) st)
      else if c = 100 \<or> c = 105 then map_option (Pair (i + 1)) (emit_number (va i) 10 True False st)
      else if c = 117 then map_option (Pair (i + 1)) (emit_number (va i) 10 False False st)
      else if c = 120 then map_option (Pair (i + 1)) (emit_number (va i) 16 False False st)
      else if c = 88 then map_option (Pair (i + 1)) (emit_number (va i) 16 False True st)
      else if c = 112
      then map_option (Pair (i + 1)) (emit_number (va i) 16 False False (emit_lit (lit ''0x'') st))
      else Some (i, emit c (emit 37 st)))"

partial_function (option) fmt_loop ::
  "(nat \<Rightarrow> u32) \<Rightarrow> nat \<Rightarrow> u32 \<Rightarrow> outbuf \<times> console \<Rightarrow> (outbuf \<times> console) option" where
  "fmt_loop va i p st =
     (let c = cmem (snd st) p in
      if c = 0 then Some st
      else if c \<noteq> 37 then fmt_loop va i (p + 1) (emit c st)
      else let p = p + 1;
               p = (if cmem (snd st) p = 108 then p + 1 else p)
           in Option.bind (fmt_directive va i (cmem (snd st) p) st)
                (\<lambda>(i, st). fmt_loop va i (p + 1) st))"

definition vsnprintf ::
  "u32 \<Rightarrow> u32 \<Rightarrow> u32 \<Rightarrow> (nat \<Rightarrow> u32) \<Rightarrow> console \<Rightarrow> (u32 \<times> console) option" where
  "vsnprintf b sz fmt args s =
     Option.bind (fmt_loop args 0 fmt (\<lparr>buf = b, osize = sz, pos = 0, total = 0, terminal = False\<rparr>, s))
       (\<lambda>(out, s).
          let s = (if b \<noteq> 0 \<and> sz > 0
                   then s\<lparr>cmem := (cmem s)(b + (if pos out < sz then pos out else sz - 1) := 0)\<rparr>
                   else s)
          in Some (total out, s))"

definition snprintf ::
  "u32 \<Rightarrow> u32 \<Rightarrow> u32 \<Rightarrow> (nat \<Rightarrow> u32) \<Rightarrow> console \<Rightarrow> (u32 \<times> console) option" where
  "snprintf b sz fmt args s = vsnprintf b sz fmt args s"

definition vprintf :: "u32 \<Rightarrow> (nat \<Rightarrow> u32) \<Rightarrow> console \<Rightarrow> (u32 \<times> console) option" where
  "vprintf fmt args s =
     map_option (\<lambda>(out, s). (total out, s))
       (fmt_loop args 0 fmt (\<lparr>buf = 0, osize = 0, pos = 0, total = 0, terminal = True\<rparr>, s))"

definition printf :: "u32 \<Rightarrow> (nat \<Rightarrow> u32) \<Rightarrow> console \<Rightarrow> (u32 \<times> console) option" where
  "printf fmt args s = vprintf fmt args s"

definition putchar :: "u32 \<Rightarrow> console \<Rightarrow> console" where
  "putchar ch s = console_putc (ucast ch) s"

partial_function (option) console_write :: "u32 \<Rightarrow> console \<Rightarrow> console option" where
  "console_write str s =
     (if cmem s str \<noteq> 0 then console_write (str + 1) (console_putc (cmem s str) s) else Some s)"

definition puts :: "u32 \<Rightarrow> console \<Rightarrow> console option" where
  "puts str s = map_option (console_putc 10) (console_write str s)"

section \<open>The text of a format\<close>

fun nat_digits :: "nat \<Rightarrow> bool \<Rightarrow> nat \<Rightarrow> bytes" where
  "nat_digits base upper n =
     (if base < 2 \<or> n < base then [digit_char upper n]
      else nat_digits base upper (n div base) @ [digit_char upper (n mod base)])"

declare nat_digits.simps [simp del]

definition number_text :: "nat \<Rightarrow> bool \<Rightarrow> bool \<Rightarrow> u32 \<Rightarrow> bytes" where
  "number_text base sign upper v =
     (if sign \<and> sint v < 0 then 45 # nat_digits base upper (unat (- v))
      else nat_digits base upper (unat v))"

definition directive_text :: "(u32 \<rightharpoonup> bytes) \<Rightarrow> u32 \<Rightarrow> u8 \<Rightarrow> bytes option" where
  "directive_text str a c =
     (if c = 37 then Some [37]
      else if c = 99 then Some [ucast a]
      else if c = 115 then (if a = 0 then Some (lit ''(null)'') else str a)
      else if c = 100 \<or> c = 105 then Some (number_text 10 True False a)
      else if c = 117 then Some (number_text 10 False False a)
      else if c = 120 then Some (number_text 16 False False a)
      else if c = 88 then Some (number_text 16 False True a)
      else if c = 112 then Some (lit ''0x'' @ number_text 16 False False a)
      else Some [37, c])"

definition takes_arg :: "u8 \<Rightarrow> bool" where
  "takes_arg c \<longleftrightarrow> c \<in> {99, 115, 100, 105, 117, 120, 88, 112}"

definition skip_l :: "bytes \<Rightarrow> bytes" where
  "skip_l cs = (if cs \<noteq> [] \<and> hd cs = 108 then tl cs else cs)"

lemma length_skip_l: "skip_l cs = d # ds \<Longrightarrow> length ds < Suc (length cs)"
  by (cases cs) (auto simp: skip_l_def split: if_splits)

function format_text :: "(u32 \<rightharpoonup> bytes) \<Rightarrow> (nat \<Rightarrow> u32) \<Rightarrow> nat \<Rightarrow> bytes \<Rightarrow> bytes option" where
  "format_text str va i [] = Some []"
| "format_text str va i (c # cs) =
     (if c \<noteq> 37 then map_option (Cons c) (format_text str va i cs)
      else case skip_l cs of
          [] \<Rightarrow> None
        | d # ds \<Rightarrow> Option.bind (directive_text str (va i) d) (\<lambda>t. map_option ((@) t)
            (format_text str va (if takes_arg d then i + 1 else i) ds)))"
  by pat_completeness auto

termination
  by (relation "measure (\<lambda>(str, va, i, cs). length cs)") (auto dest: length_skip_l)

section \<open>Numbers\<close>

lemma number_digits_spec:
  assumes "2 \<le> unat base" and "v \<noteq> 0"
  shows "number_digits v base upper tmp = Some (tmp @ rev (nat_digits (unat base) upper (unat v)))"
  using assms(2)
proof (induction "unat v" arbitrary: v tmp rule: less_induct)
  case less
  have d: "unat (v div base) = unat v div unat base" "unat (v mod base) = unat v mod unat base"
    by (simp_all add: unat_div unat_mod)
  have pos: "0 < unat v" using less.prems by (simp add: word_neq_0_conv word_less_nat_alt)
  show ?case
  proof (cases "v div base = 0")
    case True
    then have "unat v div unat base = 0" using d(1) by simp
    then have "unat v < unat base" using assms(1) by (simp add: div_eq_0_iff)
    then show ?thesis using less.prems d True
      by (subst number_digits.simps) (simp add: number_digits.simps [of 0] nat_digits.simps [of "unat base" _ "unat v"])
  next
    case False
    have "unat (v div base) < unat v" using pos assms(1) d(1) by simp
    note ih = less.hyps [OF this False]
    have "\<not> unat v < unat base" using False d(1) by (metis div_less unat_eq_0)
    then have "nat_digits (unat base) upper (unat v) =
        nat_digits (unat base) upper (unat (v div base)) @ [digit_char upper (unat (v mod base))]"
      using assms(1) d by (subst nat_digits.simps) simp
    then show ?thesis using less.prems ih by (subst number_digits.simps) simp
  qed
qed

lemma digit_char_0: "digit_char upper 0 = 48"
  by (simp add: digit_char_def lit_def)

lemma emit_number_spec:
  assumes "2 \<le> unat base"
  shows "emit_number v base sign upper st = Some (fold emit (number_text (unat base) sign upper v) st)"
proof -
  have "(- v = 0) = (v = 0)" by simp
  moreover have "nat_digits (unat base) upper 0 = [48]"
    using assms by (subst nat_digits.simps) (simp add: digit_char_0)
  ultimately show ?thesis
    using number_digits_spec [OF assms, of v upper "[]"] number_digits_spec [OF assms, of "- v" upper "[]"]
    by (auto simp: emit_number_def number_text_def Let_def)
qed

section \<open>What emitting changes\<close>

definition touches :: "outbuf \<Rightarrow> u32 \<Rightarrow> bool" where
  "touches out x \<longleftrightarrow> \<not> terminal out \<and> in_range (buf out) (unat (osize out)) x"

definition out_ok :: "outbuf \<Rightarrow> bool" where
  "out_ok out \<longleftrightarrow> pos out = 0 \<or> pos out < osize out"

definition same_target :: "outbuf \<Rightarrow> outbuf \<Rightarrow> bool" where
  "same_target out out' \<longleftrightarrow> buf out' = buf out \<and> osize out' = osize out \<and> terminal out' = terminal out"

lemma emit_frame:
  assumes "out_ok (fst st)"
  shows "out_ok (fst (emit c st))" and "same_target (fst st) (fst (emit c st))"
    and "\<not> touches (fst st) x \<Longrightarrow> cmem (snd (emit c st)) x = cmem (snd st) x"
proof -
  obtain out s where st: "st = (out, s)" by (cases st)
  show "out_ok (fst (emit c st))" "same_target (fst st) (fst (emit c st))"
    using assms by (auto simp: st emit_def out_ok_def same_target_def)
  have "pos out < osize out" if "osize out > 0" using assms that by (auto simp: st out_ok_def)
  then show "\<not> touches (fst st) x \<Longrightarrow> cmem (snd (emit c st)) x = cmem (snd st) x"
    by (auto simp: st emit_def touches_def in_range_def console_putc_def word_less_nat_alt)
qed

lemma same_target_touches: "same_target out out' \<Longrightarrow> touches out' = touches out"
  by (simp add: same_target_def touches_def fun_eq_iff)

lemma emits_frame:
  assumes "out_ok (fst st)"
  shows "out_ok (fst (fold emit zs st)) \<and> same_target (fst st) (fst (fold emit zs st)) \<and>
    (\<forall>x. \<not> touches (fst st) x \<longrightarrow> cmem (snd (fold emit zs st)) x = cmem (snd st) x)"
  using assms
proof (induction zs arbitrary: st)
  case (Cons z zs)
  note e = emit_frame [OF Cons.prems, where c = z]
  show ?case using Cons.IH [OF e(1)] e(2,3) same_target_touches [OF e(2)] by (simp add: same_target_def)
qed (simp add: same_target_def)

text \<open>A string that the output does not overlap.\<close>

definition safe :: "outbuf \<times> console \<Rightarrow> u32 \<Rightarrow> bytes \<Rightarrow> bool" where
  "safe st p xs \<longleftrightarrow> cstr (cmem (snd st)) p xs \<and> (\<forall>i \<le> length xs. \<not> touches (fst st) (p + W i))"

lemma safe_emits:
  assumes "out_ok (fst st)" and "safe st p xs"
  shows "safe (fold emit zs st) p xs"
proof -
  note f = emits_frame [OF assms(1), of zs]
  then show ?thesis
    using assms(2) same_target_touches [of "fst st" "fst (fold emit zs st)"]
    by (auto simp: safe_def intro: cstr_cong)
qed

lemma safe_emit: "out_ok (fst st) \<Longrightarrow> safe st p xs \<Longrightarrow> safe (emit c st) p xs"
  using safe_emits [of st p xs "[c]"] by simp

lemma safe_Cons:
  assumes "safe st p (x # xs)"
  shows "cmem (snd st) p = x \<and> x \<noteq> 0 \<and> safe st (p + 1) xs"
proof -
  have "\<not> touches (fst st) (p + 1 + W i)" if "i \<le> length xs" for i
  proof -
    have "\<not> touches (fst st) (p + W (Suc i))" using assms that unfolding safe_def by auto
    then show ?thesis by (simp only: W_Suc) simp
  qed
  then show ?thesis using assms by (auto simp: safe_def)
qed

lemma emit_str_from_spec:
  "out_ok (fst st) \<Longrightarrow> safe st p xs \<Longrightarrow> emit_str_from p st = Some (fold emit xs st)"
proof (induction xs arbitrary: p st)
  case Nil
  then show ?case by (subst emit_str_from.simps) (simp add: safe_def)
next
  case (Cons x xs)
  note s = safe_Cons [OF Cons.prems(2)]
  have "emit_str_from (p + 1) (emit x st) = Some (fold emit xs (emit x st))"
    using Cons.prems(1) s by (intro Cons.IH safe_emit emit_frame) auto
  then show ?case using s by (subst emit_str_from.simps) simp
qed

lemma fmt_directive_spec:
  assumes "out_ok (fst st)" and "\<And>a ys. str a = Some ys \<Longrightarrow> safe st a ys"
    and "directive_text str (va i) d = Some t"
  shows "fmt_directive va i d st = Some (if takes_arg d then i + 1 else i, fold emit t st)"
proof -
  have "emit_str (va i) st = Some (fold emit t st)" if "d = 115"
    using assms that by (auto simp: emit_str_def emit_lit_def directive_text_def intro: emit_str_from_spec split: if_splits)
  moreover have "emit_number v 10 sign upper st' = Some (fold emit (number_text 10 sign upper v) st')"
    "emit_number v 16 sign upper st' = Some (fold emit (number_text 16 sign upper v) st')" for v sign upper st'
    using emit_number_spec [of 10 v sign upper st'] emit_number_spec [of 16 v sign upper st'] by simp_all
  ultimately show ?thesis
    using assms(3) by (auto simp: fmt_directive_def directive_text_def takes_arg_def emit_lit_def split: if_splits)
qed

lemma fmt_loop_spec:
  assumes "format_text str va i xs = Some zs" and "out_ok (fst st)" and "safe st p xs"
    and "\<And>a ys. str a = Some ys \<Longrightarrow> safe st a ys"
  shows "fmt_loop va i p st = Some (fold emit zs st)"
  using assms
proof (induction str va i xs arbitrary: zs p st rule: format_text.induct)
  case (1 str va i)
  then show ?case by (subst fmt_loop.simps) (simp add: safe_def)
next
  case (2 str va i c cs)
  note c = safe_Cons [OF "2.prems"(3)]
  show ?case
  proof (cases "c = 37")
    case False
    then obtain zs' where zs: "format_text str va i cs = Some zs'" "zs = c # zs'"
      using "2.prems"(1) by auto
    have "fmt_loop va i (p + 1) (emit c st) = Some (fold emit zs' (emit c st))"
      using "2.prems"(2,4) c zs(1) False by (intro "2.IH"(1) safe_emit emit_frame) auto
    then show ?thesis using c False zs(2) by (subst fmt_loop.simps) simp
  next
    case True
    then obtain d ds t zs' where ds: "skip_l cs = d # ds" and t: "directive_text str (va i) d = Some t"
      and zs: "format_text str va (if takes_arg d then i + 1 else i) ds = Some zs'" "zs = t @ zs'"
      using "2.prems"(1) by (auto split: list.splits simp: bind_eq_Some_conv)
    define p1 where "p1 = (if cmem (snd st) (p + 1) = 108 then p + 1 + 1 else p + 1)"
    have p1: "safe st p1 (d # ds)"
    proof (cases cs)
      case (Cons c' cs')
      then have "cmem (snd st) (p + 1) = c'" "safe st (p + 1 + 1) cs'" using c safe_Cons by blast+
      then show ?thesis using c ds Cons by (auto simp: p1_def skip_l_def split: if_splits)
    qed (use ds in \<open>simp add: skip_l_def\<close>)
    note d = safe_Cons [OF p1]
    have dir: "fmt_directive va i d st = Some (if takes_arg d then i + 1 else i, fold emit t st)"
      using "2.prems"(2,4) t by (rule fmt_directive_spec)
    have "fmt_loop va (if takes_arg d then i + 1 else i) (p1 + 1) (fold emit t st) = Some (fold emit zs' (fold emit t st))"
      using "2.prems"(2,4) d emits_frame
      by (intro "2.IH"(2) [OF _ ds t zs(1)] safe_emits) (auto simp: True)
    then show ?thesis
      using c d dir True by (subst fmt_loop.simps) (simp add: Let_def p1_def [symmetric] zs(2))
  qed
qed

section \<open>The buffer\<close>

text \<open>Starting from an empty buffer, the state after emitting \<open>zs\<close>.\<close>

lemma emits_buffer:
  assumes "b \<noteq> 0" and sz: "0 < unat sz"
  shows "\<exists>s'. fold emit zs (\<lparr>buf = b, osize = sz, pos = 0, total = 0, terminal = False\<rparr>, s) =
      (\<lparr>buf = b, osize = sz, pos = W (min (length zs) (unat sz - 1)), total = W (length zs), terminal = False\<rparr>, s') \<and>
    (\<forall>i < min (length zs) (unat sz - 1). cmem s' (b + W i) = zs ! i) \<and> tty s' = tty s"
    (is "\<exists>s'. fold emit zs ?st0 = (?out zs, s') \<and> ?bytes zs s' \<and> tty s' = tty s")
proof (induction zs rule: rev_induct)
  case (snoc z zs)
  then obtain s' where st: "fold emit zs ?st0 = (?out zs, s')" and bytes: "?bytes zs s'" and tty: "tty s' = tty s"
    by blast
  have pos: "0 < sz" using sz by (simp add: word_less_nat_alt)
  show ?case
  proof (cases "length zs < unat sz - 1")
    case True
    then have k: "min (length zs) (unat sz - 1) = length zs" "min (length (zs @ [z])) (unat sz - 1) = Suc (length zs)"
      by simp_all
    have big: "Suc (length zs) < 2 ^ 32" using True u32_lt [of sz] by simp
    have "unat (W (Suc (length zs))) = Suc (length zs)" using big by (rule unat_of_nat_u32)
    then have lt: "W (length zs) + 1 < sz" using True by (simp add: word_less_nat_alt add.commute)
    have "b + W i \<noteq> b + W (length zs)" if "i < length zs" for i
      by (rule W_apart [THEN not_sym, OF that]) (use big in simp)
    then have "?bytes (zs @ [z]) (s'\<lparr>cmem := (cmem s')(b + W (length zs) := z)\<rparr>)"
      using bytes unfolding k by (auto simp: nth_append less_Suc_eq)
    moreover have "emit z (?out zs, s') = (?out (zs @ [z]), s'\<lparr>cmem := (cmem s')(b + W (length zs) := z)\<rparr>)"
      using lt assms(1) pos unfolding k by (simp add: emit_def add.commute)
    moreover from this have "fold emit (zs @ [z]) ?st0 = (?out (zs @ [z]), s'\<lparr>cmem := (cmem s')(b + W (length zs) := z)\<rparr>)"
      using st by simp
    moreover have "tty (s'\<lparr>cmem := (cmem s')(b + W (length zs) := z)\<rparr>) = tty s" using tty by simp
    ultimately show ?thesis by blast
  next
    case False
    then have k: "min (length zs) (unat sz - 1) = unat sz - 1" "min (length (zs @ [z])) (unat sz - 1) = unat sz - 1"
      by (simp_all add: min_absorb2)
    have "W (unat sz - 1) + 1 = W (Suc (unat sz - 1))" by simp
    also have "Suc (unat sz - 1) = unat sz" using sz by (rule Suc_diff_1)
    finally have "\<not> W (unat sz - 1) + 1 < sz" by simp
    then have "emit z (?out zs, s') = (?out (zs @ [z]), s')" unfolding k by (simp add: emit_def add.commute)
    moreover have "?bytes (zs @ [z]) s'" using bytes False unfolding k by (simp add: nth_append)
    moreover from calculation have "fold emit (zs @ [z]) ?st0 = (?out (zs @ [z]), s')" using st by simp
    ultimately show ?thesis using tty by blast
  qed
qed simp

text \<open>C22. \<open>vsnprintf\<close> with a buffer returns, for every format string whose last character is
  not the start of a directive, when neither the format nor the strings printed overlap the
  buffer. It stores as much of the formatted text as fits before a final zero byte, writes no
  byte outside the buffer, and returns the length of the whole text.\<close>

theorem vsnprintf_stores:
  assumes b: "b \<noteq> 0" "sz > 0" and fmt: "format_text str va 0 xs = Some zs"
    and safe: "cstr (cmem s) p xs" "\<forall>i \<le> length xs. \<not> in_range b (unat sz) (p + W i)"
    and strs: "\<forall>a ys. str a = Some ys \<longrightarrow>
      cstr (cmem s) a ys \<and> (\<forall>i \<le> length ys. \<not> in_range b (unat sz) (a + W i))"
  shows "\<exists>s'. vsnprintf b sz p va s = Some (W (length zs), s') \<and>
    (let k = min (length zs) (unat sz - 1) in
       (\<forall>i < k. cmem s' (b + W i) = zs ! i) \<and> cmem s' (b + W k) = 0) \<and>
    (\<forall>x. \<not> in_range b (unat sz) x \<longrightarrow> cmem s' x = cmem s x) \<and> tty s' = tty s"
proof -
  let ?o = "\<lparr>buf = b, osize = sz, pos = 0, total = 0, terminal = False\<rparr>"
  define k where "k = min (length zs) (unat sz - 1)"
  have sz: "0 < unat sz" "unat sz < 2 ^ 32" using b(2) u32_lt [of sz] by (simp_all add: word_less_nat_alt)
  have ok: "out_ok (fst (?o, s))" by (simp add: out_ok_def)
  have loop: "fmt_loop va 0 p (?o, s) = Some (fold emit zs (?o, s))"
    by (rule fmt_loop_spec [OF fmt ok]) (use safe strs in \<open>auto simp: safe_def touches_def\<close>)
  obtain out s1 where st: "fold emit zs (?o, s) = (out, s1)"
    and out: "pos out = W k" "total out = W (length zs)"
    and bytes: "\<forall>i < k. cmem s1 (b + W i) = zs ! i" "tty s1 = tty s"
    using emits_buffer [OF b(1) sz(1), of zs s] by (auto simp: k_def)
  have k: "k < unat sz" "unat (W k) = k" using sz by (simp_all add: k_def unat_of_nat_u32)
  then have "pos out < sz" using out by (simp add: word_less_nat_alt)
  then have run: "vsnprintf b sz p va s = Some (W (length zs), s1\<lparr>cmem := (cmem s1)(b + W k := 0)\<rparr>)"
    using loop st out b by (simp add: vsnprintf_def Let_def)
  have frame: "cmem s1 x = cmem s x" if "\<not> in_range b (unat sz) x" for x
    using emits_frame [OF ok, of zs] st that by (simp add: touches_def)
  have "in_range b (unat sz) (b + W k)" using k by (simp add: in_range_def)
  moreover have "b + W i \<noteq> b + W k" if "i < k" for i
    by (rule W_apart [THEN not_sym, OF that]) (use k sz in simp)
  ultimately show ?thesis
    using run bytes frame unfolding Let_def k_def [symmetric] by auto
qed

text \<open>A format that ends in a bare \<^verbatim>\<open>%\<close> is read past its terminating zero byte: the byte
  after it is taken for the next character.\<close>

lemma fmt_loop_overrun:
  assumes "cmem (snd st) p = 37" and "cmem (snd st) (p + 1) = 0"
  shows "fmt_loop va i p st = fmt_loop va i (p + 1 + 1) (emit 0 (emit 37 st))"
  using assms fmt_loop.simps [of va i p st] by (simp add: Let_def fmt_directive_def)

section \<open>Printing and reading numbers\<close>

lemma digit_char_dec:
  assumes "d < 10"
  shows "digit_char upper d = word_of_nat (48 + d)"
proof -
  have "d \<in> {0, 1, 2, 3, 4, 5, 6, 7, 8, 9}" using assms by auto
  then show ?thesis by (auto simp: digit_char_def lit_def)
qed

lemma sint_digit:
  assumes "d < 10"
  shows "sint (word_of_nat (48 + d) :: u8) = 48 + int d"
proof -
  have "d \<in> {0, 1, 2, 3, 4, 5, 6, 7, 8, 9}" using assms by auto
  then show ?thesis by auto
qed

lemma digit_of_dec: "d < 10 \<Longrightarrow> digit_of (sint (digit_char upper d)) = Some (int d)"
  by (simp add: digit_char_dec sint_digit digit_of_def isdigit_def del: of_nat_add)

fun dec_digits :: "nat \<Rightarrow> nat list" where
  "dec_digits n = (if n < 10 then [n] else dec_digits (n div 10) @ [n mod 10])"

declare dec_digits.simps [simp del]

lemma nat_digits_dec: "nat_digits 10 upper n = map (digit_char upper) (dec_digits n)"
proof (induction n rule: dec_digits.induct)
  case (1 n)
  then show ?case by (subst nat_digits.simps, subst dec_digits.simps) simp
qed

lemma dec_digits_range: "d \<in> set (dec_digits n) \<Longrightarrow> d < 10"
proof (induction n rule: dec_digits.induct)
  case (1 n)
  from 1(2) have "d \<in> set (if n < 10 then [n] else dec_digits (n div 10) @ [n mod 10])"
    by (subst (asm) dec_digits.simps)
  then show ?case using 1(1) by (auto split: if_splits)
qed

lemma dec_digits_value: "foldl (\<lambda>v d. v * 10 + W d) 0 (dec_digits n) = W n"
proof (induction n rule: dec_digits.induct)
  case (1 n)
  have "W (n div 10) * 10 + W (n mod 10) = W (n div 10 * 10 + n mod 10)" by (simp only: of_nat_add of_nat_mult) simp
  then show ?case using 1 by (subst dec_digits.simps) simp
qed

lemma dec_digits_ne: "dec_digits n \<noteq> []"
  by (subst dec_digits.simps) simp

lemma strtol_digits_spec:
  assumes "\<And>d. d \<in> set ds \<Longrightarrow> d < 10" and "cstr m q (map (digit_char upper) ds)"
  shows "strtol_digits m q 10 v = Some (foldl (\<lambda>v d. v * 10 + W d) v ds, q + W (length ds))"
  using assms
proof (induction ds arbitrary: q v)
  case Nil
  then show ?case by (subst strtol_digits.simps) simp
next
  case (Cons d ds)
  have d: "digit_of (char_at m q) = Some (int d)" "d < 10"
    using Cons.prems digit_of_dec [of d upper] by (auto simp: char_at_def)
  have "strtol_digits m (q + 1) 10 (v * 10 + W d) =
      Some (foldl (\<lambda>v d. v * 10 + W d) (v * 10 + W d) ds, q + 1 + W (length ds))"
    using Cons.prems by (intro Cons.IH) auto
  then show ?case using Cons.prems(2) d by (subst strtol_digits.simps) (simp add: algebra_simps)
qed

lemma digit_plain:
  assumes "d < 10"
  shows "digit_char upper d \<noteq> 45" "digit_char upper d \<noteq> 43" "\<not> isspace (sint (digit_char upper d))"
proof -
  have "d \<in> {0, 1, 2, 3, 4, 5, 6, 7, 8, 9}" using assms by auto
  then show "digit_char upper d \<noteq> 45" "digit_char upper d \<noteq> 43" "\<not> isspace (sint (digit_char upper d))"
    by (auto simp: digit_char_def lit_def isspace_def)
qed


theorem vsnprintf_stores_witness:
  "\<exists>s s'. cstr (cmem s) 100 [120, 37, 100] \<and> vsnprintf 200 2 100 (\<lambda>_. 7) s = Some (2, s') \<and>
    cmem s' 200 = 120 \<and> cmem s' 201 = 0 \<and> cmem s' 202 = cmem s 202"
proof -
  define s where "s = \<lparr>cmem = (\<lambda>_. 0)(100 := 120, 101 := 37, 102 := 100), tty = []\<rparr>"
  have c: "cstr (cmem s) 100 [120, 37, 100]" by (simp add: s_def)
  have t: "format_text Map.empty (\<lambda>_. 7) 0 [120, 37, 100] = Some [120, 55]"
    by (simp add: skip_l_def directive_text_def number_text_def nat_digits.simps digit_char_def lit_def)
  have "\<forall>i \<le> length [120, 37, 100 :: u8]. \<not> in_range 200 (unat (2 :: u32)) (100 + W i)"
    by (auto simp: in_range_def le_Suc_eq numeral_3_eq_3)
  from vsnprintf_stores [OF _ _ t c this] obtain s' where
    "vsnprintf 200 2 100 (\<lambda>_. 7) s = Some (W 2, s')" "cmem s' 200 = 120" "cmem s' 201 = 0"
    "\<forall>x. \<not> in_range 200 (unat (2 :: u32)) x \<longrightarrow> cmem s' x = cmem s x"
    by (auto simp: Let_def)
  moreover from this(4) have "cmem s' 202 = cmem s 202" by (auto simp: in_range_def)
  ultimately show ?thesis using c by auto
qed


end
