(* ===== verification/Fallible.thy ===== *)
theory Fallible
  imports Prelude
begin

text \<open>
  Fallible operations on a state: an operation yields either an error or a value, and in both
  cases the state it leaves, since the code keeps what it did before it failed. Errors are the
  negative numbers the code returns, and one more for what C leaves undefined: an access past
  the end of a fixed-size buffer, or to bytes of one that were never written.
\<close>

section \<open>Errors\<close>

datatype err = Errno int | Overflow

abbreviation (input) EPERM :: int where "EPERM \<equiv> 1"
abbreviation (input) ENOENT :: int where "ENOENT \<equiv> 2"
abbreviation (input) EIO :: int where "EIO \<equiv> 5"
abbreviation (input) EBADF :: int where "EBADF \<equiv> 9"
abbreviation (input) EACCES :: int where "EACCES \<equiv> 13"
abbreviation (input) EEXIST :: int where "EEXIST \<equiv> 17"
abbreviation (input) EXDEV :: int where "EXDEV \<equiv> 18"
abbreviation (input) ENOTDIR :: int where "ENOTDIR \<equiv> 20"
abbreviation (input) EISDIR :: int where "EISDIR \<equiv> 21"
abbreviation (input) EINVAL :: int where "EINVAL \<equiv> 22"
abbreviation (input) EMFILE :: int where "EMFILE \<equiv> 24"
abbreviation (input) ENOSPC :: int where "ENOSPC \<equiv> 28"
abbreviation (input) EROFS :: int where "EROFS \<equiv> 30"
abbreviation (input) ENAMETOOLONG :: int where "ENAMETOOLONG \<equiv> 36"
abbreviation (input) ENOSYS :: int where "ENOSYS \<equiv> 38"
abbreviation (input) ENOTEMPTY :: int where "ENOTEMPTY \<equiv> 39"
abbreviation (input) ELOOP :: int where "ELOOP \<equiv> 40"

text \<open>Report any error number as another one; what is undefined stays undefined.\<close>

fun errno_or :: "err \<Rightarrow> int \<Rightarrow> err" where
  "errno_or (Errno _) c = Errno c"
| "errno_or Overflow c = Overflow"

section \<open>Operations\<close>

type_synonym ('a, 's) op = "'s \<Rightarrow> (err + 'a) \<times> 's"

definition ret :: "'a \<Rightarrow> ('a, 's) op" where
  "ret x s = (Inr x, s)"

definition fail :: "err \<Rightarrow> ('a, 's) op" where
  "fail e s = (Inl e, s)"

definition bindE :: "('a, 's) op \<Rightarrow> ('a \<Rightarrow> ('b, 's) op) \<Rightarrow> ('b, 's) op" where
  "bindE m k s = (case m s of (Inl e, s) \<Rightarrow> (Inl e, s) | (Inr x, s) \<Rightarrow> k x s)"

text \<open>Run an operation and go on with its outcome, whichever it is.\<close>

definition tryE :: "('a, 's) op \<Rightarrow> (err + 'a \<Rightarrow> ('b, 's) op) \<Rightarrow> ('b, 's) op" where
  "tryE m k s = (case m s of (r, s) \<Rightarrow> k r s)"

definition guardE :: "bool \<Rightarrow> err \<Rightarrow> (unit, 's) op" where
  "guardE b e = (if b then ret () else fail e)"

definition modifyE :: "('s \<Rightarrow> 's) \<Rightarrow> (unit, 's) op" where
  "modifyE f s = (Inr (), f s)"

definition getE :: "('s \<Rightarrow> 'a) \<Rightarrow> ('a, 's) op" where
  "getE f s = (Inr (f s), s)"

definition as_errno :: "int \<Rightarrow> ('a, 's) op \<Rightarrow> ('a, 's) op" where
  "as_errno c m s = (case m s of (Inl e, s) \<Rightarrow> (Inl (errno_or e c), s) | (Inr x, s) \<Rightarrow> (Inr x, s))"

text \<open>Run an operation for its success only, and for nothing but its effect.\<close>

definition testE :: "('a, 's) op \<Rightarrow> ('a option, 's) op" where
  "testE m s =
     (case m s of
        (Inl (Errno _), s) \<Rightarrow> (Inr None, s)
      | (Inl Overflow, s) \<Rightarrow> (Inl Overflow, s)
      | (Inr x, s) \<Rightarrow> (Inr (Some x), s))"

definition ignoreE :: "('a, 's) op \<Rightarrow> (unit, 's) op" where
  "ignoreE m s =
     (case m s of
        (Inl (Errno _), s) \<Rightarrow> (Inr (), s)
      | (Inl Overflow, s) \<Rightarrow> (Inl Overflow, s)
      | (Inr x, s) \<Rightarrow> (Inr (), s))"

lemma op_simps [simp]:
  "ret x s = (Inr x, s)" "fail e s = (Inl e, s)" "modifyE f s = (Inr (), f s)" "getE g s = (Inr (g s), s)"
  "guardE True e = ret ()" "guardE False e = fail e"
  by (simp_all add: ret_def fail_def modifyE_def getE_def guardE_def)

lemma bindE_ret [simp]: "bindE (ret x) k = k x"
  by (simp add: bindE_def fun_eq_iff)

lemma bindE_fail [simp]: "bindE (fail e) k = fail e"
  by (simp add: bindE_def fun_eq_iff)

lemma bindE_assoc: "bindE (bindE m k) l = bindE m (\<lambda>x. bindE (k x) l)"
  by (simp add: bindE_def fun_eq_iff split: prod.split sum.split)

lemma bindE_cong [fundef_cong]:
  assumes "m s = m' s" and "\<And>x s'. m' s = (Inr x, s') \<Longrightarrow> k x s' = k' x s'" and "s = t"
  shows "bindE m k s = bindE m' k' t"
  using assms by (auto simp: bindE_def split: prod.split sum.split)

lemma tryE_cong [fundef_cong]:
  assumes "m s = m' s" and "\<And>r s'. m' s = (r, s') \<Longrightarrow> k r s' = k' r s'" and "s = t"
  shows "tryE m k s = tryE m' k' t"
  using assms by (auto simp: tryE_def split: prod.split)

lemma bindE_Inr:
  "bindE m k s = (Inr y, s'') \<longleftrightarrow> (\<exists>x s'. m s = (Inr x, s') \<and> k x s' = (Inr y, s''))"
  by (auto simp: bindE_def split: prod.split sum.split)

lemma bindE_Inl:
  "bindE m k s = (Inl e, s'') \<longleftrightarrow>
     m s = (Inl e, s'') \<or> (\<exists>x s'. m s = (Inr x, s') \<and> k x s' = (Inl e, s''))"
  by (auto simp: bindE_def split: prod.split sum.split)

lemma bindE_run: "m s = (Inr x, s') \<Longrightarrow> bindE m k s = k x s'" "m s = (Inl e, s') \<Longrightarrow> bindE m k s = (Inl e, s')"
  by (simp_all add: bindE_def)

lemma tryE_run: "m s = (r, s') \<Longrightarrow> tryE m k s = k r s'"
  by (simp add: tryE_def)

lemma bindE_guard [simp]: "bindE (guardE b e) k = (if b then k () else fail e)"
  by (simp add: guardE_def)

lemma bindE_modify [simp]: "bindE (modifyE f) k s = k () (f s)"
  by (simp add: bindE_def)

lemma bindE_get [simp]: "bindE (getE f) k s = k (f s) s"
  by (simp add: bindE_def)

text \<open>An invariant of the state that an operation keeps, whether it fails or not.\<close>

definition keeps_inv :: "('s \<Rightarrow> bool) \<Rightarrow> ('a, 's) op \<Rightarrow> bool" where
  "keeps_inv I m \<longleftrightarrow> (\<forall>s. I s \<longrightarrow> I (snd (m s)))"

named_theorems keeps_intros

lemma keeps_ret [keeps_intros]: "keeps_inv I (ret x)"
  by (simp add: keeps_inv_def)

lemma keeps_fail [keeps_intros]: "keeps_inv I (fail e)"
  by (simp add: keeps_inv_def)

lemma keeps_get [keeps_intros]: "keeps_inv I (getE f)"
  by (simp add: keeps_inv_def)

lemma keeps_guard [keeps_intros]: "keeps_inv I (guardE b e)"
  by (simp add: keeps_inv_def guardE_def)

lemma keeps_modify: "(\<And>s. I s \<Longrightarrow> I (f s)) \<Longrightarrow> keeps_inv I (modifyE f)"
  by (simp add: keeps_inv_def)

lemma keeps_bind [keeps_intros]:
  "keeps_inv I m \<Longrightarrow> (\<And>x. keeps_inv I (k x)) \<Longrightarrow> keeps_inv I (bindE m k)"
  by (fastforce simp: keeps_inv_def bindE_def split: prod.split sum.split)

lemma keeps_try [keeps_intros]:
  "keeps_inv I m \<Longrightarrow> (\<And>r. keeps_inv I (k r)) \<Longrightarrow> keeps_inv I (tryE m k)"
  by (fastforce simp: keeps_inv_def tryE_def split: prod.split)

lemma keeps_as_errno [keeps_intros]: "keeps_inv I m \<Longrightarrow> keeps_inv I (as_errno c m)"
  by (fastforce simp: keeps_inv_def as_errno_def split: prod.split sum.split)

lemma keeps_test [keeps_intros]: "keeps_inv I m \<Longrightarrow> keeps_inv I (testE m)"
  by (fastforce simp: keeps_inv_def testE_def split: prod.split sum.split err.split)

lemma keeps_ignore [keeps_intros]: "keeps_inv I m \<Longrightarrow> keeps_inv I (ignoreE m)"
  by (fastforce simp: keeps_inv_def ignoreE_def split: prod.split sum.split err.split)

lemma as_errno_Inr: "as_errno c m s = (Inr x, s') \<longleftrightarrow> m s = (Inr x, s')"
  by (auto simp: as_errno_def split: prod.split sum.split)

lemma keeps_if [keeps_intros]:
  "(b \<Longrightarrow> keeps_inv I m) \<Longrightarrow> (\<not> b \<Longrightarrow> keeps_inv I n) \<Longrightarrow> keeps_inv I (if b then m else n)"
  by simp

lemma keepsD: "keeps_inv I m \<Longrightarrow> I s \<Longrightarrow> m s = (r, s') \<Longrightarrow> I s'"
  by (metis keeps_inv_def snd_conv)

section \<open>Loops and operations that cannot fail\<close>

primrec forE :: "'x list \<Rightarrow> ('x \<Rightarrow> (unit, 's) op) \<Rightarrow> (unit, 's) op" where
  "forE [] f = ret ()"
| "forE (x # xs) f = bindE (f x) (\<lambda>_. forE xs f)"

lemma forE_append: "forE (xs @ ys) f = bindE (forE xs f) (\<lambda>_. forE ys f)"
  by (induction xs) (simp_all add: bindE_assoc del: op_simps)

lemma forE_snoc:
  assumes "forE xs f s = (Inr (), t)" and "f x t = (Inr (), u)"
  shows "forE (xs @ [x]) f s = (Inr (), u)"
  using assms by (simp add: forE_append bindE_def)

definition never_fails :: "('s \<Rightarrow> bool) \<Rightarrow> ('a, 's) op \<Rightarrow> bool" where
  "never_fails I m \<longleftrightarrow> (\<forall>s. I s \<longrightarrow> (\<exists>x t. m s = (Inr x, t) \<and> I t))"

named_theorems never_fails_intros

lemma never_fails_ret [never_fails_intros]: "never_fails I (ret x)"
  by (simp add: never_fails_def)

lemma never_fails_get [never_fails_intros]: "never_fails I (getE f)"
  by (simp add: never_fails_def)

lemma never_fails_modify: "(\<And>s. I s \<Longrightarrow> I (f s)) \<Longrightarrow> never_fails I (modifyE f)"
  by (simp add: never_fails_def)

lemma never_fails_bind [never_fails_intros]:
  "never_fails I m \<Longrightarrow> (\<And>x. never_fails I (k x)) \<Longrightarrow> never_fails I (bindE m k)"
  by (fastforce simp: never_fails_def bindE_def)

lemma never_fails_if [never_fails_intros]:
  "(b \<Longrightarrow> never_fails I m) \<Longrightarrow> (\<not> b \<Longrightarrow> never_fails I n) \<Longrightarrow> never_fails I (if b then m else n)"
  by simp

lemma never_fails_for [never_fails_intros]:
  "(\<And>x. x \<in> set xs \<Longrightarrow> never_fails I (f x)) \<Longrightarrow> never_fails I (forE xs f)"
  by (induction xs) (auto intro!: never_fails_intros)

text \<open>Reading the state first makes its properties available.\<close>

lemma never_fails_state: "(\<And>s. I s \<Longrightarrow> \<exists>x t. m s = (Inr x, t) \<and> I t) \<Longrightarrow> never_fails I m"
  by (simp add: never_fails_def)

lemma never_failsD: "never_fails I m \<Longrightarrow> I s \<Longrightarrow> \<exists>x t. m s = (Inr x, t) \<and> I t"
  by (simp add: never_fails_def)

end
