(* ===== verification/Vfs.thy ===== *)
theory Vfs
  imports Fallible
begin

unbundle bit_operations_syntax

text \<open>
  The mount layer: \<^verbatim>\<open>fs/vfs.c\<close>. A path is the list of its bytes. A driver is a table of
  operations on a state of type \<^typ>\<open>'f\<close>, the state of all drivers; an operation a driver
  lacks is \<open>None\<close>. The context of a directory callback has type \<^typ>\<open>'c\<close>. The mount table
  is a list, and a mount is its index there. The fixed-size buffers of the source are kept:
  a copy bounded by a size truncates, one that is not fails with \<^const>\<open>Overflow\<close> when the
  string does not fit.
\<close>

section \<open>Data\<close>

type_synonym path = bytes

abbreviation (input) SLASH :: u8 where "SLASH \<equiv> 47"
abbreviation (input) DOT :: path where "DOT \<equiv> [46]"
abbreviation (input) DOTDOT :: path where "DOTDOT \<equiv> [46, 46]"
abbreviation (input) ROOT :: path where "ROOT \<equiv> [47]"
abbreviation (input) MAX_PATH :: nat where "MAX_PATH \<equiv> 256"
abbreviation (input) MAX_NAME :: nat where "MAX_NAME \<equiv> 64"
abbreviation (input) VFS_MAX_MOUNTS :: nat where "VFS_MAX_MOUNTS \<equiv> 8"
abbreviation (input) MAX_SYMLINK_FOLLOWS :: nat where "MAX_SYMLINK_FOLLOWS \<equiv> 40"
abbreviation (input) RESOLVE_WORK_SIZE :: nat where "RESOLVE_WORK_SIZE \<equiv> 2048"

abbreviation (input) VFS_O_APPEND :: u32 where "VFS_O_APPEND \<equiv> 0x01"

datatype vfs_node_type = VFS_FILE | VFS_DIR | VFS_SYMLINK

record vfs_stat =
  vtype :: vfs_node_type
  vsize :: u32
  vmode :: u16
  st_mode :: u32
  st_uid :: u32
  st_gid :: u32
  st_nlink :: u32
  st_ino :: u32
  st_atime :: u32
  st_mtime :: u32
  st_ctime :: u32
  st_blocks :: u32
  st_blksize :: u32

record vfs_dirent =
  d_name :: bytes
  d_type :: vfs_node_type
  d_size :: u32

datatype vfs_fs_type = VFS_FS_NONE | VFS_FS_EXT2 | VFS_FS_FAT16

record ('f, 'c) vfs_ops =
  op_stat :: "(path \<Rightarrow> (vfs_stat, 'f) op) option"
  op_read_file :: "(path \<Rightarrow> (bytes, 'f) op) option"
  op_write_file :: "(path \<Rightarrow> bytes \<Rightarrow> u32 \<Rightarrow> (unit, 'f) op) option"
  op_create :: "(path \<Rightarrow> bool \<Rightarrow> (unit, 'f) op) option"
  op_unlink :: "(path \<Rightarrow> bool \<Rightarrow> (unit, 'f) op) option"
  op_rename :: "(path \<Rightarrow> path \<Rightarrow> (unit, 'f) op) option"
  op_readdir :: "(path \<Rightarrow> (vfs_dirent \<Rightarrow> 'c \<Rightarrow> int \<times> 'c) \<Rightarrow> 'c \<Rightarrow> 'f \<Rightarrow> (int \<times> 'c) \<times> 'f) option"
  op_chmod :: "(path \<Rightarrow> u32 \<Rightarrow> (unit, 'f) op) option"
  op_chown :: "(path \<Rightarrow> u32 \<Rightarrow> u32 \<Rightarrow> (unit, 'f) op) option"
  op_readlink :: "(path \<Rightarrow> nat \<Rightarrow> (bytes, 'f) op) option"
  op_link :: "(path \<Rightarrow> path \<Rightarrow> (unit, 'f) op) option"
  op_symlink :: "(bytes \<Rightarrow> path \<Rightarrow> (unit, 'f) op) option"

record ('f, 'c) vfs_mount =
  mountpoint :: path
  mtype :: vfs_fs_type
  ops :: "('f, 'c) vfs_ops"
  fs_private :: u32

text \<open>The layer's state: the mount table, the last error message, the drivers' state, and the
  credentials of the calling task.\<close>

record ('f, 'c) vfs =
  mount_table :: "('f, 'c) vfs_mount list"
  last_error :: string
  drv :: 'f
  cred_uid :: u32
  cred_gid :: u32

section \<open>Mounts\<close>

definition set_error :: "string \<Rightarrow> ('f, 'c) vfs \<Rightarrow> ('f, 'c) vfs" where
  "set_error msg s = s\<lparr>last_error := take 95 msg\<rparr>"

definition vfs_init :: "('f, 'c) vfs \<Rightarrow> ('f, 'c) vfs" where
  "vfs_init s = set_error ''no filesystem mounted'' (s\<lparr>mount_table := []\<rparr>)"

definition vfs_mounted :: "('f, 'c) vfs \<Rightarrow> bool" where
  "vfs_mounted s \<longleftrightarrow> length (mount_table s) > 0"

fun mount_index :: "('f, 'c) vfs_mount list \<Rightarrow> path \<Rightarrow> nat option" where
  "mount_index [] p = None"
| "mount_index (m # ms) p = (if mountpoint m = p then Some 0 else map_option Suc (mount_index ms p))"

definition vfs_mount_fs ::
  "path \<Rightarrow> vfs_fs_type \<Rightarrow> ('f, 'c) vfs_ops \<Rightarrow> u32 \<Rightarrow> ('f, 'c) vfs \<Rightarrow> int \<times> ('f, 'c) vfs" where
  "vfs_mount_fs mp ty ops' priv s =
     (case mount_index (mount_table s) mp of
        Some i \<Rightarrow> (0, s\<lparr>mount_table := (mount_table s)[i :=
                   (mount_table s ! i)\<lparr>mtype := ty, ops := ops', fs_private := priv\<rparr>]\<rparr>)
      | None \<Rightarrow>
          if length (mount_table s) \<ge> VFS_MAX_MOUNTS then (-1, s)
          else (0, s\<lparr>mount_table := mount_table s @
                  [\<lparr>mountpoint = take (MAX_PATH - 1) mp, mtype = ty, ops = ops', fs_private = priv\<rparr>]\<rparr>))"

definition path_under_mount :: "path \<Rightarrow> path \<Rightarrow> nat \<Rightarrow> bool" where
  "path_under_mount p mnt mnt_len \<longleftrightarrow>
     (if take mnt_len p \<noteq> take mnt_len mnt then False
      else if mnt_len \<le> 1 then True
      else length p = mnt_len \<or> p ! mnt_len = SLASH)"

fun find_mount_loop ::
  "('f, 'c) vfs_mount list \<Rightarrow> path \<Rightarrow> nat \<Rightarrow> nat option \<Rightarrow> nat \<Rightarrow> nat option" where
  "find_mount_loop [] p i best best_len = best"
| "find_mount_loop (m # ms) p i best best_len =
     (let len = length (mountpoint m) in
      if path_under_mount p (mountpoint m) len \<and> len \<ge> best_len
      then find_mount_loop ms p (i + 1) (Some i) len
      else find_mount_loop ms p (i + 1) best best_len)"

definition vfs_find_mount :: "path \<Rightarrow> ('f, 'c) vfs \<Rightarrow> nat option" where
  "vfs_find_mount p s =
     (if p = [] \<or> hd p \<noteq> SLASH then None else find_mount_loop (mount_table s) p 0 None 0)"

definition vfs_mount_root :: "('f, 'c) vfs \<Rightarrow> int \<times> ('f, 'c) vfs" where
  "vfs_mount_root s =
     (if vfs_find_mount ROOT s \<noteq> None then (0, set_error ''no error'' s)
      else (-1, set_error ''no filesystem mounted'' s))"

definition vfs_dispatch :: "path \<Rightarrow> nat \<Rightarrow> ('f, 'c) vfs \<Rightarrow> (nat \<times> path) option" where
  "vfs_dispatch p sub_size s =
     (case vfs_find_mount p s of
        None \<Rightarrow> None
      | Some m \<Rightarrow>
          let mnt_len = length (mountpoint (mount_table s ! m));
              rest = (if mnt_len \<le> 1 then p else drop mnt_len p);
              rest = (if rest = [] then ROOT else rest)
          in Some (m, take (sub_size - 1) rest))"

text \<open>Call a driver: run an operation on the drivers' state.\<close>

definition on_drv :: "('f \<Rightarrow> 'a \<times> 'f) \<Rightarrow> ('f, 'c) vfs \<Rightarrow> 'a \<times> ('f, 'c) vfs" where
  "on_drv f s = (case f (drv s) of (r, d) \<Rightarrow> (r, s\<lparr>drv := d\<rparr>))"

definition mount_ops :: "nat \<Rightarrow> ('f, 'c) vfs \<Rightarrow> ('f, 'c) vfs_ops" where
  "mount_ops m s = ops (mount_table s ! m)"

definition vfs_stat_raw :: "path \<Rightarrow> (vfs_stat, ('f, 'c) vfs) op" where
  "vfs_stat_raw p s =
     (case vfs_dispatch p MAX_PATH s of
        None \<Rightarrow> (Inl (Errno (-1)), s)
      | Some (m, sub) \<Rightarrow>
          (case op_stat (mount_ops m s) of
             None \<Rightarrow> (Inl (Errno (-1)), s)
           | Some f \<Rightarrow> as_errno (-1) (on_drv (f sub)) s))"

definition vfs_readlink_raw :: "path \<Rightarrow> nat \<Rightarrow> (bytes, ('f, 'c) vfs) op" where
  "vfs_readlink_raw p bufsize s =
     (case vfs_dispatch p MAX_PATH s of
        None \<Rightarrow> (Inl (Errno (- EINVAL)), s)
      | Some (m, sub) \<Rightarrow>
          (case op_readlink (mount_ops m s) of
             None \<Rightarrow> (Inl (Errno (- EINVAL)), s)
           | Some f \<Rightarrow> on_drv (f sub bufsize) s))"

section \<open>Permissions\<close>

abbreviation (input) F_OK :: u32 where "F_OK \<equiv> 0"
abbreviation (input) X_OK :: u32 where "X_OK \<equiv> 1"
abbreviation (input) W_OK :: u32 where "W_OK \<equiv> 2"
abbreviation (input) R_OK :: u32 where "R_OK \<equiv> 4"

definition vfs_access :: "vfs_stat \<Rightarrow> u32 \<Rightarrow> u32 \<Rightarrow> u32 \<Rightarrow> bool" where
  "vfs_access st uid gid requested =
     (if requested = F_OK then True
      else let mode = st_mode st in
        if uid = 0 then
          (if requested AND X_OK \<noteq> 0 \<and> mode AND (0x40 OR 0x8 OR 0x1) = 0 then False else True)
        else
          let bits = (if st_uid st = uid then drop_bit 6 mode AND 7
                      else if st_gid st = gid then drop_bit 3 mode AND 7
                      else mode AND 7);
              req_bits = (0 :: u32);
              req_bits = (if requested AND R_OK \<noteq> 0 then req_bits OR 4 else req_bits);
              req_bits = (if requested AND W_OK \<noteq> 0 then req_bits OR 2 else req_bits);
              req_bits = (if requested AND X_OK \<noteq> 0 then req_bits OR 1 else req_bits)
          in bits AND req_bits = req_bits)"

section \<open>Pathname resolution\<close>

fun strrchr_list :: "u8 \<Rightarrow> bytes \<Rightarrow> nat option" where
  "strrchr_list c [] = None"
| "strrchr_list c (x # xs) =
     (case strrchr_list c xs of Some i \<Rightarrow> Some (Suc i) | None \<Rightarrow> if x = c then Some 0 else None)"

text \<open>Appending to a string in a buffer of \<open>MAX_PATH\<close> bytes.\<close>

definition strcat_path :: "path \<Rightarrow> path \<Rightarrow> path option" where
  "strcat_path s t = (if length s + length t < MAX_PATH then Some (s @ t) else None)"

definition resolved_append :: "path \<Rightarrow> path \<Rightarrow> path option" where
  "resolved_append resolved component =
     (if component = DOT then Some resolved
      else if component = DOTDOT then
        (case strrchr_list SLASH resolved of
           Some i \<Rightarrow> if i \<noteq> 0 then Some (take i resolved) else Some ROOT
         | None \<Rightarrow> Some ROOT)
      else Option.bind (if resolved \<noteq> ROOT then strcat_path resolved ROOT else Some resolved)
             (\<lambda>r. strcat_path r component))"

text \<open>What one turn of the loop leaves to do: fail, end with a path, or go on with a number of
  symlinks followed, the directory reached and the rest of the path.\<close>

datatype walk = Stop err | Finish path | Walk nat path path

definition resolve_step ::
  "bool \<Rightarrow> u32 \<Rightarrow> u32 \<Rightarrow> nat \<Rightarrow> path \<Rightarrow> path \<Rightarrow> ('f, 'c) vfs \<Rightarrow> walk \<times> ('f, 'c) vfs" where
  "resolve_step follow_final uid gid follows resolved cursor s =
     (let component = takeWhile (\<lambda>c. c \<noteq> SLASH) cursor;
          clen = length component;
          rest = drop (clen + 1) cursor
      in
      if clen = 0 then (Walk follows resolved rest, s)
      else if clen \<ge> MAX_NAME then (Stop (Errno (- ENAMETOOLONG)), s)
      else
        let is_last = (rest = []) in
        if component = DOT then (Walk follows resolved rest, s)
        else if component = DOTDOT then
          (case resolved_append resolved component of
             None \<Rightarrow> (Stop Overflow, s)
           | Some r \<Rightarrow> (Walk follows r rest, s))
        else
          (case vfs_stat_raw resolved s of
             (Inl e, s) \<Rightarrow> (Stop (errno_or e (- ENOENT)), s)
           | (Inr dst, s) \<Rightarrow>
               if \<not> vfs_access dst uid gid X_OK then (Stop (Errno (- EACCES)), s)
               else
                 (case resolved_append resolved component of
                    None \<Rightarrow> (Stop Overflow, s)
                  | Some candidate \<Rightarrow>
                      (case vfs_stat_raw candidate s of
                         (Inl Overflow, s) \<Rightarrow> (Stop Overflow, s)
                       | (Inl (Errno _), s) \<Rightarrow>
                           if is_last then (Finish (take (MAX_PATH - 1) candidate), s)
                           else (Stop (Errno (- ENOENT)), s)
                       | (Inr cst, s) \<Rightarrow>
                           if vtype cst = VFS_SYMLINK \<and> (\<not> is_last \<or> follow_final) then
                             if follows + 1 > MAX_SYMLINK_FOLLOWS then (Stop (Errno (- ELOOP)), s)
                             else
                               (case vfs_readlink_raw candidate (MAX_PATH - 1) s of
                                  (Inl e, s) \<Rightarrow> (Stop (errno_or e (- ENOENT)), s)
                                | (Inr t, s) \<Rightarrow>
                                    let target = takeWhile (\<lambda>c. c \<noteq> 0) t;
                                        need = length target + 1 + length rest + 1;
                                        work = (if rest \<noteq> [] then target @ ROOT @ rest else target)
                                    in
                                    if need > RESOLVE_WORK_SIZE then (Stop (Errno (- ENAMETOOLONG)), s)
                                    else if target \<noteq> [] \<and> hd target = SLASH
                                    then (Walk (follows + 1) ROOT (tl work), s)
                                    else (Walk (follows + 1) resolved work, s))
                           else (Walk follows candidate rest, s)))))"

text \<open>The loop ends because each turn uses up a component or one of the follows left.\<close>

lemma resolve_step_decreases:
  assumes "resolve_step ff uid gid n r cur s = (Walk n' r' cur', s')" and "cur \<noteq> []"
  shows "n' = n \<and> length cur' < length cur \<or> n' = Suc n \<and> n < MAX_SYMLINK_FOLLOWS"
  using assms
  by (auto simp: resolve_step_def Let_def split: if_splits option.splits prod.splits sum.splits err.splits)

function resolve_loop ::
  "bool \<Rightarrow> u32 \<Rightarrow> u32 \<Rightarrow> nat \<Rightarrow> path \<Rightarrow> path \<Rightarrow> (path, ('f, 'c) vfs) op" where
  "resolve_loop follow_final uid gid follows resolved cursor s =
     (if cursor = [] then (Inr resolved, s)
      else
        (case resolve_step follow_final uid gid follows resolved cursor s of
           (Stop e, s) \<Rightarrow> (Inl e, s)
         | (Finish r, s) \<Rightarrow> (Inr r, s)
         | (Walk n r c, s) \<Rightarrow> resolve_loop follow_final uid gid n r c s))"
  by pat_completeness auto

termination
proof (relation "measures [\<lambda>(ff, u, g, n, r, cur, s). 41 - n, \<lambda>(ff, u, g, n, r, cur, s). length cur]")
  fix ff :: bool and uid gid :: u32 and n :: nat and r cur :: path and s :: "('f, 'c) vfs"
    and w s' n' r' cur'
  assume "cur \<noteq> []" "(w, s') = resolve_step ff uid gid n r cur s" "w = Walk n' r' cur'"
  then show "((ff, uid, gid, n', r', cur', s'), ff, uid, gid, n, r, cur, s)
      \<in> measures [\<lambda>(ff, u, g, n, r, cur, s). 41 - n, \<lambda>(ff, u, g, n, r, cur, s). length cur]"
    using resolve_step_decreases [of ff uid gid n r cur s n' r' cur' s'] by auto
qed simp

declare resolve_loop.simps [simp del]

definition resolve_path :: "path \<Rightarrow> nat \<Rightarrow> bool \<Rightarrow> u32 \<Rightarrow> u32 \<Rightarrow> (path, ('f, 'c) vfs) op" where
  "resolve_path p out_size follow_final uid gid s =
     (if p = [] \<or> hd p \<noteq> SLASH then (Inl (Errno (- ENOENT)), s)
      else if length (tl p) \<ge> RESOLVE_WORK_SIZE then (Inl (Errno (- ENAMETOOLONG)), s)
      else bindE (resolve_loop follow_final uid gid 0 ROOT (tl p)) (\<lambda>r. ret (take (out_size - 1) r)) s)"

definition parent_of :: "path \<Rightarrow> nat \<Rightarrow> path" where
  "parent_of p out_size =
     (let out = take (out_size - 1) p in
      case strrchr_list SLASH out of
        None \<Rightarrow> ROOT
      | Some i \<Rightarrow> if i = 0 then ROOT else take i out)"

definition check_dir_write :: "path \<Rightarrow> u32 \<Rightarrow> u32 \<Rightarrow> (unit, ('f, 'c) vfs) op" where
  "check_dir_write p uid gid =
     bindE (testE (vfs_stat_raw (parent_of p MAX_PATH))) (\<lambda>r. case r of
         None \<Rightarrow> fail (Errno (- ENOENT))
       | Some pst \<Rightarrow> guardE (vfs_access pst uid gid W_OK) (Errno (- EACCES)))"

section \<open>Entry points\<close>

text \<open>Run an operation; when it fails, record a message and fail with the same error.\<close>

definition on_error :: "string \<Rightarrow> ('a, ('f, 'c) vfs) op \<Rightarrow> ('a, ('f, 'c) vfs) op" where
  "on_error msg m = tryE m (\<lambda>r. case r of
       Inl e \<Rightarrow> bindE (modifyE (set_error msg)) (\<lambda>_. fail e)
     | Inr x \<Rightarrow> ret x)"

definition fail_msg :: "string \<Rightarrow> int \<Rightarrow> ('a, ('f, 'c) vfs) op" where
  "fail_msg msg e = bindE (modifyE (set_error msg)) (\<lambda>_. fail (Errno e))"

definition stat_or :: "string \<Rightarrow> path \<Rightarrow> (vfs_stat, ('f, 'c) vfs) op" where
  "stat_or msg p = bindE (testE (vfs_stat_raw p)) (\<lambda>r. case r of
       None \<Rightarrow> fail_msg msg (- ENOENT)
     | Some st \<Rightarrow> ret st)"

text \<open>The result of a driver's operation, with the driver's own error code when it is negative.\<close>

definition drv_result :: "string \<Rightarrow> (unit, 'f) op \<Rightarrow> (unit, ('f, 'c) vfs) op" where
  "drv_result msg f s =
     (case on_drv f s of
        (Inl (Errno r), s) \<Rightarrow> fail_msg msg (if r < 0 then r else - EIO) s
      | (Inl Overflow, s) \<Rightarrow> (Inl Overflow, s)
      | (Inr _, s) \<Rightarrow> (Inr (), s))"

text \<open>Dispatch to the mount of a resolved path and to one of its operations.\<close>

definition with_op ::
  "string \<Rightarrow> int \<Rightarrow> path \<Rightarrow> (('f, 'c) vfs_ops \<Rightarrow> 'o option) \<Rightarrow> ('o \<Rightarrow> path \<Rightarrow> ('a, ('f, 'c) vfs) op) \<Rightarrow>
   ('a, ('f, 'c) vfs) op" where
  "with_op msg e p sel k s =
     (case vfs_dispatch p MAX_PATH s of
        None \<Rightarrow> fail_msg msg e s
      | Some (m, sub) \<Rightarrow> (case sel (mount_ops m s) of None \<Rightarrow> fail_msg msg e s | Some f \<Rightarrow> k f sub s))"

definition vfs_stat_path :: "path \<Rightarrow> (vfs_stat, ('f, 'c) vfs) op" where
  "vfs_stat_path p =
     bindE (getE cred_uid) (\<lambda>uid. bindE (getE cred_gid) (\<lambda>gid.
     bindE (on_error ''stat failed'' (resolve_path p MAX_PATH True uid gid)) (\<lambda>resolved.
     stat_or ''stat failed'' resolved)))"

definition vfs_lstat :: "path \<Rightarrow> (vfs_stat, ('f, 'c) vfs) op" where
  "vfs_lstat p =
     bindE (getE cred_uid) (\<lambda>uid. bindE (getE cred_gid) (\<lambda>gid.
     bindE (on_error ''lstat failed'' (resolve_path p MAX_PATH False uid gid)) (\<lambda>resolved.
     stat_or ''lstat failed'' resolved)))"

definition vfs_read_file :: "path \<Rightarrow> (bytes, ('f, 'c) vfs) op" where
  "vfs_read_file p =
     bindE (getE cred_uid) (\<lambda>uid. bindE (getE cred_gid) (\<lambda>gid.
     bindE (on_error ''read failed'' (resolve_path p MAX_PATH True uid gid)) (\<lambda>resolved.
     bindE (stat_or ''read failed'' resolved) (\<lambda>st.
     if \<not> vfs_access st uid gid R_OK then fail_msg ''permission denied'' (- EACCES)
     else with_op ''read failed'' (- EIO) resolved op_read_file (\<lambda>f sub.
       on_error ''read failed'' (as_errno (- EIO) (on_drv (f sub))))))))"

definition vfs_readdir ::
  "path \<Rightarrow> (vfs_dirent \<Rightarrow> 'c \<Rightarrow> int \<times> 'c) \<Rightarrow> 'c \<Rightarrow> ('c, ('f, 'c) vfs) op" where
  "vfs_readdir p cb ctx =
     bindE (getE cred_uid) (\<lambda>uid. bindE (getE cred_gid) (\<lambda>gid.
     bindE (on_error ''readdir failed'' (resolve_path p MAX_PATH True uid gid)) (\<lambda>resolved.
     bindE (stat_or ''readdir failed'' resolved) (\<lambda>st.
     if \<not> vfs_access st uid gid R_OK then fail_msg ''permission denied'' (- EACCES)
     else with_op ''readdir failed'' (- EIO) resolved op_readdir (\<lambda>f sub s.
       case on_drv (f sub cb ctx) s of
         ((r, ctx), s) \<Rightarrow> if r < 0 then fail_msg ''readdir failed'' (- EIO) s else (Inr ctx, s))))))"

definition vfs_write_file :: "path \<Rightarrow> bytes \<Rightarrow> u32 \<Rightarrow> (unit, ('f, 'c) vfs) op" where
  "vfs_write_file p dat flags =
     bindE (getE cred_uid) (\<lambda>uid. bindE (getE cred_gid) (\<lambda>gid.
     bindE (on_error ''write failed'' (resolve_path p MAX_PATH True uid gid)) (\<lambda>resolved.
     bindE (bindE (testE (vfs_stat_raw resolved)) (\<lambda>r. case r of
         Some st \<Rightarrow> if \<not> vfs_access st uid gid W_OK then fail_msg ''permission denied'' (- EACCES) else ret ()
       | None \<Rightarrow> on_error ''permission denied'' (check_dir_write resolved uid gid))) (\<lambda>_.
     with_op ''write failed'' (- EROFS) resolved op_write_file (\<lambda>f sub.
       drv_result ''write failed'' (f sub dat flags))))))"

definition resolve_for_create :: "path \<Rightarrow> nat \<Rightarrow> u32 \<Rightarrow> u32 \<Rightarrow> (path, ('f, 'c) vfs) op" where
  "resolve_for_create p resolved_size uid gid =
     bindE (resolve_path p resolved_size True uid gid) (\<lambda>resolved.
     bindE (bindE (testE (vfs_stat_raw resolved)) (\<lambda>r. case r of
         Some _ \<Rightarrow> fail (Errno (- EEXIST))
       | None \<Rightarrow> check_dir_write resolved uid gid)) (\<lambda>_.
     ret resolved))"

definition vfs_create :: "path \<Rightarrow> (unit, ('f, 'c) vfs) op" where
  "vfs_create p =
     bindE (getE cred_uid) (\<lambda>uid. bindE (getE cred_gid) (\<lambda>gid.
     bindE (on_error ''create failed'' (resolve_for_create p MAX_PATH uid gid)) (\<lambda>resolved.
     with_op ''create failed'' (- EROFS) resolved op_create (\<lambda>f sub.
       drv_result ''create failed'' (f sub False)))))"

definition vfs_mkdir :: "path \<Rightarrow> (unit, ('f, 'c) vfs) op" where
  "vfs_mkdir p =
     bindE (getE cred_uid) (\<lambda>uid. bindE (getE cred_gid) (\<lambda>gid.
     bindE (on_error ''mkdir failed'' (resolve_for_create p MAX_PATH uid gid)) (\<lambda>resolved.
     with_op ''mkdir failed'' (- EROFS) resolved op_create (\<lambda>f sub.
       drv_result ''mkdir failed'' (f sub True)))))"

definition vfs_unlink :: "path \<Rightarrow> (unit, ('f, 'c) vfs) op" where
  "vfs_unlink p =
     bindE (getE cred_uid) (\<lambda>uid. bindE (getE cred_gid) (\<lambda>gid.
     bindE (on_error ''unlink failed'' (resolve_path p MAX_PATH False uid gid)) (\<lambda>resolved.
     bindE (stat_or ''unlink failed'' resolved) (\<lambda>st.
     if vtype st = VFS_DIR then fail_msg ''is a directory'' (- EISDIR)
     else bindE (on_error ''permission denied'' (check_dir_write resolved uid gid)) (\<lambda>_.
     with_op ''unlink failed'' (- EROFS) resolved op_unlink (\<lambda>f sub.
       drv_result ''unlink failed'' (f sub False)))))))"

definition vfs_rmdir :: "path \<Rightarrow> (unit, ('f, 'c) vfs) op" where
  "vfs_rmdir p =
     bindE (getE cred_uid) (\<lambda>uid. bindE (getE cred_gid) (\<lambda>gid.
     bindE (on_error ''rmdir failed'' (resolve_path p MAX_PATH False uid gid)) (\<lambda>resolved.
     if resolved = ROOT then fail_msg ''cannot remove root'' (- EACCES)
     else bindE (stat_or ''rmdir failed'' resolved) (\<lambda>st.
     if vtype st \<noteq> VFS_DIR then fail_msg ''not a directory'' (- ENOTDIR)
     else bindE (on_error ''permission denied'' (check_dir_write resolved uid gid)) (\<lambda>_.
     with_op ''rmdir failed'' (- EROFS) resolved op_unlink (\<lambda>f sub.
       drv_result ''rmdir failed'' (f sub True)))))))"

text \<open>Dispatch of two paths that must be on one mount.\<close>

definition same_mount ::
  "string \<Rightarrow> string \<Rightarrow> path \<Rightarrow> path \<Rightarrow> (nat \<times> path \<times> path, ('f, 'c) vfs) op" where
  "same_mount msg xdev p q s =
     (case (vfs_dispatch p MAX_PATH s, vfs_dispatch q MAX_PATH s) of
        (Some (m, sub), Some (n, sub')) \<Rightarrow>
          if m \<noteq> n then fail_msg xdev (- EXDEV) s else (Inr (m, sub, sub'), s)
      | _ \<Rightarrow> fail_msg msg (- ENOENT) s)"

definition vfs_rename :: "path \<Rightarrow> path \<Rightarrow> (unit, ('f, 'c) vfs) op" where
  "vfs_rename old_path new_path =
     bindE (getE cred_uid) (\<lambda>uid. bindE (getE cred_gid) (\<lambda>gid.
     bindE (on_error ''rename failed'' (resolve_path old_path MAX_PATH False uid gid)) (\<lambda>resolved_old.
     bindE (on_error ''rename failed'' (resolve_path new_path MAX_PATH False uid gid)) (\<lambda>resolved_new.
     bindE (stat_or ''rename failed'' resolved_old) (\<lambda>_.
     bindE (on_error ''permission denied'' (check_dir_write resolved_old uid gid)) (\<lambda>_.
     bindE (on_error ''permission denied'' (check_dir_write resolved_new uid gid)) (\<lambda>_.
     bindE (same_mount ''rename failed'' ''cross-device rename'' resolved_old resolved_new)
       (\<lambda>(m, old_sub, new_sub) s.
         case op_rename (mount_ops m s) of
           None \<Rightarrow> fail_msg ''rename failed'' (- EROFS) s
         | Some f \<Rightarrow> drv_result ''rename failed'' (f old_sub new_sub) s))))))))"

definition vfs_link :: "path \<Rightarrow> path \<Rightarrow> (unit, ('f, 'c) vfs) op" where
  "vfs_link old_path new_path =
     bindE (getE cred_uid) (\<lambda>uid. bindE (getE cred_gid) (\<lambda>gid.
     bindE (on_error ''link failed'' (resolve_path old_path MAX_PATH False uid gid)) (\<lambda>resolved_old.
     bindE (stat_or ''link failed'' resolved_old) (\<lambda>st.
     if vtype st = VFS_DIR then fail_msg ''cannot link directories'' (- EPERM)
     else bindE (on_error ''link failed'' (resolve_for_create new_path MAX_PATH uid gid)) (\<lambda>resolved_new.
     bindE (same_mount ''link failed'' ''cross-device link'' resolved_old resolved_new)
       (\<lambda>(m, old_sub, new_sub) s.
         case op_link (mount_ops m s) of
           None \<Rightarrow> fail_msg ''link failed'' (- EROFS) s
         | Some f \<Rightarrow> drv_result ''link failed'' (f old_sub new_sub) s))))))"

definition vfs_symlink :: "bytes \<Rightarrow> path \<Rightarrow> (unit, ('f, 'c) vfs) op" where
  "vfs_symlink target p =
     bindE (getE cred_uid) (\<lambda>uid. bindE (getE cred_gid) (\<lambda>gid.
     bindE (on_error ''symlink failed'' (resolve_for_create p MAX_PATH uid gid)) (\<lambda>resolved.
     with_op ''symlink failed'' (- EROFS) resolved op_symlink (\<lambda>f sub.
       drv_result ''symlink failed'' (f target sub)))))"

definition vfs_readlink :: "path \<Rightarrow> nat \<Rightarrow> (bytes, ('f, 'c) vfs) op" where
  "vfs_readlink p bufsize =
     bindE (getE cred_uid) (\<lambda>uid. bindE (getE cred_gid) (\<lambda>gid.
     bindE (on_error ''readlink failed'' (resolve_path p MAX_PATH False uid gid)) (\<lambda>resolved.
     bindE (stat_or ''readlink failed'' resolved) (\<lambda>st.
     if vtype st \<noteq> VFS_SYMLINK then fail_msg ''not a symlink'' (- EINVAL)
     else on_error ''readlink failed'' (vfs_readlink_raw resolved bufsize)))))"

definition vfs_last_error :: "('f, 'c) vfs \<Rightarrow> string" where
  "vfs_last_error s = last_error s"

definition vfs_chmod :: "path \<Rightarrow> u32 \<Rightarrow> (unit, ('f, 'c) vfs) op" where
  "vfs_chmod p mode s =
     (case vfs_dispatch p MAX_PATH s of
        None \<Rightarrow> (Inl (Errno (- ENOENT)), s)
      | Some (m, sub) \<Rightarrow>
          (case op_stat (mount_ops m s) of
             None \<Rightarrow> (Inl (Errno (- ENOENT)), s)
           | Some f \<Rightarrow>
               bindE (as_errno (- ENOENT) (on_drv (f sub))) (\<lambda>_ s.
                 case op_chmod (mount_ops m s) of
                   None \<Rightarrow> (Inl (Errno (- EROFS)), s)
                 | Some g \<Rightarrow> on_drv (g sub mode) s) s))"

definition vfs_chown :: "path \<Rightarrow> u32 \<Rightarrow> u32 \<Rightarrow> (unit, ('f, 'c) vfs) op" where
  "vfs_chown p uid gid s =
     (case vfs_dispatch p MAX_PATH s of
        None \<Rightarrow> (Inl (Errno (- ENOENT)), s)
      | Some (m, sub) \<Rightarrow>
          (case op_stat (mount_ops m s) of
             None \<Rightarrow> (Inl (Errno (- ENOENT)), s)
           | Some f \<Rightarrow>
               bindE (as_errno (- ENOENT) (on_drv (f sub))) (\<lambda>_ s.
                 case op_chown (mount_ops m s) of
                   None \<Rightarrow> (Inl (Errno (- EROFS)), s)
                 | Some g \<Rightarrow> on_drv (g sub uid gid) s) s))"

section \<open>Path normalisation\<close>

definition append_component :: "path \<Rightarrow> path \<Rightarrow> path option" where
  "append_component out component =
     (if component = DOT \<or> component = [] then Some out
      else if component = DOTDOT then
        (case strrchr_list SLASH out of
           Some i \<Rightarrow> if i \<noteq> 0 then Some (take i out) else Some ROOT
         | None \<Rightarrow> Some ROOT)
      else Option.bind (if out \<noteq> ROOT then strcat_path out ROOT else Some out)
             (\<lambda>r. strcat_path r component))"

text \<open>The tokens \<open>strtok_r\<close> cuts a string into.\<close>

function tokens :: "bytes \<Rightarrow> bytes list" where
  "tokens s =
     (let r = dropWhile (\<lambda>c. c = SLASH) s in
      if r = [] then []
      else takeWhile (\<lambda>c. c \<noteq> SLASH) r # tokens (dropWhile (\<lambda>c. c \<noteq> SLASH) r))"
  by pat_completeness auto

termination
proof (relation "measure length")
  fix s r :: bytes
  assume r: "r = dropWhile (\<lambda>c. c = SLASH) s" and "r \<noteq> []"
  then have "hd r \<noteq> SLASH" using hd_dropWhile [of "\<lambda>c. c = SLASH" s] by auto
  then have "dropWhile (\<lambda>c. c \<noteq> SLASH) r = dropWhile (\<lambda>c. c \<noteq> SLASH) (tl r)"
    using \<open>r \<noteq> []\<close> by (cases r) auto
  also have "length \<dots> \<le> length (tl r)" by (rule length_dropWhile_le)
  also have "\<dots> < length r" using \<open>r \<noteq> []\<close> by simp
  also have "\<dots> \<le> length s" unfolding r by (rule length_dropWhile_le)
  finally show "(dropWhile (\<lambda>c. c \<noteq> SLASH) r, s) \<in> measure length" by simp
qed simp

declare tokens.simps [simp del]

fun append_all :: "path \<Rightarrow> path list \<Rightarrow> path option" where
  "append_all out [] = Some out"
| "append_all out (t # ts) = Option.bind (append_component out t) (\<lambda>out. append_all out ts)"

definition vfs_normalize :: "path option \<Rightarrow> path option \<Rightarrow> path option" where
  "vfs_normalize cwd p =
     (case p of
        None \<Rightarrow> Some (take (MAX_PATH - 1) (case cwd of None \<Rightarrow> ROOT | Some d \<Rightarrow> d))
      | Some [] \<Rightarrow> Some (take (MAX_PATH - 1) (case cwd of None \<Rightarrow> ROOT | Some d \<Rightarrow> d))
      | Some (c # cs) \<Rightarrow>
          let (out, tmp) =
            (if c = SLASH then (ROOT, take (MAX_PATH - 1) cs)
             else (take (MAX_PATH - 1) (case cwd of None \<Rightarrow> ROOT | Some [] \<Rightarrow> ROOT | Some d \<Rightarrow> d),
                   take (MAX_PATH - 1) (c # cs)))
          in map_option (\<lambda>out. if out = [] then ROOT else out) (append_all out (tokens tmp)))"

end
