(* ===== verification/Vfs_Correct.thy ===== *)
theory Vfs_Correct
  imports Vfs
begin

unbundle bit_operations_syntax

text \<open>
  Properties of the mount layer: mount lookup is by longest prefix of whole components, the
  permission check is the Unix one, resolved and normalised paths are canonical, symlink loops
  end in an error, and no operation that changes a directory reaches a driver without write
  permission on it.
\<close>

section \<open>Mount lookup\<close>

definition covers :: "path \<Rightarrow> path \<Rightarrow> bool" where
  "covers mnt p \<longleftrightarrow> mnt = ROOT \<or> p = mnt \<or> (\<exists>q. p = mnt @ SLASH # q)"

definition mounts_ok :: "('f, 'c) vfs \<Rightarrow> bool" where
  "mounts_ok s \<longleftrightarrow> (\<forall>m \<in> set (mount_table s). mountpoint m \<noteq> [] \<and> hd (mountpoint m) = SLASH)"

lemma path_under_mount_covers:
  assumes "p \<noteq> []" "hd p = SLASH" "mnt \<noteq> []" "hd mnt = SLASH"
  shows "path_under_mount p mnt (length mnt) \<longleftrightarrow> covers mnt p"
proof (cases "mnt = ROOT")
  case True
  then show ?thesis using assms(1,2) by (cases p) (auto simp: path_under_mount_def covers_def)
next
  case False
  then have l: "1 < length mnt" using assms(3,4) by (cases mnt) auto
  have "covers mnt p" if "take (length mnt) p = mnt" "length p = length mnt \<or> p ! length mnt = SLASH"
  proof (cases "length p = length mnt")
    case False
    then have "length mnt < length p" using that(1) by (metis le_neq_implies_less length_take min.cobounded1)
    then have "p = mnt @ p ! length mnt # drop (Suc (length mnt)) p"
      using that(1) by (metis id_take_nth_drop)
    then show ?thesis using that(2) False by (auto simp: covers_def)
  qed (use that(1) in \<open>simp add: covers_def\<close>)
  then show ?thesis using False l by (auto simp: path_under_mount_def covers_def)
qed

lemma find_mount_loop_spec:
  assumes "\<forall>m \<in> set ms. path_under_mount p (mountpoint m) (length (mountpoint m)) = covers (mountpoint m) p"
  shows "case find_mount_loop ms p i best best_len of
      None \<Rightarrow> best = None \<and> (\<forall>m \<in> set ms. \<not> (covers (mountpoint m) p \<and> best_len \<le> length (mountpoint m)))
    | Some k \<Rightarrow> (best = Some k \<and> (\<forall>m \<in> set ms. covers (mountpoint m) p \<longrightarrow> length (mountpoint m) < best_len)) \<or>
        (i \<le> k \<and> k < i + length ms \<and> covers (mountpoint (ms ! (k - i))) p \<and>
         best_len \<le> length (mountpoint (ms ! (k - i))) \<and>
         (\<forall>m \<in> set ms. covers (mountpoint m) p \<longrightarrow> length (mountpoint m) \<le> length (mountpoint (ms ! (k - i)))))"
  using assms
proof (induction ms arbitrary: i best best_len)
  case (Cons m ms)
  show ?case
  proof (cases "covers (mountpoint m) p \<and> best_len \<le> length (mountpoint m)")
    case True
    then have "find_mount_loop (m # ms) p i best best_len =
        find_mount_loop ms p (i + 1) (Some i) (length (mountpoint m))"
      using Cons.prems by (simp add: Let_def)
    moreover note Cons.IH [where i = "i + 1" and best = "Some i" and best_len = "length (mountpoint m)"]
    ultimately show ?thesis using True Cons.prems
      by (cases "find_mount_loop ms p (i + 1) (Some i) (length (mountpoint m))") (auto simp: nth_Cons')
  next
    case False
    then have "find_mount_loop (m # ms) p i best best_len = find_mount_loop ms p (i + 1) best best_len"
      using Cons.prems by (auto simp: Let_def)
    moreover note Cons.IH [where i = "i + 1" and best = best and best_len = best_len]
    ultimately show ?thesis using False Cons.prems
      by (cases "find_mount_loop ms p (i + 1) best best_len") (auto simp: nth_Cons')
  qed
qed (simp split: option.split)

text \<open>C18. A path is served by the mount with the longest mount point among those that cover
  it, where a mount point covers a path only at a component boundary; there is no mount
  exactly when none covers the path.\<close>

theorem vfs_find_mount_longest:
  assumes "mounts_ok s" and "p \<noteq> []" and "hd p = SLASH"
  shows "case vfs_find_mount p s of
      None \<Rightarrow> \<forall>m \<in> set (mount_table s). \<not> covers (mountpoint m) p
    | Some i \<Rightarrow> i < length (mount_table s) \<and> covers (mountpoint (mount_table s ! i)) p \<and>
        (\<forall>m \<in> set (mount_table s). covers (mountpoint m) p \<longrightarrow>
          length (mountpoint m) \<le> length (mountpoint (mount_table s ! i)))"
proof -
  have "\<forall>m \<in> set (mount_table s).
      path_under_mount p (mountpoint m) (length (mountpoint m)) = covers (mountpoint m) p"
    using assms by (auto simp: mounts_ok_def path_under_mount_covers)
  from find_mount_loop_spec [OF this, where i = 0 and best = None and best_len = 0] assms(2,3) show ?thesis
    by (cases "find_mount_loop (mount_table s) p 0 None 0") (auto simp: vfs_find_mount_def)
qed

section \<open>Permissions\<close>

lemma bit_req:
  fixes r :: u32
  shows "(r AND 4 \<noteq> 0) = bit r 2" "(r AND 2 \<noteq> 0) = bit r 1" "(r AND 1 \<noteq> 0) = bit r 0"
proof -
  have "(r AND push_bit n 1 \<noteq> 0) = bit r n" if "n < 32" for n
    using that by (simp add: bit_iff_and_push_bit_not_eq_0)
  from this [of 2] this [of 1] this [of 0]
  show "(r AND 4 \<noteq> 0) = bit r 2" "(r AND 2 \<noteq> 0) = bit r 1" "(r AND 1 \<noteq> 0) = bit r 0"
    by (simp_all add: push_bit_eq_mult)
qed

definition unix_class :: "vfs_stat \<Rightarrow> u32 \<Rightarrow> u32 \<Rightarrow> nat" where
  "unix_class st uid gid = (if st_uid st = uid then 6 else if st_gid st = gid then 3 else 0)"

lemma and_eq_iff: "(a :: u32) AND b = b \<longleftrightarrow> (\<forall>n. bit b n \<longrightarrow> bit a n)"
proof
  assume "a AND b = b"
  then have "bit (a AND b) n = bit b n" for n by simp
  then show "\<forall>n. bit b n \<longrightarrow> bit a n" unfolding bit_and_iff by blast
qed (auto intro: bit_word_eqI simp: bit_and_iff)

lemma bit_pow: "n < 32 \<Longrightarrow> bit (2 ^ n :: u32) m \<longleftrightarrow> m = n"
  by (auto simp: bit_exp_iff)

lemma bit_small:
  "bit (7 :: u32) n \<longleftrightarrow> n < 3" "bit (4 :: u32) n \<longleftrightarrow> n = 2" "bit (2 :: u32) n \<longleftrightarrow> n = 1" "bit (1 :: u32) n \<longleftrightarrow> n = 0"
proof -
  have e: "(7 :: u32) = mask 3" by (simp add: mask_eq_exp_minus_1)
  show "bit (7 :: u32) n \<longleftrightarrow> n < 3" unfolding e bit_mask_iff by auto
  show "bit (4 :: u32) n \<longleftrightarrow> n = 2" "bit (2 :: u32) n \<longleftrightarrow> n = 1" "bit (1 :: u32) n \<longleftrightarrow> n = 0"
    using bit_pow [of 2 n] bit_pow [of 1 n] bit_pow [of 0 n] by simp_all
qed

lemma bit_if_or: "bit (if b then q OR v else (q :: u32)) n \<longleftrightarrow> bit q n \<or> b \<and> bit v n"
  by (simp add: bit_or_iff)

lemma class_bits:
  assumes "n < 3"
  shows "bit (if u then drop_bit 6 mode AND 7 else if g then drop_bit 3 mode AND 7 else (mode :: u32) AND 7) n
    \<longleftrightarrow> bit mode (n + (if u then 6 else if g then 3 else 0))"
  using assms bit_small(1) [of n] by (simp add: bit_and_iff bit_drop_bit_eq add.commute)

lemma exec_bits: "(mode :: u32) AND (0x40 OR 0x8 OR 0x1) = 0 \<longleftrightarrow> \<not> (bit mode 6 \<or> bit mode 3 \<or> bit mode 0)"
proof -
  have b: "bit (0x40 OR 0x8 OR 0x1 :: u32) n \<longleftrightarrow> n = 6 \<or> n = 3 \<or> n = 0" for n
    unfolding bit_or_iff using bit_pow [of 6 n] bit_pow [of 3 n] bit_pow [of 0 n] by simp
  have "w = 0 \<longleftrightarrow> (\<forall>n. \<not> bit w n)" for w :: u32 by (auto intro: bit_word_eqI)
  from this [of "mode AND (0x40 OR 0x8 OR 0x1)"] show ?thesis unfolding bit_and_iff b by auto
qed

text \<open>C16. The permission check is the Unix one. With bits 0, 1 and 2 of the request standing for
  execute, write and read, the superuser may do anything but execute a file no one may
  execute; everyone else needs each requested bit in the class (owner, else group, else
  others) that applies to them.\<close>

theorem vfs_access_unix:
  "vfs_access st uid gid requested \<longleftrightarrow>
    (\<forall>b < 3. bit requested b \<longrightarrow>
      (if uid = 0 then b \<noteq> 0 \<or> bit (st_mode st) 6 \<or> bit (st_mode st) 3 \<or> bit (st_mode st) 0
       else bit (st_mode st) (b + unix_class st uid gid)))"
proof -
  have three: "(\<forall>b < 3. P b) \<longleftrightarrow> P 0 \<and> P 1 \<and> P (2 :: nat)" for P
    by (auto simp: numeral_3_eq_3 less_Suc_eq numeral_2_eq_2)
  let ?m = "st_mode st"
  define bits where "bits = (if st_uid st = uid then drop_bit 6 ?m AND 7
      else if st_gid st = gid then drop_bit 3 ?m AND 7 else ?m AND 7)"
  define req where "req = (let q = (0 :: u32); q = (if bit requested 2 then q OR 4 else q);
      q = (if bit requested 1 then q OR 2 else q) in if bit requested 0 then q OR 1 else q)"
  have req: "bit req n \<longleftrightarrow> n < 3 \<and> bit requested n" for n
  proof -
    have "n = 0 \<or> n = 1 \<or> n = 2 \<or> 3 \<le> n" by auto
    then show ?thesis
      unfolding req_def Let_def bit_if_or bit_small bit_0_eq by auto
  qed
  have "bit bits n \<longleftrightarrow> bit ?m (n + unix_class st uid gid)" if "n < 3" for n
    unfolding bits_def unix_class_def by (rule class_bits [OF that])
  then have bits: "bits AND req = req \<longleftrightarrow> (\<forall>b < 3. bit requested b \<longrightarrow> bit ?m (b + unix_class st uid gid))"
    unfolding and_eq_iff req by blast
  have acc: "vfs_access st uid gid requested \<longleftrightarrow>
      (if uid = 0 then \<not> bit requested 0 \<or> bit ?m 6 \<or> bit ?m 3 \<or> bit ?m 0 else bits AND req = req)"
    if "requested \<noteq> 0"
    unfolding vfs_access_def Let_def bit_req exec_bits bits_def req_def if_not_P [OF that] by simp
  show ?thesis
  proof (cases "requested = 0")
    case False
    show ?thesis
    proof (cases "uid = 0")
      case True
      then show ?thesis unfolding acc [OF False] three by simp
    next
      case uid: False
      then show ?thesis unfolding acc [OF False] using bits by simp
    qed
  qed (simp add: vfs_access_def)
qed

section \<open>Canonical paths\<close>

fun join :: "path list \<Rightarrow> path" where
  "join [] = ROOT"
| "join (c # cs) = concat (map (Cons SLASH) (c # cs))"

definition plain :: "path \<Rightarrow> bool" where
  "plain c \<longleftrightarrow> c \<noteq> [] \<and> SLASH \<notin> set c \<and> c \<noteq> DOT \<and> c \<noteq> DOTDOT"

definition canonical :: "path \<Rightarrow> bool" where
  "canonical p \<longleftrightarrow> length p < MAX_PATH \<and> (\<exists>cs. p = join cs \<and> (\<forall>c \<in> set cs. plain c))"

lemma join_snoc: "join (cs @ [c]) = (if cs = [] then [] else join cs) @ SLASH # c"
  by (cases cs) auto

lemma join_ne: "join cs \<noteq> []" "hd (join cs) = SLASH"
  by (cases cs; simp)+

lemma join_ROOT: "\<forall>c \<in> set cs. plain c \<Longrightarrow> join cs = ROOT \<longleftrightarrow> cs = []"
  by (cases cs) (auto simp: plain_def)

lemma strrchr_append: "c \<notin> set ys \<Longrightarrow> strrchr_list c (xs @ c # ys) = Some (length xs)"
proof (induction xs)
  case Nil
  then have "strrchr_list c ys = None" by (induction ys) auto
  then show ?case by simp
qed simp

lemma append_component_resolved:
  "append_component out c = (if c = [] then Some out else resolved_append out c)"
  by (simp add: append_component_def resolved_append_def)

lemma resolved_append_plain:
  assumes "\<forall>c \<in> set cs. plain c" and "plain c"
  shows "resolved_append (join cs) c =
    (if length (join (cs @ [c])) < MAX_PATH then Some (join (cs @ [c])) else None)"
  using assms join_ROOT [OF assms(1)]
  by (auto simp: resolved_append_def plain_def strcat_path_def join_snoc)

lemma resolved_append_dotdot:
  assumes "\<forall>c \<in> set cs. plain c"
  shows "resolved_append (join cs) DOTDOT = Some (join (butlast cs))"
proof (cases cs rule: rev_cases)
  case (snoc ds d)
  then have d: "SLASH \<notin> set d" "\<forall>c \<in> set ds. plain c" using assms by (auto simp: plain_def)
  show ?thesis
  proof (cases "ds = []")
    case False
    then have "join cs = join ds @ SLASH # d" using snoc by (simp add: join_snoc)
    moreover from this have "strrchr_list SLASH (join cs) = Some (length (join ds))"
      using strrchr_append [OF d(1)] by simp
    ultimately show ?thesis using join_ne(1) [of ds] snoc by (simp add: resolved_append_def)
  next
    case True
    then show ?thesis using snoc strrchr_append [OF d(1), of "[]"] by (simp add: resolved_append_def)
  qed
qed (simp add: resolved_append_def)

lemma length_join_butlast: "length (join (butlast cs)) \<le> length (join cs)"
  by (cases cs rule: rev_cases) (auto simp: join_snoc Suc_le_eq join_ne)

lemma canonical_append:
  assumes "canonical r" and "plain c \<or> c = DOTDOT" and "resolved_append r c = Some r'"
  shows "canonical r'"
proof -
  obtain cs where cs: "r = join cs" "\<forall>c \<in> set cs. plain c" and l: "length r < MAX_PATH"
    using assms(1) by (auto simp: canonical_def)
  from assms(2) show ?thesis
  proof
    assume "plain c"
    then have "r' = join (cs @ [c])" "length r' < MAX_PATH"
      using assms(3) resolved_append_plain [OF cs(2)] cs(1) by (auto split: if_splits)
    then show ?thesis using cs(2) \<open>plain c\<close> by (force simp: canonical_def)
  next
    assume "c = DOTDOT"
    then have "r' = join (butlast cs)" using assms(3) resolved_append_dotdot [OF cs(2)] cs(1) by simp
    then show ?thesis
      using cs l length_join_butlast [of cs] by (auto simp: canonical_def intro!: exI [of _ "butlast cs"] dest: in_set_butlastD)
  qed
qed

lemma canonical_ROOT: "canonical ROOT"
  by (auto simp: canonical_def intro!: exI [of _ "[]"])

lemma canonical_take: "canonical r \<Longrightarrow> take (MAX_PATH - 1) r = r"
  by (simp add: canonical_def)

lemma plain_component:
  assumes "takeWhile (\<lambda>c. c \<noteq> SLASH) cur \<noteq> []" "takeWhile (\<lambda>c. c \<noteq> SLASH) cur \<noteq> DOT"
    "takeWhile (\<lambda>c. c \<noteq> SLASH) cur \<noteq> DOTDOT"
  shows "plain (takeWhile (\<lambda>c. c \<noteq> SLASH) cur)"
  using assms by (auto simp: plain_def dest: set_takeWhileD)

definition next_dir :: "path \<Rightarrow> path \<Rightarrow> bool" where
  "next_dir r r' \<longleftrightarrow> r' = r \<or> r' = ROOT \<or> (\<exists>c. (plain c \<or> c = DOTDOT) \<and> resolved_append r c = Some r')"

lemma next_dir_canonical: "next_dir r r' \<Longrightarrow> canonical r \<Longrightarrow> canonical r'"
  using canonical_append canonical_ROOT by (auto simp: next_dir_def)

lemma resolve_step_dirs:
  "resolve_step ff uid gid n r cur s = (Walk n' r' cur', s') \<Longrightarrow> next_dir r r'"
  "resolve_step ff uid gid n r cur s = (Finish r', s') \<Longrightarrow> \<exists>c. next_dir r c \<and> r' = take (MAX_PATH - 1) c"
  using plain_component [of cur]
  by (auto simp: resolve_step_def next_dir_def Let_def split: if_splits option.splits prod.splits sum.splits err.splits)

lemma resolve_loop_canonical:
  "resolve_loop ff uid gid n r cur s = (Inr r', s') \<Longrightarrow> canonical r \<Longrightarrow> canonical r'"
proof (induction ff uid gid n r cur s rule: resolve_loop.induct)
  case (1 ff uid gid n r cur s)
  show ?case
  proof (cases "cur = []")
    case False
    obtain w s1 where w: "resolve_step ff uid gid n r cur s = (w, s1)" by fastforce
    note unf = "1.prems"(1) [unfolded resolve_loop.simps [of ff uid gid n r cur s] if_not_P [OF False] w]
    show ?thesis
    proof (cases w)
      case (Finish c)
      then show ?thesis
        using resolve_step_dirs(2) [of ff uid gid n r cur s c s1] next_dir_canonical canonical_take "1.prems"(2) unf w
        by fastforce
    next
      case (Walk n1 r1 c1)
      then have "canonical r1" using resolve_step_dirs(1) w next_dir_canonical "1.prems"(2) by blast
      then show ?thesis using "1.IH" [OF False w [symmetric] Walk] unf Walk by simp
    qed (use unf in simp)
  qed (use "1.prems" in \<open>simp add: resolve_loop.simps\<close>)
qed


section \<open>Symlink loops\<close>

lemma resolve_step_self:
  assumes nm: "plain nm" "length nm < MAX_NAME" "0 \<notin> set nm"
    and dir: "vfs_stat_raw ROOT s = (Inr dst, s)" "vfs_access dst uid gid X_OK"
    and link: "vfs_stat_raw (SLASH # nm) s = (Inr cst, s)" "vtype cst = VFS_SYMLINK"
    and target: "vfs_readlink_raw (SLASH # nm) (MAX_PATH - 1) s = (Inr nm, s)"
  shows "resolve_step True uid gid n ROOT nm s =
    (if n < MAX_SYMLINK_FOLLOWS then Walk (Suc n) ROOT nm else Stop (Errno (- ELOOP)), s)"
proof -
  have tw: "takeWhile (\<lambda>c. c \<noteq> SLASH) nm = nm" "takeWhile (\<lambda>c. c \<noteq> 0) nm = nm"
    using nm by (auto simp: plain_def takeWhile_eq_all_conv)
  have "resolved_append ROOT nm = Some (SLASH # nm)"
    using resolved_append_plain [of "[]" nm] nm by simp
  moreover have "hd nm \<noteq> SLASH" using nm(1) by (cases nm) (auto simp: plain_def)
  ultimately show ?thesis
    using nm dir link target by (auto simp: resolve_step_def Let_def tw plain_def)
qed

lemma resolve_loop_self:
  assumes step: "\<And>n. resolve_step True uid gid n ROOT nm s =
      (if n < MAX_SYMLINK_FOLLOWS then Walk (Suc n) ROOT nm else Stop (Errno (- ELOOP)), s)" and "nm \<noteq> []"
  shows "resolve_loop True uid gid n ROOT nm s = (Inl (Errno (- ELOOP)), s)"
proof (induction "MAX_SYMLINK_FOLLOWS - n" arbitrary: n)
  case 0
  then show ?case using assms by (subst resolve_loop.simps) simp
next
  case (Suc k)
  then have "resolve_loop True uid gid (Suc n) ROOT nm s = (Inl (Errno (- ELOOP)), s)"
    by (intro Suc.hyps) simp
  then show ?case using assms Suc.hyps(2) by (subst resolve_loop.simps) simp
qed


section \<open>Operations that change a directory need write permission\<close>

definition reads_keep :: "('f \<Rightarrow> bool) \<Rightarrow> ('f, 'c) vfs \<Rightarrow> bool" where
  "reads_keep I s \<longleftrightarrow> (\<forall>m \<in> set (mount_table s). \<forall>d. I d \<longrightarrow>
     (\<forall>f p. op_stat (ops m) = Some f \<longrightarrow> I (snd (f p d))) \<and>
     (\<forall>f p n. op_readlink (ops m) = Some f \<longrightarrow> I (snd (f p n d))))"

definition frame :: "('f \<Rightarrow> bool) \<Rightarrow> ('f, 'c) vfs \<Rightarrow> ('f, 'c) vfs \<Rightarrow> bool" where
  "frame I s s' \<longleftrightarrow> mount_table s' = mount_table s \<and> cred_uid s' = cred_uid s \<and>
     cred_gid s' = cred_gid s \<and> (I (drv s) \<longrightarrow> I (drv s'))"

definition reads :: "('f \<Rightarrow> bool) \<Rightarrow> ('a, ('f, 'c) vfs) op \<Rightarrow> bool" where
  "reads I m \<longleftrightarrow> (\<forall>s. reads_keep I s \<longrightarrow> frame I s (snd (m s)))"

lemma frame_refl: "frame I s s"
  by (simp add: frame_def)

lemma frame_trans: "frame I s t \<Longrightarrow> frame I t u \<Longrightarrow> frame I s u"
  by (simp add: frame_def)

lemma frame_reads_keep: "frame I s t \<Longrightarrow> reads_keep I t = reads_keep I s"
  by (simp add: frame_def reads_keep_def)

named_theorems reads_intros

lemma reads_basic [reads_intros]:
  "reads I (ret x)" "reads I (fail e)" "reads I (guardE b e)" "reads I (getE g)"
  "reads I (modifyE (set_error msg))"
  by (simp_all add: reads_def frame_def guardE_def set_error_def)

lemma reads_bind [reads_intros]: "reads I m \<Longrightarrow> (\<And>x. reads I (k x)) \<Longrightarrow> reads I (bindE m k)"
  unfolding reads_def bindE_def
  by (auto split: prod.split sum.split) (metis frame_reads_keep frame_trans snd_conv)+

lemma reads_try [reads_intros]: "reads I m \<Longrightarrow> (\<And>r. reads I (k r)) \<Longrightarrow> reads I (tryE m k)"
  unfolding reads_def tryE_def
  by (auto split: prod.split) (metis frame_reads_keep frame_trans snd_conv)+

lemma reads_if [reads_intros]: "reads I m \<Longrightarrow> reads I n \<Longrightarrow> reads I (if b then m else n)"
  by simp

lemma reads_test [reads_intros]: "reads I m \<Longrightarrow> reads I (testE m)"
  by (fastforce simp: reads_def testE_def split: prod.split sum.split err.split)

lemma reads_option [reads_intros]:
  "reads I f \<Longrightarrow> (\<And>x. reads I (g x)) \<Longrightarrow> reads I (case r of None \<Rightarrow> f | Some x \<Rightarrow> g x)"
  by (cases r) simp_all

lemma reads_sum [reads_intros]:
  "(\<And>e. reads I (f e)) \<Longrightarrow> (\<And>x. reads I (g x)) \<Longrightarrow> reads I (case r of Inl e \<Rightarrow> f e | Inr x \<Rightarrow> g x)"
  by (cases r) simp_all

lemma dispatch_range: "vfs_dispatch p n s = Some (m, sub) \<Longrightarrow> m < length (mount_table s)"
proof -
  have "find_mount_loop ms p i best bl = Some k \<Longrightarrow> best = Some k \<or> k < i + length ms" for ms i best bl k
    by (induction ms arbitrary: i best bl) (fastforce simp: Let_def split: if_splits)+
  from this [of "mount_table s" 0 None 0]
  show "vfs_dispatch p n s = Some (m, sub) \<Longrightarrow> m < length (mount_table s)"
    by (auto simp: vfs_dispatch_def vfs_find_mount_def Let_def split: option.splits if_splits)
qed

lemma reads_stat_raw [reads_intros]: "reads I (vfs_stat_raw p)"
  unfolding reads_def
proof (intro allI impI)
  fix s
  assume k: "reads_keep I s"
  show "frame I s (snd (vfs_stat_raw p s))"
  proof (cases "vfs_dispatch p MAX_PATH s")
    case (Some x)
    obtain m sub where d: "vfs_dispatch p MAX_PATH s = Some (m, sub)" using Some by (cases x) auto
    have "mount_table s ! m \<in> set (mount_table s)" using dispatch_range [OF d] by simp
    then have "I (drv s) \<longrightarrow> I (snd (f sub (drv s)))" if "op_stat (mount_ops m s) = Some f" for f
      using k that by (auto simp: reads_keep_def mount_ops_def)
    then show ?thesis
      using d by (auto simp: vfs_stat_raw_def on_drv_def as_errno_def frame_def split: option.split prod.split sum.split)
  qed (simp add: vfs_stat_raw_def frame_def)
qed

lemma reads_readlink_raw [reads_intros]: "reads I (vfs_readlink_raw p n)"
  unfolding reads_def
proof (intro allI impI)
  fix s
  assume k: "reads_keep I s"
  show "frame I s (snd (vfs_readlink_raw p n s))"
  proof (cases "vfs_dispatch p MAX_PATH s")
    case (Some x)
    obtain m sub where d: "vfs_dispatch p MAX_PATH s = Some (m, sub)" using Some by (cases x) auto
    have "mount_table s ! m \<in> set (mount_table s)" using dispatch_range [OF d] by simp
    then have "I (drv s) \<longrightarrow> I (snd (f sub n (drv s)))" if "op_readlink (mount_ops m s) = Some f" for f
      using k that by (auto simp: reads_keep_def mount_ops_def)
    then show ?thesis
      using d by (auto simp: vfs_readlink_raw_def on_drv_def frame_def split: option.split prod.split sum.split)
  qed (simp add: vfs_readlink_raw_def frame_def)
qed

lemma readsD: "reads I m \<Longrightarrow> reads_keep I s \<Longrightarrow> m s = (r, s') \<Longrightarrow> frame I s s'"
  by (metis reads_def snd_conv)

lemma resolve_step_frame:
  assumes "reads_keep I s" and "resolve_step ff uid gid n r cur s = (w, s')"
  shows "frame I s s'"
proof -
  define cand where "cand = the (resolved_append r (takeWhile (\<lambda>c. c \<noteq> SLASH) cur))"
  obtain x1 s1 where r1: "vfs_stat_raw r s = (x1, s1)" by fastforce
  obtain x2 s2 where r2: "vfs_stat_raw cand s1 = (x2, s2)" by fastforce
  obtain x3 s3 where r3: "vfs_readlink_raw cand (MAX_PATH - 1) s2 = (x3, s3)" by fastforce
  have f1: "frame I s s1" using readsD [OF reads_stat_raw assms(1) r1] .
  have f2: "frame I s1 s2" using readsD [OF reads_stat_raw _ r2] frame_reads_keep [OF f1] assms(1) by simp
  have f3: "frame I s2 s3"
    using readsD [OF reads_readlink_raw _ r3] frame_reads_keep [OF f1] frame_reads_keep [OF f2] assms(1) by simp
  have "s' \<in> {s, s1, s2, s3}"
    using assms(2) r1 r2 r3
    by (auto simp: resolve_step_def Let_def cand_def split: if_splits option.splits sum.splits err.splits)
  then show ?thesis using f1 f2 f3 frame_refl frame_trans by blast
qed

lemma reads_resolve_loop: "reads_keep I s \<Longrightarrow> frame I s (snd (resolve_loop ff uid gid n r cur s))"
proof (induction ff uid gid n r cur s rule: resolve_loop.induct)
  case (1 ff uid gid n r cur s)
  obtain w s1 where w: "resolve_step ff uid gid n r cur s = (w, s1)" by fastforce
  note f = resolve_step_frame [OF "1.prems" w]
  show ?case
  proof (cases "cur = []")
    case False
    show ?thesis
    proof (cases w)
      case (Walk n1 r1 c1)
      have "frame I s1 (snd (resolve_loop ff uid gid n1 r1 c1 s1))"
        using "1.IH" [OF False w [symmetric] Walk] frame_reads_keep [OF f] "1.prems" by simp
      then show ?thesis using f False w Walk frame_trans by (subst resolve_loop.simps) auto
    qed (use f False w in \<open>subst resolve_loop.simps; simp\<close>)+
  qed (simp add: resolve_loop.simps frame_refl)
qed

lemma reads_resolve [reads_intros]: "reads I (resolve_path p n ff uid gid)"
  unfolding reads_def
proof (intro allI impI)
  fix s
  assume k: "reads_keep I s"
  have "frame I s (snd (bindE (resolve_loop ff uid gid 0 ROOT (tl p)) (\<lambda>r. ret (take (n - 1) r)) s))"
    using reads_resolve_loop [OF k, of ff uid gid 0 ROOT "tl p"]
    by (auto simp: bindE_def split: prod.split sum.split)
  then show "frame I s (snd (resolve_path p n ff uid gid s))" by (simp add: resolve_path_def frame_refl)
qed

lemma reads_parts [reads_intros]:
  "reads I m \<Longrightarrow> reads I (on_error msg m)" "reads I (fail_msg msg e)" "reads I (stat_or msg p)"
  "reads I (check_dir_write p uid gid)" "reads I (resolve_for_create p n uid gid)"
  unfolding on_error_def fail_msg_def stat_or_def check_dir_write_def resolve_for_create_def
  by (intro reads_intros; assumption?)+

lemma reads_same_mount [reads_intros]: "reads I (same_mount msg xdev p q)"
  using reads_parts(2) [of I]
  by (auto simp: reads_def same_mount_def frame_refl split: option.split prod.split)

text \<open>The path resolves, in a state that differs from \<open>s\<close> by reads only, to one whose parent
  directory the calling task may write.\<close>

definition may_change :: "('f \<Rightarrow> bool) \<Rightarrow> path \<Rightarrow> ('f, 'c) vfs \<Rightarrow> bool" where
  "may_change I p s \<longleftrightarrow> (\<exists>ff r s0 s1 s2 s3 pst.
     frame I s s0 \<and> resolve_path p MAX_PATH ff (cred_uid s) (cred_gid s) s0 = (Inr r, s1) \<and>
     frame I s s2 \<and> vfs_stat_raw (parent_of r MAX_PATH) s2 = (Inr pst, s3) \<and>
     vfs_access pst (cred_uid s) (cred_gid s) W_OK)"

lemma bind_reads:
  assumes "bindE m k s = (res, s')" and "\<not> I (drv s')" and "reads I m" and "reads_keep I s" and "I (drv s)"
  obtains x s1 where "m s = (Inr x, s1)" "frame I s s1" "k x s1 = (res, s')" "reads_keep I s1" "I (drv s1)"
proof -
  obtain r s1 where r: "m s = (r, s1)" by fastforce
  have f: "frame I s s1" by (rule readsD [OF assms(3,4) r])
  then have "reads_keep I s1" "I (drv s1)" using frame_reads_keep [OF f] assms(4,5) by (simp_all add: frame_def)
  then show ?thesis using assms(1,2) r f that by (cases r) (auto simp: bindE_def)
qed

lemma on_error_Inr: "on_error msg m s = (Inr x, s') \<longleftrightarrow> m s = (Inr x, s')"
  by (auto simp: on_error_def tryE_def bindE_def split: prod.split sum.split)

lemma check_dir_write_Inr:
  "check_dir_write r uid gid s = (Inr u, s') \<longleftrightarrow>
    (\<exists>pst. vfs_stat_raw (parent_of r MAX_PATH) s = (Inr pst, s') \<and> vfs_access pst uid gid W_OK)"
  by (auto simp: check_dir_write_def bindE_def testE_def guardE_def split: prod.splits sum.splits err.splits option.splits if_splits)

lemma may_changeI:
  assumes "frame I s s0" "resolve_path p MAX_PATH ff (cred_uid s) (cred_gid s) s0 = (Inr r, s1)"
    "frame I s s2" "check_dir_write r (cred_uid s) (cred_gid s) s2 = (Inr u, s3)"
  shows "may_change I p s"
  using assms unfolding check_dir_write_Inr may_change_def by blast

lemma may_change_create:
  assumes "frame I s s0" "reads_keep I s"
    "on_error msg (resolve_for_create p MAX_PATH (cred_uid s) (cred_gid s)) s0 = (Inr r, s1)"
  shows "may_change I p s"
proof -
  have k: "reads_keep I s0" using frame_reads_keep [OF assms(1)] assms(2) by simp
  obtain t1 where r: "resolve_path p MAX_PATH True (cred_uid s) (cred_gid s) s0 = (Inr r, t1)"
    and t: "bindE (testE (vfs_stat_raw r)) (\<lambda>x. case x of Some _ \<Rightarrow> fail (Errno (- EEXIST))
        | None \<Rightarrow> check_dir_write r (cred_uid s) (cred_gid s)) t1 = (Inr (), s1)"
    using assms(3) unfolding on_error_Inr resolve_for_create_def bindE_Inr by auto
  obtain x t2 where x: "vfs_stat_raw r t1 = (x, t2)" by fastforce
  have w: "check_dir_write r (cred_uid s) (cred_gid s) t2 = (Inr (), s1)"
    using t x by (auto simp: bindE_def testE_def split: sum.splits err.splits)
  have f1: "frame I s0 t1" by (rule readsD [OF reads_resolve k r])
  have "frame I t1 t2"
    using readsD [OF reads_stat_raw _ x] frame_reads_keep [OF f1] k by simp
  then have "frame I s t2" using f1 assms(1) frame_trans by blast
  then show ?thesis by (rule may_changeI [OF assms(1) r _ w])
qed

lemma creds: "frame I s t \<Longrightarrow> cred_uid t = cred_uid s \<and> cred_gid t = cred_gid s"
  by (simp add: frame_def)

lemma create_like:
  assumes run: "bindE (on_error msg (resolve_for_create p MAX_PATH (cred_uid s) (cred_gid s))) k s = (res, s')"
    and "\<not> I (drv s')" "reads_keep I s" "I (drv s)"
  shows "may_change I p s"
proof (rule bind_reads [OF run assms(2) _ assms(3,4)])
  show "reads I (on_error msg (resolve_for_create p MAX_PATH (cred_uid s) (cred_gid s)))"
    by (intro reads_intros)
qed (use may_change_create [OF frame_refl assms(3)] in blast)

lemma remove_like:
  assumes run0: "bindE (on_error msg (resolve_path p MAX_PATH False (cred_uid s) (cred_gid s))) cont s = (res, s')"
    and "\<not> I (drv s')" "reads_keep I s" "I (drv s)" and m: "\<And>r. reads I (m r)"
    and cont: "\<And>r. cont r = bindE (m r) (\<lambda>x. bindE (on_error msg' (check_dir_write r (cred_uid s) (cred_gid s))) (k r x))"
  shows "may_change I p s"
proof -
  note run = run0 [unfolded cont]
  obtain r s1 where r: "on_error msg (resolve_path p MAX_PATH False (cred_uid s) (cred_gid s)) s = (Inr r, s1)"
    "frame I s s1" "reads_keep I s1" "I (drv s1)"
    and c1: "bindE (m r) (\<lambda>x. bindE (on_error msg' (check_dir_write r (cred_uid s) (cred_gid s))) (k r x)) s1 = (res, s')"
    using bind_reads [OF run assms(2) _ assms(3,4)] reads_parts(1) reads_resolve by metis
  obtain x s2 where s2: "frame I s1 s2" "reads_keep I s2" "I (drv s2)"
    and c2: "bindE (on_error msg' (check_dir_write r (cred_uid s) (cred_gid s))) (k r x) s2 = (res, s')"
    using bind_reads [OF c1 assms(2) m r(3,4)] by metis
  obtain u s3 where "on_error msg' (check_dir_write r (cred_uid s) (cred_gid s)) s2 = (Inr u, s3)"
    using bind_reads [OF c2 assms(2) _ s2(2,3)] reads_parts(1,4) by metis
  then show ?thesis
    using may_changeI [OF frame_refl r(1) [unfolded on_error_Inr] frame_trans [OF r(2) s2(1)]]
    unfolding on_error_Inr by blast
qed

lemma may_change_frame:
  assumes "frame I s t" and "may_change I p t"
  shows "may_change I p s"
  using assms creds [OF assms(1)] frame_trans [OF assms(1)] unfolding may_change_def by metis

lemma bind_fail_msg [simp]: "bindE (fail_msg msg e) k = fail_msg msg e"
  by (simp add: fail_msg_def bindE_assoc)

lemma bind_if: "bindE (if b then m else n) k = (if b then bindE m k else bindE n k)"
  by simp

lemma unlink_change:
  assumes run: "vfs_unlink p s = (res, s')" and I: "\<not> I (drv s')" "reads_keep I s" "I (drv s)"
  shows "may_change I p s"
  by (rule remove_like [OF run [unfolded vfs_unlink_def bindE_get] I,
        where m = "\<lambda>r. bindE (stat_or ''unlink failed'' r) (\<lambda>st.
          if vtype st = VFS_DIR then fail_msg ''is a directory'' (- EISDIR) else ret st)"
        and k = "\<lambda>r x _. with_op ''unlink failed'' (- EROFS) r op_unlink (\<lambda>f sub.
          drv_result ''unlink failed'' (f sub False))" and msg' = "''permission denied''"])
    (intro reads_intros, simp add: bindE_assoc bind_if cong: if_cong)

lemma rmdir_change:
  assumes run: "vfs_rmdir p s = (res, s')" and I: "\<not> I (drv s')" "reads_keep I s" "I (drv s)"
  shows "may_change I p s"
  by (rule remove_like [OF run [unfolded vfs_rmdir_def bindE_get] I,
        where m = "\<lambda>r. if r = ROOT then fail_msg ''cannot remove root'' (- EACCES)
        else bindE (stat_or ''rmdir failed'' r) (\<lambda>st.
          if vtype st \<noteq> VFS_DIR then fail_msg ''not a directory'' (- ENOTDIR) else ret st)"
        and k = "\<lambda>r x _. with_op ''rmdir failed'' (- EROFS) r op_unlink (\<lambda>f sub.
          drv_result ''rmdir failed'' (f sub True))" and msg' = "''permission denied''"])
    (intro reads_intros, simp add: bindE_assoc bind_if cong: if_cong)

definition do_rename :: "path \<Rightarrow> path \<Rightarrow> (unit, ('f, 'c) vfs) op" where
  "do_rename r r' = bindE (same_mount ''rename failed'' ''cross-device rename'' r r')
     (\<lambda>(m, old_sub, new_sub) s.
        case op_rename (mount_ops m s) of
          None \<Rightarrow> fail_msg ''rename failed'' (- EROFS) s
        | Some f \<Rightarrow> drv_result ''rename failed'' (f old_sub new_sub) s)"

lemma rename_change_old:
  assumes run: "vfs_rename p q s = (res, s')" and I: "\<not> I (drv s')" "reads_keep I s" "I (drv s)"
  shows "may_change I p s"
  by (rule remove_like [OF run [unfolded vfs_rename_def bindE_get, folded do_rename_def] I,
        where m = "\<lambda>r.
          bindE (on_error ''rename failed'' (resolve_path q MAX_PATH False (cred_uid s) (cred_gid s))) (\<lambda>r'.
          bindE (stat_or ''rename failed'' r) (\<lambda>_. ret r'))"
        and k = "\<lambda>r r' _. bindE (on_error ''permission denied'' (check_dir_write r' (cred_uid s) (cred_gid s)))
          (\<lambda>_. do_rename r r')"])
    (intro reads_intros, simp add: bindE_assoc)

lemma rename_change_new:
  assumes run: "vfs_rename p q s = (res, s')" and I: "\<not> I (drv s')" "reads_keep I s" "I (drv s)"
  shows "may_change I q s"
proof (rule bind_reads [OF run [unfolded vfs_rename_def bindE_get, folded do_rename_def] I(1) _ I(2,3)])
  fix r s1
  assume f: "frame I s s1" and s1: "reads_keep I s1" "I (drv s1)"
    and run1: "bindE (on_error ''rename failed'' (resolve_path q MAX_PATH False (cred_uid s) (cred_gid s))) (\<lambda>r'.
      bindE (stat_or ''rename failed'' r) (\<lambda>_.
      bindE (on_error ''permission denied'' (check_dir_write r (cred_uid s) (cred_gid s))) (\<lambda>_.
      bindE (on_error ''permission denied'' (check_dir_write r' (cred_uid s) (cred_gid s))) (\<lambda>_.
      do_rename r r')))) s1 = (res, s')"
  have c: "cred_uid s = cred_uid s1" "cred_gid s = cred_gid s1" using creds [OF f] by simp_all
  have "may_change I q s1"
    by (rule remove_like [OF run1 [unfolded c] I(1) s1,
          where m = "\<lambda>_. bindE (stat_or ''rename failed'' r) (\<lambda>_.
            on_error ''permission denied'' (check_dir_write r (cred_uid s1) (cred_gid s1)))"
          and k = "\<lambda>r' _ _. do_rename r r'"])
      (intro reads_intros, simp add: bindE_assoc)
  then show "may_change I q s" by (rule may_change_frame [OF f])
qed (intro reads_intros)

lemma link_change:
  assumes run: "vfs_link q p s = (res, s')" and I: "\<not> I (drv s')" "reads_keep I s" "I (drv s)"
  shows "may_change I p s"
proof (rule bind_reads [OF run [unfolded vfs_link_def bindE_get] I(1) _ I(2,3)])
  fix r s1
  assume f1: "frame I s s1" and s1: "reads_keep I s1" "I (drv s1)"
    and run1: "bindE (stat_or ''link failed'' r) (\<lambda>st.
     if vtype st = VFS_DIR then fail_msg ''cannot link directories'' (- EPERM)
     else bindE (on_error ''link failed'' (resolve_for_create p MAX_PATH (cred_uid s) (cred_gid s))) (\<lambda>r'.
     bindE (same_mount ''link failed'' ''cross-device link'' r r')
       (\<lambda>(m, old_sub, new_sub) s.
         case op_link (mount_ops m s) of
           None \<Rightarrow> fail_msg ''link failed'' (- EROFS) s
         | Some f \<Rightarrow> drv_result ''link failed'' (f old_sub new_sub) s))) s1 = (res, s')"
  show "may_change I p s"
  proof (rule bind_reads [OF run1 I(1) _ s1])
    fix st s2
    assume f2: "frame I s1 s2" and s2: "reads_keep I s2" "I (drv s2)"
      and run2: "(if vtype st = VFS_DIR then fail_msg ''cannot link directories'' (- EPERM)
        else bindE (on_error ''link failed'' (resolve_for_create p MAX_PATH (cred_uid s) (cred_gid s))) (\<lambda>r'.
        bindE (same_mount ''link failed'' ''cross-device link'' r r')
          (\<lambda>(m, old_sub, new_sub) s.
            case op_link (mount_ops m s) of
              None \<Rightarrow> fail_msg ''link failed'' (- EROFS) s
            | Some f \<Rightarrow> drv_result ''link failed'' (f old_sub new_sub) s))) s2 = (res, s')"
    have f: "frame I s s2" by (rule frame_trans [OF f1 f2])
    have "vtype st \<noteq> VFS_DIR" using run2 I(1) s2(2) by (auto simp: fail_msg_def set_error_def split: if_splits)
    note run3 = run2 [unfolded if_not_P [OF this]]
    have c: "cred_uid s = cred_uid s2" "cred_gid s = cred_gid s2" using creds [OF f] by simp_all
    have "may_change I p s2" by (rule create_like [OF run3 [unfolded c] I(1) s2])
    then show ?thesis by (rule may_change_frame [OF f])
  qed (intro reads_intros)
qed (intro reads_intros)

text \<open>C15. No change without permission. Suppose some condition on the drivers' state is kept by
  every driver's \<^verbatim>\<open>stat\<close> and \<^verbatim>\<open>readlink\<close>. If creating, removing, linking or renaming a path breaks
  it, then that path resolves to one whose parent directory the calling task may write: a
  task without that permission has no effect on the drivers beyond such reads.\<close>

theorem vfs_change_permitted:
  assumes "(m :: (unit, ('f, 'c) vfs) op) \<in> {vfs_create p, vfs_mkdir p, vfs_unlink p, vfs_rmdir p, vfs_symlink t p,
      vfs_link q p, vfs_rename p q, vfs_rename q p}"
    and "reads_keep I s" and "I (drv s)" and "m s = (res, s')" and "\<not> I (drv s')"
  shows "may_change I p s"
proof -
  note I = assms(5,2,3)
  note create = create_like [OF _ I]
  have "may_change I p s" if "vfs_create p s = (res, s')"
    using create that unfolding vfs_create_def bindE_get by blast
  moreover have "may_change I p s" if "vfs_mkdir p s = (res, s')"
    using create that unfolding vfs_mkdir_def bindE_get by blast
  moreover have "may_change I p s" if "vfs_symlink t p s = (res, s')"
    using create that unfolding vfs_symlink_def bindE_get by blast
  ultimately show ?thesis
    using assms(1,4) unlink_change [OF _ I] rmdir_change [OF _ I] link_change [OF _ I]
      rename_change_old [OF _ I] rename_change_new [OF _ I] by blast
qed

section \<open>Normalisation\<close>

lemma tokens_Nil [simp]: "tokens [] = []"
  by (simp add: tokens.simps)

lemma tokens_slash: "tokens (SLASH # xs) = tokens xs"
  by (subst (1 2) tokens.simps) simp

lemma tokens_step:
  fixes s :: bytes
  defines "r \<equiv> dropWhile (\<lambda>c. c = SLASH) s"
  defines "t \<equiv> takeWhile (\<lambda>c. c \<noteq> SLASH) r" and "d \<equiv> dropWhile (\<lambda>c. c \<noteq> SLASH) r"
  assumes "r \<noteq> []"
  shows "tokens s = t # tokens (tl d)" and "t \<noteq> []" and "SLASH \<notin> set t"
    and "length t + length (tl d) \<le> length s" and "d \<noteq> [] \<Longrightarrow> length t + Suc (length (tl d)) \<le> length s"
proof -
  have hd: "hd r \<noteq> SLASH" using hd_dropWhile [of "\<lambda>c. c = SLASH" s] assms(4) by (simp add: r_def)
  show "t \<noteq> []" using hd assms(4) by (cases r) (auto simp: t_def)
  show "SLASH \<notin> set t" by (auto simp: t_def dest: set_takeWhileD)
  have "tokens d = tokens (tl d)"
  proof (cases d)
    case (Cons x xs)
    then have "x = SLASH" using hd_dropWhile [of "\<lambda>c. c \<noteq> SLASH" r] by (simp add: d_def)
    then show ?thesis using Cons tokens_slash by simp
  qed simp
  moreover have "tokens s = t # tokens d"
    using tokens.simps [of s] assms(4) by (simp add: Let_def r_def t_def d_def)
  ultimately show "tokens s = t # tokens (tl d)" by simp
  have "length t + length d = length r" by (metis length_append takeWhile_dropWhile_id t_def d_def)
  moreover have "length r \<le> length s" unfolding r_def by (rule length_dropWhile_le)
  ultimately show "length t + length (tl d) \<le> length s"
    and "d \<noteq> [] \<Longrightarrow> length t + Suc (length (tl d)) \<le> length s" by simp_all
qed

lemma tokens_empty: "dropWhile (\<lambda>c. c = SLASH) s = [] \<Longrightarrow> tokens s = []"
  using tokens.simps [of s] by simp

lemma tokens_cases:
  obtains (empty) "tokens s = []"
  | (step) t d where "tokens s = t # tokens d" "t \<noteq> []" "SLASH \<notin> set t" "length d < length s"
      "length t \<le> length s" "d = [] \<or> length t + Suc (length d) \<le> length s"
proof (cases "dropWhile (\<lambda>c. c = SLASH) s = []")
  case True
  then show ?thesis using tokens_empty empty by blast
next
  case False
  define r where "r = dropWhile (\<lambda>c. c = SLASH) s"
  define t where "t = takeWhile (\<lambda>c. c \<noteq> SLASH) r"
  define d where "d = dropWhile (\<lambda>c. c \<noteq> SLASH) r"
  have st: "tokens s = t # tokens (tl d)" "t \<noteq> []" "SLASH \<notin> set t" "length t + length (tl d) \<le> length s"
    "d \<noteq> [] \<Longrightarrow> length t + Suc (length (tl d)) \<le> length s"
    using tokens_step [OF False] unfolding t_def d_def r_def by blast+
  obtain x xs where "t = x # xs" using st(2) by (cases t) auto
  then show ?thesis using step [OF st(1,2,3)] st(4,5) by (cases "d = []"; cases s) auto
qed

lemma tokens_parts: "t \<in> set (tokens s) \<Longrightarrow> t \<noteq> [] \<and> SLASH \<notin> set t"
proof (induction "length s" arbitrary: s rule: less_induct)
  case less
  show ?case
  proof (cases s rule: tokens_cases)
    case (step t' d)
    then show ?thesis using less.hyps [OF step(4)] less.prems by auto
  qed (use less.prems in simp)
qed

definition weight :: "path list \<Rightarrow> nat" where
  "weight ts = sum_list (map (\<lambda>t. Suc (length t)) ts)"

lemma tokens_weight: "weight (tokens s) \<le> Suc (length s)"
proof (induction "length s" arbitrary: s rule: less_induct)
  case less
  show ?case
  proof (cases s rule: tokens_cases)
    case (step t d)
    have "weight (tokens s) = Suc (length t) + weight (tokens d)" using step(1) by (simp add: weight_def)
    moreover have "weight (tokens d) = 0" if "d = []" using that by (simp add: weight_def)
    ultimately show ?thesis using less [OF step(4)] step(5,6) by auto
  qed (simp add: weight_def)
qed

lemma tokens_component:
  assumes "c \<noteq> []" and "SLASH \<notin> set c"
  shows "tokens (c @ SLASH # xs) = c # tokens xs" and "tokens c = [c]"
proof -
  have "hd c \<noteq> SLASH" using assms by (cases c) auto
  then have d: "dropWhile (\<lambda>x. x = SLASH) (c @ ys) = c @ ys" for ys using assms(1) by (cases c) auto
  have t: "takeWhile (\<lambda>x. x \<noteq> SLASH) (c @ SLASH # ys) = c" "dropWhile (\<lambda>x. x \<noteq> SLASH) (c @ SLASH # ys) = SLASH # ys"
    "takeWhile (\<lambda>x. x \<noteq> SLASH) c = c" "dropWhile (\<lambda>x. x \<noteq> SLASH) c = []" for ys
    using assms(2) by (auto simp: takeWhile_eq_all_conv takeWhile_append dropWhile_append)
  show "tokens (c @ SLASH # xs) = c # tokens xs"
    by (subst tokens.simps) (simp only: Let_def d t tokens_slash, simp add: assms(1))
  show "tokens c = [c]"
    by (subst tokens.simps) (use d [of "[]"] in \<open>simp only: append_Nil2 Let_def t tokens_Nil, simp add: assms(1)\<close>)
qed

lemma tokens_join: "\<forall>c \<in> set cs. plain c \<Longrightarrow> tokens (tl (join cs)) = cs"
proof (induction cs)
  case (Cons c cs)
  then have c: "c \<noteq> []" "SLASH \<notin> set c" and IH: "tokens (tl (join cs)) = cs" by (auto simp: plain_def)
  show ?case
  proof (cases cs)
    case Nil
    then show ?thesis using tokens_component(2) [OF c] by simp
  next
    case (Cons d ds)
    have "tl (join (c # cs)) = c @ SLASH # tl (join cs)" unfolding Cons by simp
    then show ?thesis using tokens_component(1) [OF c] IH by simp
  qed
qed simp

lemma length_join_snoc: "length (join (cs @ [c])) \<le> length (join cs) + Suc (length c)"
  by (simp add: join_snoc)

lemma append_all_spec:
  assumes "canonical out" and "\<And>t. t \<in> set ts \<Longrightarrow> t \<noteq> [] \<and> SLASH \<notin> set t"
    and "length out + weight ts < MAX_PATH"
  shows "\<exists>out'. append_all out ts = Some out' \<and> canonical out'"
  using assms
proof (induction ts arbitrary: out)
  case (Cons t ts)
  obtain cs where cs: "out = join cs" "\<forall>c \<in> set cs. plain c" using Cons.prems(1) by (auto simp: canonical_def)
  have t: "t \<noteq> []" "SLASH \<notin> set t" using Cons.prems(2) by auto
  have "\<exists>out1. append_component out t = Some out1 \<and> canonical out1 \<and> length out1 \<le> length out + Suc (length t)"
  proof (cases "t = DOT \<or> t = DOTDOT")
    case True
    then show ?thesis
      using Cons.prems(1) resolved_append_dotdot [OF cs(2)] length_join_butlast [of cs] t(1) cs(1)
        canonical_append [of out DOTDOT "join (butlast cs)"]
      by (auto simp: append_component_resolved resolved_append_def)
  next
    case False
    then have p: "plain t" using t by (simp add: plain_def)
    have "length (join (cs @ [t])) < MAX_PATH"
      using length_join_snoc [of cs t] Cons.prems(3) cs(1) by (simp add: weight_def)
    then show ?thesis
      using resolved_append_plain [OF cs(2) p] canonical_append [OF Cons.prems(1), of t "join (cs @ [t])"] p t(1)
        length_join_snoc [of cs t] cs(1)
      by (auto simp: append_component_resolved)
  qed
  then obtain out1 where o: "append_component out t = Some out1" "canonical out1" "length out1 \<le> length out + Suc (length t)"
    by blast
  then have "length out1 + weight ts < MAX_PATH" using Cons.prems(3) by (simp add: weight_def)
  then show ?case using Cons.IH [OF o(2)] Cons.prems(2) o(1) by auto
qed simp

lemma append_all_join:
  assumes "\<forall>c \<in> set (cs @ ds). plain c" and "length (join (cs @ ds)) < MAX_PATH"
  shows "append_all (join cs) ds = Some (join (cs @ ds))"
  using assms
proof (induction ds arbitrary: cs)
  case (Cons d ds)
  have d: "plain d" "d \<noteq> []" using Cons.prems(1) by (auto simp: plain_def)
  have "length (join (cs @ [d])) \<le> length (join (cs @ d # ds))"
    by (cases cs) (auto simp: sum_list_addf)
  then have "append_component (join cs) d = Some (join (cs @ [d]))"
    using resolved_append_plain [of cs d] Cons.prems d by (simp add: append_component_resolved)
  then show ?case using Cons.IH [of "cs @ [d]"] Cons.prems by simp
qed simp

text \<open>C20. Normalising a path against a canonical working directory, when both fit into a path
  buffer together, gives a canonical path, and normalising that again from anywhere gives
  the same path.\<close>

theorem vfs_normalize_canonical:
  assumes "canonical cwd" and "length cwd + length p < MAX_PATH - 1"
  shows "\<exists>out. vfs_normalize (Some cwd) (Some p) = Some out \<and> canonical out \<and>
    (\<forall>d. vfs_normalize d (Some out) = Some out)"
proof -
  have again: "vfs_normalize d (Some out) = Some out" if out: "canonical out" for out d
  proof -
    obtain cs where cs: "out = join cs" "\<forall>c \<in> set cs. plain c" "length (join cs) < MAX_PATH"
      using out by (auto simp: canonical_def)
    obtain xs where c: "out = SLASH # xs" using join_ne [of cs] cs(1) by (cases "join cs") auto
    have "append_all ROOT (tokens (tl out)) = Some out"
      using append_all_join [of "[]" cs] tokens_join [OF cs(2)] cs by simp
    moreover have "take (MAX_PATH - 1) (tl out) = tl out" using cs(1,3) by simp
    ultimately show ?thesis by (simp add: c vfs_normalize_def)
  qed
  have cwd: "take (MAX_PATH - 1) cwd = cwd" "cwd \<noteq> []"
    using canonical_take [OF assms(1)] assms(1) join_ne(1) by (auto simp: canonical_def)
  have run: "\<exists>out'. append_all out (tokens x) = Some out' \<and> canonical out'"
    if "canonical out" "length out + length x < MAX_PATH - 1" for out x
    using append_all_spec [OF that(1) tokens_parts [of _ x]] tokens_weight [of x] that(2) by auto
  have len: "1 \<le> length cwd" using cwd(2) by (cases cwd) auto
  have "\<exists>out. vfs_normalize (Some cwd) (Some p) = Some out \<and> canonical out"
  proof (cases p)
    case Nil
    then show ?thesis using cwd assms(1) by (simp add: vfs_normalize_def)
  next
    case (Cons c cs)
    have t: "take 255 cs = cs" "take 255 (c # cs) = c # cs" using Cons assms(2) by simp_all
    have "canonical (if c = SLASH then ROOT else cwd)" using canonical_ROOT assms(1) by simp
    moreover have "length (if c = SLASH then ROOT else cwd) + length (if c = SLASH then cs else c # cs) < MAX_PATH - 1"
      using len Cons assms(2) by simp
    ultimately obtain out where out: "append_all (if c = SLASH then ROOT else cwd) (tokens (if c = SLASH then cs else c # cs)) = Some out"
      "canonical out"
      using run by blast
    moreover have "out \<noteq> []" using out(2) join_ne(1) by (auto simp: canonical_def)
    ultimately show ?thesis
      using cwd t Cons by (cases cwd) (auto simp: vfs_normalize_def split: if_splits)
  qed
  then show ?thesis using again by blast
qed

text \<open>C21. Without that bound the buffer overflows: there are a canonical working directory and a
  path, each shorter than a path buffer, whose normalisation writes past the end of the
  output buffer.\<close>

theorem vfs_normalize_overflow:
  "\<exists>cwd p. canonical cwd \<and> length p < MAX_PATH \<and> vfs_normalize (Some cwd) (Some p) = None"
proof -
  let ?c = "replicate 200 97 :: path" and ?p = "replicate 100 97 :: path"
  have "plain xs" if "2 < length xs" "SLASH \<notin> set xs" for xs using that by (auto simp: plain_def)
  from this [of ?c] this [of ?p] have pl: "plain ?c" "plain ?p" by simp_all
  have "canonical (join [?c])" using pl(1) by (auto simp: canonical_def intro!: exI [of _ "[?c]"])
  moreover have "tokens ?p = [?p]" using tokens_component(2) [of ?p] pl(2) by (simp add: plain_def)
  moreover have "append_component (join [?c]) ?p = None"
    using resolved_append_plain [of "[?c]" ?p] pl by (simp add: append_component_resolved plain_def)
  moreover have "?p = 97 # replicate 99 97" using replicate_Suc [of 99 "97 :: u8"] by (simp del: replicate_Suc)
  ultimately have "vfs_normalize (Some (join [?c])) (Some ?p) = None"
    by (simp add: vfs_normalize_def)
  then show ?thesis using \<open>canonical (join [?c])\<close> by (intro exI [of _ "join [?c]"] exI [of _ ?p]) simp
qed

section \<open>Concrete instances\<close>

text \<open>A driver that keeps its files in memory, as a map from paths, and a system with it mounted
  at the root: a directory owned by task user 1000 and a symlink to itself.\<close>

definition tree_ops :: "(path \<rightharpoonup> vfs_stat \<times> bytes, 'c) vfs_ops" where
  "tree_ops = \<lparr>
     op_stat = Some (\<lambda>p t. (case t p of None \<Rightarrow> Inl (Errno (-1)) | Some (st, _) \<Rightarrow> Inr st, t)),
     op_read_file = None, op_write_file = None,
     op_create = Some (\<lambda>p dir t. (Inr (), t(p \<mapsto> the (t ROOT)))),
     op_unlink = None, op_rename = None, op_readdir = None, op_chmod = None, op_chown = None,
     op_readlink = Some (\<lambda>p n t. (case t p of None \<Rightarrow> Inl (Errno (-2)) | Some (_, d) \<Rightarrow> Inr (take n d), t)),
     op_link = None, op_symlink = None\<rparr>"

definition node :: "vfs_node_type \<Rightarrow> u32 \<Rightarrow> vfs_stat" where
  "node ty mode = \<lparr>vtype = ty, vsize = 0, vmode = 0, st_mode = mode, st_uid = 1000, st_gid = 1000, st_nlink = 1,
     st_ino = 2, st_atime = 0, st_mtime = 0, st_ctime = 0, st_blocks = 0, st_blksize = 1024\<rparr>"

definition demo_tree :: "path \<rightharpoonup> vfs_stat \<times> bytes" where
  "demo_tree = [ROOT \<mapsto> (node VFS_DIR 0x41ED, []), [47, 120] \<mapsto> (node VFS_SYMLINK 0xA1FF, [120])]"

definition demo_mount :: "path \<Rightarrow> (path \<rightharpoonup> vfs_stat \<times> bytes, unit) vfs_mount" where
  "demo_mount p = \<lparr>mountpoint = p, mtype = VFS_FS_NONE, ops = tree_ops, fs_private = 0\<rparr>"

definition demo :: "(path \<rightharpoonup> vfs_stat \<times> bytes, unit) vfs" where
  "demo = \<lparr>mount_table = [demo_mount ROOT], last_error = [], drv = demo_tree, cred_uid = 1000, cred_gid = 1000\<rparr>"

lemma demo_dispatch: "vfs_dispatch (SLASH # xs) n demo = Some (0, take (n - 1) (SLASH # xs))"
  by (simp add: vfs_dispatch_def vfs_find_mount_def demo_def demo_mount_def path_under_mount_def)

lemma demo_simps [simp]:
  "mount_ops 0 demo = tree_ops" "drv demo = demo_tree" "demo\<lparr>drv := demo_tree\<rparr> = demo"
  "cred_uid demo = 1000" "cred_gid demo = 1000"
  by (simp_all add: demo_def mount_ops_def demo_mount_def)

lemma tree_ops_simps [simp]:
  "op_stat tree_ops = Some (\<lambda>p t. (case t p of None \<Rightarrow> Inl (Errno (-1)) | Some (st, _) \<Rightarrow> Inr st, t))"
  "op_readlink tree_ops = Some (\<lambda>p n t. (case t p of None \<Rightarrow> Inl (Errno (-2)) | Some (_, d) \<Rightarrow> Inr (take n d), t))"
  "op_create tree_ops = Some (\<lambda>p dir t. (Inr (), t(p \<mapsto> the (t ROOT))))"
  by (simp_all add: tree_ops_def)

lemma demo_stat: "vfs_stat_raw (SLASH # xs) demo =
    (case demo_tree (take 255 (SLASH # xs)) of None \<Rightarrow> (Inl (Errno (-1)), demo) | Some (st, _) \<Rightarrow> (Inr st, demo))"
  by (simp add: vfs_stat_raw_def demo_dispatch on_drv_def as_errno_def split: option.split)

lemma demo_readlink: "vfs_readlink_raw [47, 120] 255 demo = (Inr [120], demo)"
  by (simp add: vfs_readlink_raw_def demo_dispatch on_drv_def demo_tree_def)

theorem vfs_find_mount_longest_witness:
  "\<exists>s :: (path \<rightharpoonup> vfs_stat \<times> bytes, unit) vfs. mounts_ok s \<and> vfs_find_mount [47, 102, 47, 120] s = Some 1 \<and>
    vfs_find_mount [47, 102, 120] s = Some 0 \<and>
    length (mountpoint (mount_table s ! 0)) \<le> length (mountpoint (mount_table s ! 1))"
proof -
  define s where "s = demo\<lparr>mount_table := [demo_mount ROOT, demo_mount [47, 102]]\<rparr>"
  have ok: "mounts_ok s" by (simp add: s_def mounts_ok_def demo_mount_def)
  have f: "vfs_find_mount [47, 102, 47, 120] s = Some 1" "vfs_find_mount [47, 102, 120] s = Some 0"
    by (simp_all add: s_def vfs_find_mount_def demo_mount_def path_under_mount_def Let_def)
  have "length (mountpoint (mount_table s ! 0)) \<le> length (mountpoint (mount_table s ! 1))"
    using vfs_find_mount_longest [OF ok, of "[47, 102, 47, 120]"] f(1)
    by (simp add: s_def demo_mount_def covers_def)
  with ok f show ?thesis by blast
qed



theorem vfs_change_permitted_witness:
  "\<exists>res s'. vfs_create [47, 97] demo = (res, s') \<and> drv s' \<noteq> demo_tree \<and> may_change (\<lambda>d. d = demo_tree) [47, 97] demo"
proof -
  have step: "resolve_step True 1000 1000 0 ROOT [97] demo = (Finish [47, 97], demo)"
    by (simp add: resolve_step_def demo_stat demo_tree_def resolved_append_def strcat_path_def node_def vfs_access_def)
  then have "resolve_path [47, 97] MAX_PATH True 1000 1000 demo = (Inr [47, 97], demo)"
    by (simp add: resolve_path_def bindE_def resolve_loop.simps)
  moreover have "vfs_stat_raw [47, 97] demo = (Inl (Errno (-1)), demo)"
    by (simp add: demo_stat demo_tree_def)
  moreover have "check_dir_write [47, 97] 1000 1000 demo = (Inr (), demo)"
    by (simp add: check_dir_write_def parent_of_def bindE_def testE_def demo_stat demo_tree_def node_def vfs_access_def guardE_def)
  ultimately have "resolve_for_create [47, 97] MAX_PATH 1000 1000 demo = (Inr [47, 97], demo)"
    by (simp add: resolve_for_create_def bindE_def testE_def)
  then have run: "vfs_create [47, 97] demo = (Inr (), demo\<lparr>drv := demo_tree([47, 97] \<mapsto> the (demo_tree ROOT))\<rparr>)"
    by (simp add: vfs_create_def bindE_def on_error_def tryE_def with_op_def demo_dispatch drv_result_def on_drv_def)
  moreover have "demo_tree([47, 97] \<mapsto> the (demo_tree ROOT)) \<noteq> demo_tree"
    by (auto simp: fun_eq_iff demo_tree_def intro!: exI [of _ "[47, 97]"])
  moreover have "reads_keep (\<lambda>d. d = demo_tree) demo"
    by (simp add: reads_keep_def demo_def demo_mount_def)
  ultimately show ?thesis
    using vfs_change_permitted [of "vfs_create [47, 97]" "[47, 97]" "[]" "[]" "\<lambda>d. d = demo_tree" demo] by auto
qed

theorem vfs_normalize_canonical_witness:
  "canonical ROOT \<and> (\<exists>out. vfs_normalize (Some ROOT) (Some [97, 47, 46]) = Some out \<and> canonical out)"
  using vfs_normalize_canonical [OF canonical_ROOT, of "[97, 47, 46]"] canonical_ROOT by auto

theorem vfs_access_unix_witness:
  "vfs_access (node VFS_FILE 0x1A4) 1000 7 (R_OK OR W_OK) \<and> \<not> vfs_access (node VFS_FILE 0x1A4) 7 7 W_OK \<and>
   \<not> vfs_access (node VFS_FILE 0x1A4) 0 0 X_OK"
proof -
  have three: "(\<forall>b < 3. P b) \<longleftrightarrow> P 0 \<and> P 1 \<and> P (2 :: nat)" for P
    by (auto simp: numeral_3_eq_3 less_Suc_eq numeral_2_eq_2)
  show ?thesis
    unfolding vfs_access_unix three by (simp add: node_def unix_class_def)
qed

end
