(* ===== verification/Ext2.thy ===== *)
theory Ext2
  imports Fallible
begin

unbundle bit_operations_syntax

text \<open>
  The lower half of the EXT2 driver: the on-disk structures of \<^verbatim>\<open>fs/ext2/ext2.h\<close>, the
  block cache (\<^verbatim>\<open>block.c\<close>), the superblock and the group descriptors (\<^verbatim>\<open>super.c\<close>),
  inodes (\<^verbatim>\<open>inode.c\<close>) and the allocators (\<^verbatim>\<open>alloc.c\<close>). A disk is its sectors and the
  sectors whose reads or writes fail. The driver's globals are one record, together with what
  it asks of the rest of the kernel: the clock, the credentials of the calling task and
  whether the heap can serve a request. Diagnostics printed on the console are not modelled.
\<close>

section \<open>Disk\<close>

record disk =
  sectors :: "u32 \<Rightarrow> bytes"
  rd_fail :: "u32 \<Rightarrow> bool"
  wr_fail :: "u32 \<Rightarrow> bool"
  present :: bool

definition disk_read :: "disk \<Rightarrow> u32 \<Rightarrow> bytes option" where
  "disk_read d lba = (if rd_fail d lba then None else Some (sectors d lba))"

definition disk_write :: "disk \<Rightarrow> u32 \<Rightarrow> bytes \<Rightarrow> bool \<times> disk" where
  "disk_write d lba b = (if wr_fail d lba then (False, d) else (True, d\<lparr>sectors := (sectors d)(lba := b)\<rparr>))"

section \<open>On-disk structures\<close>

record ext2_superblock =
  s_inodes_count :: u32
  s_blocks_count :: u32
  s_r_blocks_count :: u32
  s_free_blocks_count :: u32
  s_free_inodes_count :: u32
  s_first_data_block :: u32
  s_log_block_size :: u32
  s_log_frag_size :: u32
  s_blocks_per_group :: u32
  s_frags_per_group :: u32
  s_inodes_per_group :: u32
  s_mtime :: u32
  s_wtime :: u32
  s_mnt_count :: u16
  s_max_mnt_count :: u16
  s_magic :: u16
  s_state :: u16
  s_errors :: u16
  s_minor_rev_level :: u16
  s_lastcheck :: u32
  s_checkinterval :: u32
  s_creator_os :: u32
  s_rev_level :: u32
  s_def_resuid :: u16
  s_def_resgid :: u16
  s_first_ino :: u32
  s_inode_size :: u16
  s_block_group_nr :: u16
  s_feature_compat :: u32
  s_feature_incompat :: u32
  s_feature_ro_compat :: u32
  s_uuid :: bytes
  s_volume_name :: bytes
  s_last_mounted :: bytes
  s_algo_bitmap :: u32
  s_prealloc_blocks :: u8
  s_prealloc_dir_blocks :: u8
  s_padding1 :: u16
  s_journal_uuid :: bytes
  s_journal_inum :: u32
  s_journal_dev :: u32
  s_last_orphan :: u32
  s_hash_seed :: "u32 list"
  s_def_hash_version :: u8
  s_reserved_char_pad :: u8
  s_reserved_word_pad :: u16
  s_default_mount_opts :: u32
  s_first_meta_bg :: u32
  s_reserved :: bytes

definition superblock_of :: "bytes \<Rightarrow> ext2_superblock" where
  "superblock_of b = \<lparr>
     s_inodes_count = get32 b 0, s_blocks_count = get32 b 4, s_r_blocks_count = get32 b 8,
     s_free_blocks_count = get32 b 12, s_free_inodes_count = get32 b 16, s_first_data_block = get32 b 20,
     s_log_block_size = get32 b 24, s_log_frag_size = get32 b 28, s_blocks_per_group = get32 b 32,
     s_frags_per_group = get32 b 36, s_inodes_per_group = get32 b 40, s_mtime = get32 b 44,
     s_wtime = get32 b 48, s_mnt_count = get16 b 52, s_max_mnt_count = get16 b 54, s_magic = get16 b 56,
     s_state = get16 b 58, s_errors = get16 b 60, s_minor_rev_level = get16 b 62, s_lastcheck = get32 b 64,
     s_checkinterval = get32 b 68, s_creator_os = get32 b 72, s_rev_level = get32 b 76,
     s_def_resuid = get16 b 80, s_def_resgid = get16 b 82, s_first_ino = get32 b 84,
     s_inode_size = get16 b 88, s_block_group_nr = get16 b 90, s_feature_compat = get32 b 92,
     s_feature_incompat = get32 b 96, s_feature_ro_compat = get32 b 100, s_uuid = bslice 104 16 b,
     s_volume_name = bslice 120 16 b, s_last_mounted = bslice 136 64 b, s_algo_bitmap = get32 b 200,
     s_prealloc_blocks = b ! 204, s_prealloc_dir_blocks = b ! 205, s_padding1 = get16 b 206,
     s_journal_uuid = bslice 208 16 b, s_journal_inum = get32 b 224, s_journal_dev = get32 b 228,
     s_last_orphan = get32 b 232, s_hash_seed = map (\<lambda>i. get32 b (236 + 4 * i)) [0..<4],
     s_def_hash_version = b ! 252, s_reserved_char_pad = b ! 253, s_reserved_word_pad = get16 b 254,
     s_default_mount_opts = get32 b 256, s_first_meta_bg = get32 b 260, s_reserved = bslice 264 760 b\<rparr>"

record ext2_bgdt_entry =
  bg_block_bitmap :: u32
  bg_inode_bitmap :: u32
  bg_inode_table :: u32
  bg_free_blocks_count :: u16
  bg_free_inodes_count :: u16
  bg_used_dirs_count :: u16
  bg_pad :: u16
  bg_reserved :: "u32 list"

definition bgdt_entry_of :: "bytes \<Rightarrow> ext2_bgdt_entry" where
  "bgdt_entry_of b = \<lparr>
     bg_block_bitmap = get32 b 0, bg_inode_bitmap = get32 b 4, bg_inode_table = get32 b 8,
     bg_free_blocks_count = get16 b 12, bg_free_inodes_count = get16 b 14, bg_used_dirs_count = get16 b 16,
     bg_pad = get16 b 18, bg_reserved = map (\<lambda>i. get32 b (20 + 4 * i)) [0..<3]\<rparr>"

record ext2_inode =
  i_mode :: u16
  i_uid :: u16
  i_size :: u32
  i_atime :: u32
  i_ctime :: u32
  i_mtime :: u32
  i_dtime :: u32
  i_gid :: u16
  i_links_count :: u16
  i_blocks :: u32
  i_flags :: u32
  i_osd1 :: u32
  i_block :: "u32 list"
  i_generation :: u32
  i_file_acl :: u32
  i_dir_acl :: u32
  i_faddr :: u32
  i_osd2 :: bytes

definition inode_of :: "bytes \<Rightarrow> ext2_inode" where
  "inode_of b = \<lparr>
     i_mode = get16 b 0, i_uid = get16 b 2, i_size = get32 b 4, i_atime = get32 b 8, i_ctime = get32 b 12,
     i_mtime = get32 b 16, i_dtime = get32 b 20, i_gid = get16 b 24, i_links_count = get16 b 26,
     i_blocks = get32 b 28, i_flags = get32 b 32, i_osd1 = get32 b 36,
     i_block = map (\<lambda>i. get32 b (40 + 4 * i)) [0..<15], i_generation = get32 b 100,
     i_file_acl = get32 b 104, i_dir_acl = get32 b 108, i_faddr = get32 b 112, i_osd2 = bslice 116 12 b\<rparr>"

definition inode_bytes :: "ext2_inode \<Rightarrow> bytes" where
  "inode_bytes i =
     put16 (i_mode i) @ put16 (i_uid i) @ put32 (i_size i) @ put32 (i_atime i) @ put32 (i_ctime i) @
     put32 (i_mtime i) @ put32 (i_dtime i) @ put16 (i_gid i) @ put16 (i_links_count i) @
     put32 (i_blocks i) @ put32 (i_flags i) @ put32 (i_osd1 i) @ concat (map put32 (i_block i)) @
     put32 (i_generation i) @ put32 (i_file_acl i) @ put32 (i_dir_acl i) @ put32 (i_faddr i) @ i_osd2 i"

definition empty_inode :: ext2_inode where
  "empty_inode = inode_of (replicate 128 0)"

abbreviation (input) EXT2_MAGIC :: u16 where "EXT2_MAGIC \<equiv> 0xEF53"
abbreviation (input) EXT2_ROOT_INODE :: u32 where "EXT2_ROOT_INODE \<equiv> 2"
abbreviation (input) EXT2_MIN_INODE_SIZE :: u32 where "EXT2_MIN_INODE_SIZE \<equiv> 128"
abbreviation (input) EXT2_DYNAMIC_REV :: u32 where "EXT2_DYNAMIC_REV \<equiv> 1"
abbreviation (input) EXT2_SUPPORTED_INCOMPAT :: u32 where "EXT2_SUPPORTED_INCOMPAT \<equiv> 2"
abbreviation (input) EXT2_S_IFREG :: u16 where "EXT2_S_IFREG \<equiv> 0x8000"
abbreviation (input) EXT2_S_IFDIR :: u16 where "EXT2_S_IFDIR \<equiv> 0x4000"
abbreviation (input) EXT2_S_IFLNK :: u16 where "EXT2_S_IFLNK \<equiv> 0xA000"
abbreviation (input) EXT2_S_IFMT :: u16 where "EXT2_S_IFMT \<equiv> 0xF000"
abbreviation (input) EXT2_FT_REG_FILE :: u8 where "EXT2_FT_REG_FILE \<equiv> 1"
abbreviation (input) EXT2_FT_DIR :: u8 where "EXT2_FT_DIR \<equiv> 2"
abbreviation (input) EXT2_FT_SYMLINK :: u8 where "EXT2_FT_SYMLINK \<equiv> 7"

section \<open>The driver's state\<close>

record cache_slot =
  blk_no :: u32
  lru_seq :: u32
  sdata :: bytes

record ext2 =
  disk_of :: disk
  mounted :: bool
  block_size :: u32
  sectors_per_block :: u32
  inodes_per_group :: u32
  blocks_per_group :: u32
  inode_size :: u32
  first_data_block :: u32
  num_groups :: u32
  total_inodes :: u32
  total_blocks :: u32
  rev_level :: u32
  bgdt_block :: u32
  bgdt_blocks :: u32
  bgdt :: "bytes option"
  g_cache :: "cache_slot list"
  g_lru_seq :: u32
  clock :: u32
  task_uid :: u32
  task_gid :: u32
  heap_ok :: "u32 \<Rightarrow> bool"

abbreviation (input) io_error :: err where "io_error \<equiv> Errno (-1)"

section \<open>Block cache\<close>

definition ext2_block_cache_flush :: "ext2 \<Rightarrow> ext2" where
  "ext2_block_cache_flush s = s\<lparr>g_cache := map (\<lambda>c. c\<lparr>blk_no := 0\<rparr>) (g_cache s), g_lru_seq := 0\<rparr>"

fun find_slot :: "u32 \<Rightarrow> cache_slot list \<Rightarrow> nat option" where
  "find_slot b [] = None"
| "find_slot b (c # cs) = (if blk_no c = b then Some 0 else map_option Suc (find_slot b cs))"

fun lru_victim :: "cache_slot list \<Rightarrow> nat \<Rightarrow> nat \<Rightarrow> cache_slot list \<Rightarrow> nat" where
  "lru_victim all victim i [] = victim"
| "lru_victim all victim i (c # cs) =
     (if lru_seq c < lru_seq (all ! victim) then lru_victim all i (i + 1) cs
      else lru_victim all victim (i + 1) cs)"

fun read_sectors :: "disk \<Rightarrow> u32 \<Rightarrow> nat \<Rightarrow> bytes option" where
  "read_sectors d lba 0 = Some []"
| "read_sectors d lba (Suc n) =
     (case disk_read d lba of
        None \<Rightarrow> None
      | Some b \<Rightarrow> map_option ((@) b) (read_sectors d (lba + 1) n))"

definition ext2_read_block :: "u32 \<Rightarrow> (bytes, ext2) op" where
  "ext2_read_block b s =
     (if b = 0 then (Inl io_error, s)
      else case find_slot b (g_cache s) of
        Some i \<Rightarrow>
          (let seq = g_lru_seq s + 1 in
           (Inr (sdata (g_cache s ! i)),
            s\<lparr>g_lru_seq := seq, g_cache := (g_cache s)[i := (g_cache s ! i)\<lparr>lru_seq := seq\<rparr>]\<rparr>))
      | None \<Rightarrow>
          (let victim = lru_victim (g_cache s) 0 1 (tl (g_cache s)) in
           case read_sectors (disk_of s) (b * sectors_per_block s) (unat (sectors_per_block s)) of
             None \<Rightarrow> (Inl io_error, s\<lparr>g_cache := (g_cache s)[victim := (g_cache s ! victim)\<lparr>blk_no := 0\<rparr>]\<rparr>)
           | Some dat \<Rightarrow>
               (let seq = g_lru_seq s + 1 in
                (Inr dat,
                 s\<lparr>g_lru_seq := seq,
                   g_cache := (g_cache s)[victim := \<lparr>blk_no = b, lru_seq = seq, sdata = dat\<rparr>]\<rparr>))))"

fun write_sectors :: "disk \<Rightarrow> u32 \<Rightarrow> bytes \<Rightarrow> nat \<Rightarrow> bool \<times> disk" where
  "write_sectors d lba b 0 = (True, d)"
| "write_sectors d lba b (Suc n) =
     (case disk_write d lba (take 512 b) of
        (False, d) \<Rightarrow> (False, d)
      | (True, d) \<Rightarrow> write_sectors d (lba + 1) (drop 512 b) n)"

definition ext2_write_block :: "u32 \<Rightarrow> bytes \<Rightarrow> (unit, ext2) op" where
  "ext2_write_block b dat s =
     (if b = 0 then (Inl io_error, s)
      else case write_sectors (disk_of s) (b * sectors_per_block s) dat (unat (sectors_per_block s)) of
        (False, d) \<Rightarrow> (Inl io_error, s\<lparr>disk_of := d\<rparr>)
      | (True, d) \<Rightarrow>
          (case find_slot b (g_cache s) of
             Some i \<Rightarrow>
               (Inr (), s\<lparr>disk_of := d,
                  g_cache := (g_cache s)[i := (g_cache s ! i)\<lparr>sdata := take (unat (block_size s)) dat\<rparr>]\<rparr>)
           | None \<Rightarrow> (Inr (), s\<lparr>disk_of := d\<rparr>)))"

section \<open>Superblock and group descriptors\<close>

definition ext2_super_free :: "ext2 \<Rightarrow> ext2" where
  "ext2_super_free s = ext2_block_cache_flush (s\<lparr>bgdt := None, mounted := False\<rparr>)"

definition fs_zero :: "ext2 \<Rightarrow> ext2" where
  "fs_zero s = s\<lparr>mounted := False, block_size := 0, sectors_per_block := 0, inodes_per_group := 0,
     blocks_per_group := 0, inode_size := 0, first_data_block := 0, num_groups := 0, total_inodes := 0,
     total_blocks := 0, rev_level := 0, bgdt_block := 0, bgdt_blocks := 0, bgdt := None\<rparr>"

text \<open>A shift by 32 or more is undefined in C; the processor uses the count modulo 32.\<close>

definition super_fields :: "ext2_superblock \<Rightarrow> (u32 \<times> u32 \<times> u32) option" where
  "super_fields sb =
     (if s_magic sb \<noteq> EXT2_MAGIC then None
      else if s_rev_level sb \<ge> EXT2_DYNAMIC_REV \<and> s_feature_incompat sb AND NOT EXT2_SUPPORTED_INCOMPAT \<noteq> 0 then None
      else
        let bs = push_bit (unat (s_log_block_size sb) mod 32) (1024 :: u32) in
        if bs < 1024 \<or> bs > 4096 \<or> bs AND 511 \<noteq> 0 then None
        else
          let isz = (if s_rev_level sb \<ge> EXT2_DYNAMIC_REV then ucast (s_inode_size sb) else EXT2_MIN_INODE_SIZE) in
          if isz < EXT2_MIN_INODE_SIZE \<or> isz > bs then None
          else if s_inodes_per_group sb = 0 \<or> s_blocks_per_group sb = 0 then None
          else
            let ng = (s_blocks_count sb + s_blocks_per_group sb - 1) div s_blocks_per_group sb in
            if ng = 0 then None else Some (bs, isz, ng))"

fun read_bgdt :: "disk \<Rightarrow> u32 \<Rightarrow> u32 \<Rightarrow> nat \<Rightarrow> bytes option" where
  "read_bgdt d blk spb 0 = Some []"
| "read_bgdt d blk spb (Suc n) =
     (case read_sectors d (blk * spb) (unat spb) of
        None \<Rightarrow> None
      | Some b \<Rightarrow> map_option ((@) b) (read_bgdt d (blk + 1) spb n))"

definition ext2_super_read :: "disk option \<Rightarrow> (unit, ext2) op" where
  "ext2_super_read dev s =
     (let s = ext2_block_cache_flush (fs_zero s) in
      case dev of
        None \<Rightarrow> (Inl io_error, s)
      | Some d \<Rightarrow>
          if \<not> present d then (Inl io_error, s)
          else case (disk_read d 2, disk_read d 3) of
            (Some lo, Some hi) \<Rightarrow>
              (let sb = superblock_of (lo @ hi) in
               case super_fields sb of
                 None \<Rightarrow> (Inl io_error, s)
               | Some (bs, isz, ng) \<Rightarrow>
                   let s = s\<lparr>disk_of := d, block_size := bs, sectors_per_block := bs div 512,
                             inodes_per_group := s_inodes_per_group sb, blocks_per_group := s_blocks_per_group sb,
                             inode_size := isz, first_data_block := s_first_data_block sb, num_groups := ng,
                             total_inodes := s_inodes_count sb, total_blocks := s_blocks_count sb,
                             rev_level := s_rev_level sb\<rparr>;
                       bblock = s_first_data_block sb + 1;
                       bbytes = ng * 32;
                       bblocks = (bbytes + bs - 1) div bs;
                       balloc = bblocks * bs;
                       s = s\<lparr>bgdt_block := bblock, bgdt_blocks := bblocks\<rparr>
                   in
                   if \<not> heap_ok s balloc then (Inl io_error, s)
                   else case read_bgdt d bblock (bs div 512) (unat bblocks) of
                     None \<Rightarrow> (Inl io_error, s)
                   | Some b \<Rightarrow> (Inr (), s\<lparr>bgdt := Some b, mounted := True\<rparr>))
          | _ \<Rightarrow> (Inl io_error, s))"

definition ext2_mount :: "disk option \<Rightarrow> (unit, ext2) op" where
  "ext2_mount dev s = ext2_super_read dev (if mounted s then ext2_super_free s else s)"

definition ext2_is_mounted :: "ext2 \<Rightarrow> bool" where
  "ext2_is_mounted s = mounted s"

definition ext2_super_adjust_free :: "u32 \<Rightarrow> u32 \<Rightarrow> ext2 \<Rightarrow> ext2" where
  "ext2_super_adjust_free block_delta inode_delta s =
     (if \<not> mounted s then s
      else case (disk_read (disk_of s) 2, disk_read (disk_of s) 3) of
        (Some lo, Some hi) \<Rightarrow>
          (let raw = lo @ hi;
               free_blocks = get32 raw 12 + block_delta;
               free_inodes = get32 raw 16 + inode_delta;
               raw = patch 12 (put32 free_blocks) raw;
               raw = patch 16 (put32 free_inodes) raw;
               d = snd (disk_write (disk_of s) 2 (take 512 raw));
               d = snd (disk_write d 3 (drop 512 raw))
           in s\<lparr>disk_of := d\<rparr>)
      | _ \<Rightarrow> s)"

primrec bgdt_write_loop :: "nat \<Rightarrow> u32 \<Rightarrow> bytes \<Rightarrow> ext2 \<Rightarrow> ext2" where
  "bgdt_write_loop 0 b dat s = s"
| "bgdt_write_loop (Suc n) b dat s =
     (let s = snd (ext2_write_block (bgdt_block s + b) (take (unat (block_size s)) dat) s)
      in bgdt_write_loop n (b + 1) (drop (unat (block_size s)) dat) s)"

definition ext2_bgdt_write_back :: "ext2 \<Rightarrow> ext2" where
  "ext2_bgdt_write_back s =
     (case bgdt s of
        None \<Rightarrow> s
      | Some dat \<Rightarrow> if \<not> mounted s then s else bgdt_write_loop (unat (bgdt_blocks s)) 0 dat s)"

text \<open>Access to one descriptor of the table held in memory; an index past its end is outside
  the buffer.\<close>

definition bgdt_get :: "u32 \<Rightarrow> (ext2_bgdt_entry, ext2) op" where
  "bgdt_get g s =
     (case bgdt s of
        None \<Rightarrow> (Inl Overflow, s)
      | Some b \<Rightarrow>
          if 32 * unat g + 32 \<le> length b then (Inr (bgdt_entry_of (bslice (32 * unat g) 32 b)), s)
          else (Inl Overflow, s))"

definition bgdt_set16 :: "u32 \<Rightarrow> nat \<Rightarrow> u16 \<Rightarrow> ext2 \<Rightarrow> ext2" where
  "bgdt_set16 g off v s = s\<lparr>bgdt := map_option (patch (32 * unat g + off) (put16 v)) (bgdt s)\<rparr>"

section \<open>Inodes\<close>

definition ext2_read_inode :: "u32 \<Rightarrow> (ext2_inode, ext2) op" where
  "ext2_read_inode ino s =
     (if ino = 0 \<or> ino > total_inodes s then (Inl io_error, s)
      else
        let group = (ino - 1) div inodes_per_group s;
            local_idx = (ino - 1) mod inodes_per_group s
        in
        if group \<ge> num_groups s then (Inl io_error, s)
        else
          let byte_off = local_idx * inode_size s;
              block_off = byte_off div block_size s;
              off_in_block = byte_off mod block_size s
          in
          bindE (bgdt_get group) (\<lambda>e.
          bindE (ext2_read_block (bg_inode_table e + block_off)) (\<lambda>blk.
          ret (inode_of (bslice (unat off_in_block) 128 blk)))) s)"

definition ext2_write_inode :: "u32 \<Rightarrow> ext2_inode \<Rightarrow> (unit, ext2) op" where
  "ext2_write_inode ino i s =
     (if ino = 0 \<or> ino > total_inodes s then (Inl io_error, s)
      else
        let group = (ino - 1) div inodes_per_group s;
            local_idx = (ino - 1) mod inodes_per_group s
        in
        if group \<ge> num_groups s then (Inl io_error, s)
        else
          let byte_off = local_idx * inode_size s;
              block_off = byte_off div block_size s;
              off_in_block = byte_off mod block_size s
          in
          bindE (bgdt_get group) (\<lambda>e.
          bindE (ext2_read_block (bg_inode_table e + block_off)) (\<lambda>blk.
          ext2_write_block (bg_inode_table e + block_off) (patch (unat off_in_block) (inode_bytes i) blk))) s)"

section \<open>Block and inode allocation\<close>

datatype scan = Scan_Found nat | Scan_None | Scan_Outside

definition bit_of :: "bytes \<Rightarrow> nat \<Rightarrow> bool" where
  "bit_of bm i \<longleftrightarrow> bm ! (i div 8) AND push_bit (i mod 8) 1 \<noteq> 0"

definition set_bit_of :: "bytes \<Rightarrow> nat \<Rightarrow> bytes" where
  "set_bit_of bm i = bm[i div 8 := bm ! (i div 8) OR push_bit (i mod 8) 1]"

definition clear_bit_of :: "bytes \<Rightarrow> nat \<Rightarrow> bytes" where
  "clear_bit_of bm i = bm[i div 8 := bm ! (i div 8) AND NOT (push_bit (i mod 8) 1)]"

text \<open>The scan of a bitmap for a clear bit: \<open>n\<close> turns are left, the number the \<open>i\<close>-th bit
  stands for is \<open>base + i\<close>, and the scan ends where \<open>stop\<close> holds of it.\<close>

fun scan_bits :: "bytes \<Rightarrow> (u32 \<Rightarrow> bool) \<Rightarrow> u32 \<Rightarrow> nat \<Rightarrow> nat \<Rightarrow> scan" where
  "scan_bits bm stop base i 0 = Scan_None"
| "scan_bits bm stop base i (Suc n) =
     (if stop (base + word_of_nat i) then Scan_None
      else if length bm \<le> i div 8 then Scan_Outside
      else if bit_of bm i then scan_bits bm stop base (Suc i) n
      else Scan_Found i)"

primrec alloc_block_groups :: "nat list \<Rightarrow> (u32, ext2) op" where
  "alloc_block_groups [] = fail io_error"
| "alloc_block_groups (g # gs) =
     bindE (bgdt_get (word_of_nat g)) (\<lambda>e.
     if bg_free_blocks_count e = 0 then alloc_block_groups gs
     else
       bindE (ext2_read_block (bg_block_bitmap e)) (\<lambda>bitmap.
       bindE (getE (\<lambda>s. (first_data_block s + word_of_nat g * blocks_per_group s,
                          total_blocks s, blocks_per_group s, block_size s))) (\<lambda>(base, total, bpg, bs).
       case scan_bits bitmap (\<lambda>b. b \<ge> total) base 0 (unat bpg) of
         Scan_Outside \<Rightarrow> fail Overflow
       | Scan_None \<Rightarrow> alloc_block_groups gs
       | Scan_Found i \<Rightarrow>
           bindE (ext2_write_block (bg_block_bitmap e) (set_bit_of bitmap i)) (\<lambda>_.
           bindE (modifyE (bgdt_set16 (word_of_nat g) 12 (bg_free_blocks_count e - 1))) (\<lambda>_.
           bindE (modifyE ext2_bgdt_write_back) (\<lambda>_.
           bindE (modifyE (ext2_super_adjust_free (-1) 0)) (\<lambda>_.
           bindE (ext2_write_block (base + word_of_nat i) (replicate (unat bs) 0)) (\<lambda>_.
           ret (base + word_of_nat i)))))))))"

definition ext2_alloc_block :: "(u32, ext2) op" where
  "ext2_alloc_block s = alloc_block_groups [0..<unat (num_groups s)] s"

definition ext2_free_block_op :: "u32 \<Rightarrow> (unit, ext2) op" where
  "ext2_free_block_op blk s =
     (if blk < first_data_block s then (Inr (), s)
      else
        let g = (blk - first_data_block s) div blocks_per_group s;
            i = unat ((blk - first_data_block s) mod blocks_per_group s)
        in
        if g \<ge> num_groups s then (Inr (), s)
        else
          bindE (bgdt_get g) (\<lambda>e.
          bindE (ext2_read_block (bg_block_bitmap e)) (\<lambda>bitmap.
          if length bitmap \<le> i div 8 then fail Overflow
          else if \<not> bit_of bitmap i then ret ()
          else
            bindE (ext2_write_block (bg_block_bitmap e) (clear_bit_of bitmap i)) (\<lambda>_.
            bindE (modifyE (bgdt_set16 g 12 (bg_free_blocks_count e + 1))) (\<lambda>_.
            bindE (modifyE ext2_bgdt_write_back) (\<lambda>_.
            modifyE (ext2_super_adjust_free 1 0)))))) s)"

text \<open>Freeing returns nothing: a failure inside it goes unreported.\<close>

definition ext2_free_block :: "u32 \<Rightarrow> (unit, ext2) op" where
  "ext2_free_block blk = ignoreE (ext2_free_block_op blk)"

primrec alloc_inode_groups :: "nat list \<Rightarrow> bool \<Rightarrow> (u32, ext2) op" where
  "alloc_inode_groups [] is_dir = fail io_error"
| "alloc_inode_groups (g # gs) is_dir =
     bindE (bgdt_get (word_of_nat g)) (\<lambda>e.
     if bg_free_inodes_count e = 0 then alloc_inode_groups gs is_dir
     else
       bindE (ext2_read_block (bg_inode_bitmap e)) (\<lambda>bitmap.
       bindE (getE (\<lambda>s. (word_of_nat g * inodes_per_group s + 1, total_inodes s, inodes_per_group s)))
         (\<lambda>(base, total, ipg).
       case scan_bits bitmap (\<lambda>ino. ino > total) base 0 (unat ipg) of
         Scan_Outside \<Rightarrow> fail Overflow
       | Scan_None \<Rightarrow> alloc_inode_groups gs is_dir
       | Scan_Found i \<Rightarrow>
           bindE (ext2_write_block (bg_inode_bitmap e) (set_bit_of bitmap i)) (\<lambda>_.
           bindE (modifyE (bgdt_set16 (word_of_nat g) 14 (bg_free_inodes_count e - 1))) (\<lambda>_.
           bindE (modifyE (\<lambda>s. if is_dir then bgdt_set16 (word_of_nat g) 16 (bg_used_dirs_count e + 1) s else s)) (\<lambda>_.
           bindE (modifyE ext2_bgdt_write_back) (\<lambda>_.
           bindE (modifyE (ext2_super_adjust_free 0 (-1))) (\<lambda>_.
           ret (base + word_of_nat i)))))))))"

definition ext2_alloc_inode :: "bool \<Rightarrow> (u32, ext2) op" where
  "ext2_alloc_inode is_dir s = alloc_inode_groups [0..<unat (num_groups s)] is_dir s"

definition ext2_free_inode_op :: "u32 \<Rightarrow> bool \<Rightarrow> (unit, ext2) op" where
  "ext2_free_inode_op ino is_dir s =
     (if ino = 0 \<or> ino > total_inodes s then (Inr (), s)
      else
        let g = (ino - 1) div inodes_per_group s;
            i = unat ((ino - 1) mod inodes_per_group s)
        in
        if g \<ge> num_groups s then (Inr (), s)
        else
          bindE (bgdt_get g) (\<lambda>e.
          bindE (ext2_read_block (bg_inode_bitmap e)) (\<lambda>bitmap.
          if length bitmap \<le> i div 8 then fail Overflow
          else if \<not> bit_of bitmap i then ret ()
          else
            bindE (ext2_write_block (bg_inode_bitmap e) (clear_bit_of bitmap i)) (\<lambda>_.
            bindE (modifyE (bgdt_set16 g 14 (bg_free_inodes_count e + 1))) (\<lambda>_.
            bindE (modifyE (\<lambda>s. if is_dir \<and> bg_used_dirs_count e > 0
                                 then bgdt_set16 g 16 (bg_used_dirs_count e - 1) s else s)) (\<lambda>_.
            bindE (modifyE ext2_bgdt_write_back) (\<lambda>_.
            bindE (modifyE (ext2_super_adjust_free 0 1)) (\<lambda>_.
            ext2_write_inode ino empty_inode))))))) s)"

definition ext2_free_inode :: "u32 \<Rightarrow> bool \<Rightarrow> (unit, ext2) op" where
  "ext2_free_inode ino is_dir = ignoreE (ext2_free_inode_op ino is_dir)"

section \<open>The blocks of an inode\<close>

text \<open>Visit block numbers in order while bytes remain; the callback has a context of its own and
  stops the walk by returning non-zero. What is left of the count comes back with the result.\<close>

fun visit ::
  "(u32 \<Rightarrow> 'x \<Rightarrow> ext2 \<Rightarrow> (int \<times> 'x) \<times> ext2) \<Rightarrow> u32 list \<Rightarrow> u32 \<Rightarrow> 'x \<Rightarrow> ext2 \<Rightarrow> (int \<times> u32 \<times> 'x) \<times> ext2" where
  "visit cb [] remaining x s = ((0, remaining, x), s)"
| "visit cb (b # bs) remaining x s =
     (if remaining = 0 then ((0, remaining, x), s)
      else
        let remaining = remaining - (if remaining < block_size s then remaining else block_size s) in
        case cb b x s of
          ((r, x), s) \<Rightarrow> if r \<noteq> 0 then ((r, remaining, x), s) else visit cb bs remaining x s)"

definition indirect_ptrs :: "bytes \<Rightarrow> nat \<Rightarrow> u32 list" where
  "indirect_ptrs blk n = map (\<lambda>p. get32 blk (4 * p)) [0..<n]"

definition ext2_iter_blocks ::
  "ext2_inode \<Rightarrow> u32 \<Rightarrow> (u32 \<Rightarrow> 'x \<Rightarrow> ext2 \<Rightarrow> (int \<times> 'x) \<times> ext2) \<Rightarrow> 'x \<Rightarrow> ext2 \<Rightarrow> (int \<times> 'x) \<times> ext2" where
  "ext2_iter_blocks inode nbytes cb x s =
     (case visit cb (take 12 (i_block inode)) nbytes x s of
        ((r, remaining, x), s) \<Rightarrow>
          if r \<noteq> 0 then ((r, x), s)
          else if remaining = 0 \<or> i_block inode ! 12 = 0 then ((0, x), s)
          else case ext2_read_block (i_block inode ! 12) s of
            (Inl _, s) \<Rightarrow> ((-1, x), s)
          | (Inr ind, s) \<Rightarrow>
              (case visit cb (indirect_ptrs ind (min 256 (unat (block_size s div 4)))) remaining x s of
                 ((r, _, x), s) \<Rightarrow> ((r, x), s)))"

definition ext2_inode_add_block :: "ext2_inode \<Rightarrow> u32 \<Rightarrow> u32 \<Rightarrow> ext2 \<Rightarrow> ((err + unit) \<times> ext2_inode) \<times> ext2" where
  "ext2_inode_add_block inode idx new_blk s =
     (if idx < 12 then
        ((Inr (), inode\<lparr>i_block := (i_block inode)[unat idx := new_blk],
                         i_blocks := i_blocks inode + sectors_per_block s\<rparr>), s)
      else
        let ind_index = idx - 12 in
        if ind_index \<ge> block_size s div 4 then ((Inl io_error, inode), s)
        else
          case (if i_block inode ! 12 = 0 then
                  (case ext2_alloc_block s of
                     (Inl e, s) \<Rightarrow> ((Inl e, inode), s)
                   | (Inr b, s) \<Rightarrow>
                       ((Inr (), inode\<lparr>i_block := (i_block inode)[12 := b],
                                        i_blocks := i_blocks inode + sectors_per_block s\<rparr>), s))
                else ((Inr (), inode), s)) of
            ((Inl e, inode), s) \<Rightarrow> ((Inl e, inode), s)
          | ((Inr _, inode), s) \<Rightarrow>
              (case bindE (ext2_read_block (i_block inode ! 12)) (\<lambda>blk.
                      ext2_write_block (i_block inode ! 12) (patch (4 * unat ind_index) (put32 new_blk) blk)) s of
                 (Inl e, s) \<Rightarrow> ((Inl e, inode), s)
               | (Inr _, s) \<Rightarrow> ((Inr (), inode\<lparr>i_blocks := i_blocks inode + sectors_per_block s\<rparr>), s)))"

primrec free_blocks_in :: "u32 list \<Rightarrow> (unit, ext2) op" where
  "free_blocks_in [] = ret ()"
| "free_blocks_in (b # bs) = bindE (if b \<noteq> 0 then ext2_free_block b else ret ()) (\<lambda>_. free_blocks_in bs)"

definition free_indirect :: "u32 \<Rightarrow> (unit, ext2) op" where
  "free_indirect ind =
     bindE (testE (ext2_read_block ind)) (\<lambda>ro.
     bindE (case ro of
         None \<Rightarrow> ret ()
       | Some blk \<Rightarrow> bindE (getE block_size) (\<lambda>bs. free_blocks_in (indirect_ptrs blk (unat (bs div 4))))) (\<lambda>_.
     ext2_free_block ind))"

definition ext2_inode_free_all_blocks :: "ext2_inode \<Rightarrow> (ext2_inode, ext2) op" where
  "ext2_inode_free_all_blocks inode =
     bindE (free_blocks_in (take 12 (i_block inode))) (\<lambda>_.
     bindE (if i_block inode ! 12 \<noteq> 0 then free_indirect (i_block inode ! 12) else ret ()) (\<lambda>_.
     ret (inode\<lparr>i_block := replicate 13 0 @ drop 13 (i_block inode), i_blocks := 0, i_size := 0\<rparr>)))"

end
