(* ===== verification/Ext2_Dir.thy ===== *)
theory Ext2_Dir
  imports Ext2 Vfs
begin

unbundle bit_operations_syntax

text \<open>
  Directories of the EXT2 driver: \<^verbatim>\<open>fs/ext2/dir.c\<close>. A directory block is the list of its
  bytes, and an entry is read and written at its offset there. The scans of one block are
  functions on the block; they end because an entry that is visited has a length. A name that
  runs past the end of its block is cut there; writing past the largest block is an
  \<^const>\<open>Overflow\<close>.
\<close>

section \<open>Entries\<close>

definition align4 :: "u32 \<Rightarrow> u32" where
  "align4 n = (n + 3) AND NOT 3"

definition de_inode :: "bytes \<Rightarrow> nat \<Rightarrow> u32" where
  "de_inode buf off = get32 buf off"

definition de_rec_len :: "bytes \<Rightarrow> nat \<Rightarrow> u16" where
  "de_rec_len buf off = get16 buf (off + 4)"

definition de_name_len :: "bytes \<Rightarrow> nat \<Rightarrow> u8" where
  "de_name_len buf off = buf ! (off + 6)"

definition de_file_type :: "bytes \<Rightarrow> nat \<Rightarrow> u8" where
  "de_file_type buf off = buf ! (off + 7)"

definition de_name :: "bytes \<Rightarrow> nat \<Rightarrow> nat \<Rightarrow> bytes" where
  "de_name buf off n = bslice (off + 8) n buf"

definition dirent_bytes :: "u32 \<Rightarrow> u16 \<Rightarrow> u8 \<Rightarrow> bytes \<Rightarrow> bytes" where
  "dirent_bytes ino rec_len ft name = put32 ino @ put16 rec_len @ [word_of_nat (length name), ft] @ name"

text \<open>A write into the block's copy, a buffer of 4096 bytes of which only the block is kept.\<close>

definition put_at :: "nat \<Rightarrow> bytes \<Rightarrow> bytes \<Rightarrow> bytes option" where
  "put_at off ys buf = (if off + length ys > 4096 then None else Some (take (length buf) (patch off ys buf)))"

definition de_matches :: "bytes \<Rightarrow> nat \<Rightarrow> bytes \<Rightarrow> bool" where
  "de_matches buf off name \<longleftrightarrow>
     de_inode buf off \<noteq> 0 \<and> de_name_len buf off = word_of_nat (length name) \<and>
     de_name buf off (length name) = name"

lemma scan_decreases:
  assumes "off + 8 \<le> bs" and "de_rec_len buf off \<noteq> 0"
  shows "bs - (off + unat (de_rec_len buf off)) < bs - off"
proof -
  have "0 < unat (de_rec_len buf off)" using assms(2) by (metis gr0I unat_eq_zero)
  then show ?thesis using assms(1) by linarith
qed

section \<open>Lookup\<close>

definition inode_block_at :: "ext2_inode \<Rightarrow> u32 \<Rightarrow> ext2 \<Rightarrow> u32 \<times> ext2" where
  "inode_block_at inode index s =
     (if index < 12 then (i_block inode ! unat index, s)
      else if i_block inode ! 12 = 0 then (0, s)
      else
        let ind_index = index - 12 in
        if ind_index \<ge> block_size s div 4 then (0, s)
        else case ext2_read_block (i_block inode ! 12) s of
          (Inl _, s) \<Rightarrow> (0, s)
        | (Inr ro, s) \<Rightarrow> (get32 ro (4 * unat ind_index), s))"

function lookup_scan :: "bytes \<Rightarrow> nat \<Rightarrow> bytes \<Rightarrow> nat \<Rightarrow> u32 option" where
  "lookup_scan buf bs name off =
     (if off + 8 \<le> bs \<and> de_rec_len buf off \<noteq> 0 then
        if de_matches buf off name then Some (de_inode buf off)
        else lookup_scan buf bs name (off + unat (de_rec_len buf off))
      else None)"
  by pat_completeness auto

termination
  by (relation "measure (\<lambda>(buf, bs, name, off). bs - off)") (auto simp: scan_decreases)

declare lookup_scan.simps [simp del]

definition lookup_in_block :: "bytes \<Rightarrow> u32 \<Rightarrow> u32 \<Rightarrow> ext2 \<Rightarrow> (int \<times> u32) \<times> ext2" where
  "lookup_in_block name b found s =
     (if b = 0 then ((0, found), s)
      else case ext2_read_block b s of
        (Inl _, s) \<Rightarrow> ((-1, found), s)
      | (Inr buf, s) \<Rightarrow>
          (case lookup_scan buf (unat (block_size s)) name 0 of
             Some ino \<Rightarrow> ((1, ino), s)
           | None \<Rightarrow> ((0, found), s)))"

definition is_dir_mode :: "ext2_inode \<Rightarrow> bool" where
  "is_dir_mode i \<longleftrightarrow> i_mode i AND EXT2_S_IFMT = EXT2_S_IFDIR"

definition ext2_dir_lookup :: "u32 \<Rightarrow> bytes \<Rightarrow> (u32, ext2) op" where
  "ext2_dir_lookup dir_ino name =
     bindE (ext2_read_inode dir_ino) (\<lambda>inode.
     if \<not> is_dir_mode inode then fail io_error
     else (\<lambda>s. case ext2_iter_blocks inode (i_size inode) (lookup_in_block name) 0 s of
         ((r, found), s) \<Rightarrow> if r = 1 \<and> found \<noteq> 0 then (Inr found, s) else (Inl io_error, s)))"

primrec walk_path :: "u32 \<Rightarrow> bytes list \<Rightarrow> (u32, ext2) op" where
  "walk_path cur [] = ret cur"
| "walk_path cur (t # ts) = bindE (ext2_dir_lookup cur t) (\<lambda>nxt. walk_path nxt ts)"

definition ext2_path_to_inode :: "path \<Rightarrow> (u32, ext2) op" where
  "ext2_path_to_inode p =
     (if p = [] \<or> hd p \<noteq> SLASH then fail io_error
      else if p = ROOT then ret EXT2_ROOT_INODE
      else walk_path EXT2_ROOT_INODE (tokens (take (MAX_PATH - 1) (tl p))))"

section \<open>Enumeration\<close>

function readdir_scan ::
  "bytes \<Rightarrow> nat \<Rightarrow> (vfs_dirent \<Rightarrow> 'c \<Rightarrow> int \<times> 'c) \<Rightarrow> nat \<Rightarrow> 'c \<Rightarrow> ext2 \<Rightarrow> (bool \<times> 'c) \<times> ext2" where
  "readdir_scan buf bs cb off ctx s =
     (if off + 8 \<le> bs \<and> de_rec_len buf off \<noteq> 0 then
        let nxt = off + unat (de_rec_len buf off) in
        if de_inode buf off \<noteq> 0 \<and> de_name_len buf off > 0 then
          let name = de_name buf off (min (unat (de_name_len buf off)) (MAX_NAME - 1));
              ft = de_file_type buf off
          in
          case (if ft = EXT2_FT_DIR then (\<lparr>d_name = name, d_type = VFS_DIR, d_size = 0\<rparr>, s)
                else case ext2_read_inode (de_inode buf off) s of (r, s) \<Rightarrow>
                  (\<lparr>d_name = name, d_type = (if ft = EXT2_FT_SYMLINK then VFS_SYMLINK else VFS_FILE),
                    d_size = (case r of Inr i \<Rightarrow> i_size i | Inl _ \<Rightarrow> 0)\<rparr>, s)) of
            (de, s) \<Rightarrow>
              (case cb de ctx of
                 (r, ctx) \<Rightarrow> if r \<noteq> 0 then ((True, ctx), s) else readdir_scan buf bs cb nxt ctx s)
        else readdir_scan buf bs cb nxt ctx s
      else ((False, ctx), s))"
  by pat_completeness auto

termination
  by (relation "measure (\<lambda>(buf, bs, cb, off, ctx, s). bs - off)") (auto simp: scan_decreases)

declare readdir_scan.simps [simp del]

definition readdir_block ::
  "(vfs_dirent \<Rightarrow> 'c \<Rightarrow> int \<times> 'c) \<Rightarrow> u32 \<Rightarrow> bool \<times> 'c \<Rightarrow> ext2 \<Rightarrow> (int \<times> bool \<times> 'c) \<times> ext2" where
  "readdir_block cb b x s =
     (if b = 0 then ((0, x), s)
      else case ext2_read_block b s of
        (Inl _, s) \<Rightarrow> ((-1, x), s)
      | (Inr buf, s) \<Rightarrow>
          (case readdir_scan buf (unat (block_size s)) cb 0 (snd x) s of
             ((True, ctx), s) \<Rightarrow> ((1, True, ctx), s)
           | ((False, ctx), s) \<Rightarrow> ((0, fst x, ctx), s)))"

definition ext2_readdir_ino ::
  "u32 \<Rightarrow> (vfs_dirent \<Rightarrow> 'c \<Rightarrow> int \<times> 'c) \<Rightarrow> 'c \<Rightarrow> ext2 \<Rightarrow> (int \<times> 'c) \<times> ext2" where
  "ext2_readdir_ino dir_ino cb ctx s =
     (case ext2_read_inode dir_ino s of
        (Inl _, s) \<Rightarrow> ((-1, ctx), s)
      | (Inr inode, s) \<Rightarrow>
          if \<not> is_dir_mode inode then ((-1, ctx), s)
          else case ext2_iter_blocks inode (i_size inode) (readdir_block cb) (False, ctx) s of
            ((_, stopped, ctx), s) \<Rightarrow> ((if stopped then 1 else 0, ctx), s))"

section \<open>Modification\<close>

text \<open>The loops over the blocks of a directory: the first block whose scan yields something, with
  its number.\<close>

primrec find_dir_block ::
  "ext2_inode \<Rightarrow> (bytes \<Rightarrow> nat \<Rightarrow> 'r option) \<Rightarrow> nat list \<Rightarrow> ((u32 \<times> 'r) option, ext2) op" where
  "find_dir_block dir f [] = ret None"
| "find_dir_block dir f (b # bs) = (\<lambda>s.
     case inode_block_at dir (word_of_nat b) s of
       (blk, s) \<Rightarrow>
         if blk = 0 then find_dir_block dir f bs s
         else bindE (ext2_read_block blk) (\<lambda>buf s.
           case f buf (unat (block_size s)) of
             Some r \<Rightarrow> (Inr (Some (blk, r)), s)
           | None \<Rightarrow> find_dir_block dir f bs s) s)"

text \<open>Placing an entry in a block: \<open>Some None\<close> stands for a write outside the block's copy.\<close>

function place_scan :: "u32 \<Rightarrow> bytes \<Rightarrow> u32 \<Rightarrow> u8 \<Rightarrow> nat \<Rightarrow> bytes \<Rightarrow> nat \<Rightarrow> bytes option option" where
  "place_scan needed name ino ft off buf bs =
     (if off + 8 \<le> bs \<and> de_rec_len buf off \<noteq> 0 then
        let rec_len = de_rec_len buf off in
        if de_inode buf off = 0 then
          if ucast rec_len \<ge> needed then Some (put_at off (dirent_bytes ino rec_len ft name) buf)
          else place_scan needed name ino ft (off + unat rec_len) buf bs
        else
          let actual = align4 (8 + ucast (de_name_len buf off));
              slack = ucast rec_len - actual
          in
          if slack \<ge> needed then
            Some (put_at (off + unat actual) (dirent_bytes ino (rec_len - ucast actual) ft name)
                    (patch (off + 4) (put16 (ucast actual)) buf))
          else place_scan needed name ino ft (off + unat rec_len) buf bs
      else None)"
  by pat_completeness auto

termination
  by (relation "measure (\<lambda>(needed, name, ino, ft, off, buf, bs). bs - off)") (auto simp: scan_decreases)

declare place_scan.simps [simp del]

definition touch_dir :: "ext2_inode \<Rightarrow> ext2 \<Rightarrow> ext2_inode" where
  "touch_dir dir s = dir\<lparr>i_ctime := clock s, i_mtime := clock s\<rparr>"

definition ext2_dir_insert :: "u32 \<Rightarrow> bytes \<Rightarrow> u32 \<Rightarrow> u8 \<Rightarrow> (unit, ext2) op" where
  "ext2_dir_insert dir_ino name ino ft =
     bindE (ext2_read_inode dir_ino) (\<lambda>dir.
     if \<not> is_dir_mode dir then fail io_error
     else if name = [] \<or> length name > 255 then fail io_error
     else
       let needed = align4 (8 + word_of_nat (length name)) in
       bindE (getE (\<lambda>s. (block_size s, i_size dir div block_size s))) (\<lambda>(bs, nblocks).
       bindE (find_dir_block dir (place_scan needed name ino ft 0) [0..<unat nblocks]) (\<lambda>r.
       case r of
         Some (blk, None) \<Rightarrow> fail Overflow
       | Some (blk, Some buf) \<Rightarrow>
           bindE (ext2_write_block blk buf) (\<lambda>_ s. ext2_write_inode dir_ino (touch_dir dir s) s)
       | None \<Rightarrow>
           bindE ext2_alloc_block (\<lambda>new_blk s.
             case ext2_inode_add_block dir nblocks new_blk s of
               ((Inl e, dir), s) \<Rightarrow> (Inl e, s)
             | ((Inr _, dir), s) \<Rightarrow>
                 bindE (ext2_write_block new_blk
                          (patch 0 (dirent_bytes ino (ucast bs) ft name) (replicate (unat bs) 0))) (\<lambda>_ s.
                 ext2_write_inode dir_ino (touch_dir (dir\<lparr>i_size := i_size dir + bs\<rparr>) s) s) s))))"

function remove_scan :: "bytes \<Rightarrow> nat option \<Rightarrow> nat \<Rightarrow> bytes \<Rightarrow> nat \<Rightarrow> bytes option" where
  "remove_scan name prev off buf bs =
     (if off + 8 \<le> bs \<and> de_rec_len buf off \<noteq> 0 then
        if de_matches buf off name then
          (case prev of
             Some p \<Rightarrow> Some (patch (p + 4) (put16 (de_rec_len buf p + de_rec_len buf off)) buf)
           | None \<Rightarrow> Some (patch off (put32 0) buf))
        else remove_scan name (Some off) (off + unat (de_rec_len buf off)) buf bs
      else None)"
  by pat_completeness auto

termination
  by (relation "measure (\<lambda>(name, prev, off, buf, bs). bs - off)") (auto simp: scan_decreases)

declare remove_scan.simps [simp del]

definition ext2_dir_remove :: "u32 \<Rightarrow> bytes \<Rightarrow> (unit, ext2) op" where
  "ext2_dir_remove dir_ino name =
     bindE (ext2_read_inode dir_ino) (\<lambda>dir.
     bindE (getE (\<lambda>s. i_size dir div block_size s)) (\<lambda>nblocks.
     bindE (find_dir_block dir (remove_scan name None 0) [0..<unat nblocks]) (\<lambda>r.
     case r of
       Some (blk, buf) \<Rightarrow>
         bindE (ext2_write_block blk buf) (\<lambda>_ s. ext2_write_inode dir_ino (touch_dir dir s) s)
     | None \<Rightarrow> fail io_error)))"

function occupied_scan :: "nat \<Rightarrow> bytes \<Rightarrow> nat \<Rightarrow> unit option" where
  "occupied_scan off buf bs =
     (if off + 8 \<le> bs \<and> de_rec_len buf off \<noteq> 0 then
        if de_inode buf off \<noteq> 0 \<and>
           \<not> (de_name_len buf off = 1 \<and> buf ! (off + 8) = 46) \<and>
           \<not> (de_name_len buf off = 2 \<and> buf ! (off + 8) = 46 \<and> buf ! (off + 9) = 46)
        then Some ()
        else occupied_scan (off + unat (de_rec_len buf off)) buf bs
      else None)"
  by pat_completeness auto

termination
  by (relation "measure (\<lambda>(off, buf, bs). bs - off)") (auto simp: scan_decreases)

declare occupied_scan.simps [simp del]

definition ext2_dir_is_empty :: "u32 \<Rightarrow> ext2 \<Rightarrow> bool \<times> ext2" where
  "ext2_dir_is_empty dir_ino s =
     (case bindE (ext2_read_inode dir_ino) (\<lambda>dir.
           bindE (getE (\<lambda>s. i_size dir div block_size s)) (\<lambda>nblocks.
           find_dir_block dir (occupied_scan 0) [0..<unat nblocks])) s of
        (Inr None, s) \<Rightarrow> (True, s)
      | (_, s) \<Rightarrow> (False, s))"

function parent_scan :: "u32 \<Rightarrow> nat \<Rightarrow> bytes \<Rightarrow> nat \<Rightarrow> bytes option" where
  "parent_scan parent off buf bs =
     (if off + 8 \<le> bs \<and> de_rec_len buf off \<noteq> 0 then
        if de_inode buf off \<noteq> 0 \<and> de_name_len buf off = 2 \<and> buf ! (off + 8) = 46 \<and> buf ! (off + 9) = 46
        then Some (patch off (put32 parent) buf)
        else parent_scan parent (off + unat (de_rec_len buf off)) buf bs
      else None)"
  by pat_completeness auto

termination
  by (relation "measure (\<lambda>(parent, off, buf, bs). bs - off)") (auto simp: scan_decreases)

declare parent_scan.simps [simp del]

definition ext2_dir_set_parent :: "u32 \<Rightarrow> u32 \<Rightarrow> (unit, ext2) op" where
  "ext2_dir_set_parent dir_ino new_parent_ino =
     bindE (ext2_read_inode dir_ino) (\<lambda>dir.
     bindE (getE (\<lambda>s. i_size dir div block_size s)) (\<lambda>nblocks.
     bindE (find_dir_block dir (parent_scan new_parent_ino 0) [0..<unat nblocks]) (\<lambda>r.
     case r of
       Some (blk, buf) \<Rightarrow> ext2_write_block blk buf
     | None \<Rightarrow> fail io_error)))"

end
