(* ===== verification/Ext2_Entries.thy ===== *)
theory Ext2_Entries
  imports Ext2_Dir
begin

unbundle bit_operations_syntax

text \<open>
  Directory blocks as finite maps. A well-formed block is a chain of entries that fills it; the
  entries in use, in order, are its abstraction. \<^const>\<open>lookup_scan\<close> is the lookup in this list,
  \<^const>\<open>place_scan\<close> inserts into it and \<^const>\<open>remove_scan\<close> deletes from it, whatever mixture of
  unused entries and slack the block holds.
\<close>

section \<open>Well-formed blocks and their entries\<close>

abbreviation (input) reclen :: "bytes \<Rightarrow> nat \<Rightarrow> nat" where
  "reclen buf off \<equiv> unat (de_rec_len buf off)"

abbreviation (input) namelen :: "bytes \<Rightarrow> nat \<Rightarrow> nat" where
  "namelen buf off \<equiv> unat (de_name_len buf off)"

definition al4 :: "nat \<Rightarrow> nat" where
  "al4 n = (n + 3) div 4 * 4"

definition entry_ok :: "bytes \<Rightarrow> nat \<Rightarrow> nat \<Rightarrow> bool" where
  "entry_ok buf bs off \<longleftrightarrow> off + 8 \<le> bs \<and> 8 \<le> reclen buf off \<and> off + reclen buf off \<le> bs \<and>
     (de_inode buf off \<noteq> 0 \<longrightarrow> al4 (8 + namelen buf off) \<le> reclen buf off)"

function dir_wf :: "bytes \<Rightarrow> nat \<Rightarrow> nat \<Rightarrow> bool" where
  "dir_wf buf bs off =
     (if off = bs then True else if entry_ok buf bs off then dir_wf buf bs (off + reclen buf off) else False)"
  by pat_completeness auto

termination
  by (relation "measure (\<lambda>(buf, bs, off). bs - off)") (auto simp: entry_ok_def)

function dir_list :: "bytes \<Rightarrow> nat \<Rightarrow> nat \<Rightarrow> (bytes \<times> u32) list" where
  "dir_list buf bs off =
     (if off + 8 \<le> bs \<and> 8 \<le> reclen buf off then
        (if de_inode buf off \<noteq> 0 then [(de_name buf off (namelen buf off), de_inode buf off)] else []) @
        dir_list buf bs (off + reclen buf off)
      else [])"
  by pat_completeness auto

termination
  by (relation "measure (\<lambda>(buf, bs, off). bs - off)") auto

declare dir_wf.simps [simp del] dir_list.simps [simp del]

lemma dir_end [simp]: "dir_wf buf bs bs" "dir_list buf bs bs = []"
  by (subst dir_wf.simps, simp) (subst dir_list.simps, simp)

lemma dir_step:
  assumes "entry_ok buf bs off"
  shows "dir_wf buf bs off = dir_wf buf bs (off + reclen buf off)"
    and "dir_list buf bs off = (if de_inode buf off \<noteq> 0 then [(de_name buf off (namelen buf off), de_inode buf off)] else []) @
        dir_list buf bs (off + reclen buf off)"
proof -
  show "dir_wf buf bs off = dir_wf buf bs (off + reclen buf off)"
    using assms by (subst dir_wf.simps) (auto simp: entry_ok_def)
  show "dir_list buf bs off = (if de_inode buf off \<noteq> 0 then [(de_name buf off (namelen buf off), de_inode buf off)] else []) @
        dir_list buf bs (off + reclen buf off)"
    using assms by (subst dir_list.simps) (simp add: entry_ok_def)
qed

lemma dir_cases:
  assumes "dir_wf buf bs off"
  obtains "off = bs" | "entry_ok buf bs off" "dir_wf buf bs (off + reclen buf off)" "off \<noteq> bs"
  using assms dir_wf.simps [of buf bs off] by (auto split: if_splits)

text \<open>The chain from an offset on depends on the bytes from there on only.\<close>

lemma fields_cong:
  assumes "\<And>i. off \<le> i \<Longrightarrow> i < bs \<Longrightarrow> buf' ! i = buf ! i" and "off + 8 \<le> bs"
  shows "de_inode buf' off = de_inode buf off" "de_rec_len buf' off = de_rec_len buf off" "de_name_len buf' off = de_name_len buf off"
  using assms by (simp_all add: de_inode_def de_rec_len_def de_name_len_def get32_def get16_def)

lemma name_cong:
  assumes "\<And>i. off \<le> i \<Longrightarrow> i < bs \<Longrightarrow> buf' ! i = buf ! i" and "off + 8 + n \<le> bs" and "length buf = bs" "length buf' = bs"
  shows "de_name buf' off n = de_name buf off n"
  using assms by (auto simp: de_name_def nth_bslice intro!: nth_equalityI)

lemma al4_le: "n \<le> al4 n" "al4 n < n + 4" "al4 n mod 4 = 0"
  unfolding al4_def by presburger+

lemma entry_name_room:
  "entry_ok buf bs off \<Longrightarrow> de_inode buf off \<noteq> 0 \<Longrightarrow> off + 8 + namelen buf off \<le> bs"
  using al4_le(1) [of "8 + namelen buf off"] by (simp add: entry_ok_def)

lemma dir_cong:
  assumes "dir_wf buf bs off" and "\<And>i. off \<le> i \<Longrightarrow> i < bs \<Longrightarrow> buf' ! i = buf ! i" and "length buf = bs" "length buf' = bs"
  shows "dir_wf buf' bs off \<and> dir_list buf' bs off = dir_list buf bs off"
  using assms
proof (induction buf bs off rule: dir_wf.induct)
  case (1 buf bs off)
  from "1.prems"(1) show ?case
  proof (cases rule: dir_cases)
    case 2
    have e: "entry_ok buf' bs off" using 2 fields_cong [OF "1.prems"(2)] by (auto simp: entry_ok_def)
    note f = fields_cong [OF "1.prems"(2)]
    have "dir_wf buf' bs (off + reclen buf off) \<and> dir_list buf' bs (off + reclen buf off) = dir_list buf bs (off + reclen buf off)"
      using "1.IH" 2 "1.prems" by simp
    moreover have "de_name buf' off (namelen buf off) = de_name buf off (namelen buf off)" if "de_inode buf off \<noteq> 0"
      using name_cong [OF "1.prems"(2)] entry_name_room [OF 2(1) that] "1.prems"(3,4) by simp
    ultimately show ?thesis
      using 2 dir_step [OF e] dir_step [OF 2(1)] f by (auto simp: entry_ok_def)
  qed simp
qed

section \<open>Lookup\<close>

lemma name_len_iff:
  "length name < 256 \<Longrightarrow> de_name_len buf off = word_of_nat (length name) \<longleftrightarrow> namelen buf off = length name"
  by (auto simp: unat_of_nat word_unat_eq_iff [of "de_name_len buf off"])

lemma de_matches_iff:
  assumes "entry_ok buf bs off" and "length buf = bs" and "length name < 256"
  shows "de_matches buf off name \<longleftrightarrow> de_inode buf off \<noteq> 0 \<and> de_name buf off (namelen buf off) = name"
proof (cases "de_inode buf off = 0")
  case False
  have "length (de_name buf off (namelen buf off)) = namelen buf off"
    using entry_name_room [OF assms(1) False] assms(2) by (simp add: de_name_def)
  then show ?thesis using False name_len_iff [OF assms(3)] by (auto simp: de_matches_def)
qed (simp add: de_matches_def)

lemma reclen_pos: "entry_ok buf bs off \<Longrightarrow> off + 8 \<le> bs \<and> de_rec_len buf off \<noteq> 0"
  by (auto simp: entry_ok_def)

lemma lookup_scan_map:
  assumes "dir_wf buf bs off" and "length buf = bs" and "length name < 256"
  shows "lookup_scan buf bs name off = map_of (dir_list buf bs off) name"
  using assms
proof (induction buf bs off rule: dir_wf.induct)
  case (1 buf bs off)
  from "1.prems"(1) show ?case
  proof (cases rule: dir_cases)
    case 1
    then show ?thesis by (subst lookup_scan.simps) simp
  next
    case 2
    have ih: "lookup_scan buf bs name (off + reclen buf off) = map_of (dir_list buf bs (off + reclen buf off)) name"
      using "1.IH" 2 "1.prems" by blast
    show ?thesis
      using reclen_pos [OF 2(1)] de_matches_iff [OF 2(1) "1.prems"(2,3)]
      by (subst lookup_scan.simps) (auto simp: dir_step(2) [OF 2(1)] ih)
  qed
qed

section \<open>Insertion\<close>

lemma unat_ucast_up [simp]:
  "unat (ucast (x :: u16) :: u32) = unat x" "unat (ucast (y :: u8) :: u32) = unat y"
  by (simp_all add: unsigned_ucast_eq take_bit_nat_eq_self less_trans [OF unsigned_less])

lemma unat_align4: "unat n + 3 < 2 ^ 32 \<Longrightarrow> unat (align4 n) = al4 (unat n)"
proof -
  assume "unat n + 3 < 2 ^ 32"
  then have "unat (n + 3) = unat n + 3" by (simp add: unat_word_ariths)
  moreover have "(3 :: u32) = mask 2" by (simp add: mask_eq_exp_minus_1)
  ultimately show ?thesis
    using unat_and_not_mask [of "n + 3" 2] by (simp add: align4_def al4_def)
qed

lemma length_dirent_bytes [simp]: "length (dirent_bytes ino rl ft name) = 8 + length name"
  by (simp add: dirent_bytes_def)

lemma dirent_fields:
  fixes ino :: u32 and rl :: u16 and ft :: u8
  assumes "off + 8 + length name \<le> length buf" and "length name < 256"
  defines "b \<equiv> patch off (dirent_bytes ino rl ft name) buf"
  shows "de_inode b off = ino" "de_rec_len b off = rl" "namelen b off = length name" "de_name b off (length name) = name"
proof -
  have s: "bslice off (8 + length name) b = dirent_bytes ino rl ft name"
    using assms(1) by (simp add: b_def bslice_patch_same)
  have n: "b ! (off + k) = dirent_bytes ino rl ft name ! k" if "k < 8 + length name" for k
    using assms(1) that by (simp add: b_def nth_patch)
  have p: "get32 (put32 ino) 0 = ino" "get16 (put16 rl) 0 = rl" by simp_all
  show "de_inode b off = ino"
    using n [of 0] n [of 1] n [of 2] n [of 3] p(1)
    by (simp add: de_inode_def get32_def dirent_bytes_def put32_def)
  show "de_rec_len b off = rl"
    using n [of 4] n [of 5] p(2)
    by (simp add: de_rec_len_def get16_def dirent_bytes_def put32_def put16_def add.commute)
  show "namelen b off = length name"
    using n [of 6] assms(2) by (simp add: de_name_len_def dirent_bytes_def put32_def put16_def unat_of_nat)
  show "de_name b off (length name) = name"
    using n assms(1)
    by (intro nth_equalityI) (auto simp: de_name_def nth_bslice b_def dirent_bytes_def put32_def put16_def nth_patch)
qed

text \<open>Taking over an unused entry.\<close>

lemma reuse_entry:
  assumes e: "entry_ok buf bs off" "dir_wf buf bs (off + reclen buf off)" "length buf = bs"
    and n: "length name < 256" "ino \<noteq> 0" "al4 (8 + length name) \<le> reclen buf off"
    and b: "b = patch off (dirent_bytes ino (de_rec_len buf off) ft name) buf"
  shows "length b = bs" "dir_wf b bs off" "dir_list b bs off = (name, ino) # dir_list buf bs (off + reclen buf off)"
    "\<And>i. i < off \<Longrightarrow> b ! i = buf ! i"
proof -
  have room: "8 + length name \<le> reclen buf off" using n(3) al4_le(1) [of "8 + length name"] by linarith
  then have fit: "off + 8 + length name \<le> length buf" using e(1,3) by (simp add: entry_ok_def)
  note f = dirent_fields [OF fit n(1), of ino "de_rec_len buf off" ft, folded b]
  show len: "length b = bs" using fit e(3) by (simp add: b)
  have eb: "entry_ok b bs off" using e(1) f n(3) by (simp add: entry_ok_def)
  have same: "b ! i = buf ! i" if "i < bs" "i < off \<or> off + reclen buf off \<le> i" for i
    using fit that room e(3) by (auto simp: b nth_patch)
  then show "\<And>i. i < off \<Longrightarrow> b ! i = buf ! i" using e(1) by (simp add: entry_ok_def)
  from dir_cong [OF e(2) _ e(3) len] same
  have "dir_wf b bs (off + reclen buf off)" "dir_list b bs (off + reclen buf off) = dir_list buf bs (off + reclen buf off)" by auto
  then show "dir_wf b bs off" "dir_list b bs off = (name, ino) # dir_list buf bs (off + reclen buf off)"
    using dir_step [OF eb] f n(2) by simp_all
qed

text \<open>Splitting the slack off an entry in use.\<close>

lemma split_entry:
  assumes e: "entry_ok buf bs off" "dir_wf buf bs (off + reclen buf off)" "length buf = bs" "de_inode buf off \<noteq> 0"
    and n: "length name < 256" "ino \<noteq> 0"
    and a: "a = al4 (8 + namelen buf off)" "a + al4 (8 + length name) \<le> reclen buf off"
    and b: "b = patch (off + a) (dirent_bytes ino (de_rec_len buf off - word_of_nat a) ft name)
      (patch (off + 4) (put16 (word_of_nat a)) buf)"
  shows "length b = bs" "dir_wf b bs off"
    "dir_list b bs off = (de_name buf off (namelen buf off), de_inode buf off) # (name, ino) # dir_list buf bs (off + reclen buf off)"
    "\<And>i. i < off \<Longrightarrow> b ! i = buf ! i"
proof -
  let ?r = "reclen buf off" and ?b1 = "patch (off + 4) (put16 (word_of_nat a)) buf"
  have a8: "8 + namelen buf off \<le> a" "8 + length name \<le> al4 (8 + length name)" unfolding a(1) by (rule al4_le)+
  have r: "off + ?r \<le> bs" using e(1) by (simp add: entry_ok_def)
  have len1: "length ?b1 = bs" using e(1,3) by (simp add: entry_ok_def)
  have fit: "off + a + 8 + length name \<le> length ?b1" using a8 a(2) r len1 by linarith
  have "namelen buf off < 256" by (rule less_le_trans [OF unsigned_less]) simp
  then have ua: "unat (word_of_nat a :: u16) = a"
    using al4_le(2) [of "8 + namelen buf off"] by (simp add: a(1) unat_of_nat)
  have ur: "unat (de_rec_len buf off - word_of_nat a) = ?r - a"
    using a(2) ua by (subst unat_sub) (simp_all add: word_le_nat_alt)
  note f = dirent_fields [OF fit n(1), of ino "de_rec_len buf off - word_of_nat a" ft, folded b]
  show len: "length b = bs" using fit len1 by (simp add: b)
  have same: "b ! i = buf ! i" if "i < bs" "i < off + 4 \<or> off + 6 \<le> i" "i < off + a \<or> off + ?r \<le> i" for i
    using that fit len1 e(1,3) a8 a(2) by (auto simp: b nth_patch entry_ok_def)
  then show "\<And>i. i < off \<Longrightarrow> b ! i = buf ! i" using e(1) by (simp add: entry_ok_def)
  have ino: "de_inode b off = de_inode buf off" and nl: "de_name_len b off = de_name_len buf off"
    using same a8 e(1) by (simp_all add: de_inode_def de_name_len_def get32_def entry_ok_def)
  have nm: "de_name b off (namelen buf off) = de_name buf off (namelen buf off)"
    using same a8 a(2) r len e(3) by (auto simp: de_name_def nth_bslice intro!: nth_equalityI)
  have "de_rec_len b off = get16 ?b1 (off + 4)"
    using fit a8 len1 unfolding de_rec_len_def b by (intro get16_patch_other) auto
  then have rl: "de_rec_len b off = word_of_nat a" using e(1,3) by (simp add: get16_patch_same entry_ok_def)
  have ok: "entry_ok b bs off" and ok': "entry_ok b bs (off + a)"
    using e(1) r a a8 f ino nl rl ua ur by (auto simp: entry_ok_def)
  have nxt: "off + a + reclen b (off + a) = off + ?r" using f(2) ur a(2) by simp
  from dir_cong [OF e(2) _ e(3) len] same
  have d: "dir_wf b bs (off + ?r)" "dir_list b bs (off + ?r) = dir_list buf bs (off + ?r)"
    using a8 a(2) by auto
  show "dir_wf b bs off" using dir_step(1) [OF ok] dir_step(1) [OF ok'] d(1) nxt by (simp add: rl ua)
  show "dir_list b bs off = (de_name buf off (namelen buf off), de_inode buf off) # (name, ino) # dir_list buf bs (off + ?r)"
    using dir_step(2) [OF ok] dir_step(2) [OF ok', unfolded nxt] d(2) f n(2) e(4) by (simp add: rl ua ino nl nm)
qed

text \<open>A change behind an entry leaves the entry.\<close>

lemma keep_entry:
  assumes e: "entry_ok buf bs off" "length buf = bs" "length b = bs" and s: "\<And>i. i < off + reclen buf off \<Longrightarrow> b ! i = buf ! i"
    and w: "dir_wf b bs (off + reclen buf off)"
  shows "entry_ok b bs off" "dir_wf b bs off" "de_rec_len b off = de_rec_len buf off"
    "dir_list b bs off = (if de_inode buf off \<noteq> 0 then [(de_name buf off (namelen buf off), de_inode buf off)] else []) @
       dir_list b bs (off + reclen buf off)"
proof -
  have f: "de_inode b off = de_inode buf off" "de_name_len b off = de_name_len buf off" and r: "de_rec_len b off = de_rec_len buf off"
    using e(1) s by (simp_all add: entry_ok_def de_inode_def de_rec_len_def de_name_len_def get32_def get16_def)
  have nm: "de_name b off (namelen buf off) = de_name buf off (namelen buf off)" if "de_inode buf off \<noteq> 0"
    using entry_name_room [OF e(1) that] e al4_le(1) [of "8 + namelen buf off"] that s
    by (auto simp: de_name_def nth_bslice entry_ok_def intro!: nth_equalityI)
  show ok: "entry_ok b bs off" using e(1) f r by (simp add: entry_ok_def)
  show "de_rec_len b off = de_rec_len buf off" by (rule r)
  show "dir_wf b bs off" using dir_step(1) [OF ok] w r by simp
  show "dir_list b bs off = (if de_inode buf off \<noteq> 0 then [(de_name buf off (namelen buf off), de_inode buf off)] else []) @
       dir_list b bs (off + reclen buf off)"
    using dir_step(2) [OF ok] f r nm by auto
qed

lemma place_scan_law:
  assumes "dir_wf buf bs off" and "length buf = bs" and "bs \<le> 4096" and "length name < 256" and "ino \<noteq> 0"
  shows "place_scan (align4 (8 + word_of_nat (length name))) name ino ft off buf bs = None \<or>
    (\<exists>b xs ys. place_scan (align4 (8 + word_of_nat (length name))) name ino ft off buf bs = Some (Some b) \<and>
       length b = bs \<and> dir_wf b bs off \<and> (\<forall>i<off. b ! i = buf ! i) \<and>
       dir_list buf bs off = xs @ ys \<and> dir_list b bs off = xs @ (name, ino) # ys)"
  using assms
proof (induction buf bs off rule: dir_wf.induct)
  case (1 buf bs off)
  let ?need = "align4 (8 + word_of_nat (length name))"
  have need: "unat ?need = al4 (8 + length name)"
    using "1.prems"(4) by (subst unat_align4) (simp_all add: unat_word_ariths unat_of_nat)
  from "1.prems"(1) show ?case
  proof (cases rule: dir_cases)
    case 1
    then show ?thesis by (subst place_scan.simps) simp
  next
    case 2
    let ?r = "reclen buf off"
    note pos = reclen_pos [OF 2(1)]
    have r: "off + ?r \<le> bs" using 2(1) by (simp add: entry_ok_def)
    note ih = "1.IH" [OF 2(3,1) 2(2) "1.prems"(2-5)]
    define pre where "pre = (if de_inode buf off \<noteq> 0 then [(de_name buf off (namelen buf off), de_inode buf off)] else [])"
    have step: "dir_list buf bs off = pre @ dir_list buf bs (off + ?r)" unfolding pre_def by (rule dir_step(2) [OF 2(1)])
    have later: ?thesis if "place_scan ?need name ino ft off buf bs = place_scan ?need name ino ft (off + ?r) buf bs"
      using ih unfolding that
    proof (elim disjE exE conjE)
      fix b xs ys assume b: "place_scan ?need name ino ft (off + ?r) buf bs = Some (Some b)" "length b = bs" "dir_wf b bs (off + ?r)"
        "\<forall>i<off + ?r. b ! i = buf ! i" "dir_list buf bs (off + ?r) = xs @ ys" "dir_list b bs (off + ?r) = xs @ (name, ino) # ys"
      note k = keep_entry [OF 2(1) "1.prems"(2) b(2) _ b(3), folded pre_def]
      show "place_scan ?need name ino ft (off + ?r) buf bs = None \<or>
        (\<exists>b xs ys. place_scan ?need name ino ft (off + ?r) buf bs = Some (Some b) \<and> length b = bs \<and> dir_wf b bs off \<and>
          (\<forall>i<off. b ! i = buf ! i) \<and> dir_list buf bs off = xs @ ys \<and> dir_list b bs off = xs @ (name, ino) # ys)"
        using b k(2,4) step by (intro disjI2 exI [of _ b] exI [of _ "pre @ xs"] exI [of _ ys]) simp
    qed simp
    show ?thesis
    proof (cases "de_inode buf off = 0")
      case free: True
      show ?thesis
      proof (cases "al4 (8 + length name) \<le> ?r")
        case True
        let ?b = "patch off (dirent_bytes ino (de_rec_len buf off) ft name) buf"
        note u = reuse_entry [where ft = ft, OF 2(1,2) "1.prems"(2,4,5) True refl]
        have "put_at off (dirent_bytes ino (de_rec_len buf off) ft name) buf = Some ?b"
          using True r al4_le(1) [of "8 + length name"] "1.prems"(2,3) u(1) by (simp add: put_at_def)
        then have "place_scan ?need name ino ft off buf bs = Some (Some ?b)"
          using pos free True need by (subst place_scan.simps) (simp add: Let_def word_le_nat_alt unat_ucast_up)
        then show ?thesis using u step free
          by (intro disjI2 exI [of _ ?b] exI [of _ "[]"] exI [of _ "dir_list buf bs off"]) (simp add: pre_def)
      next
        case False
        then have "place_scan ?need name ino ft off buf bs = place_scan ?need name ino ft (off + ?r) buf bs"
          using pos free need by (subst place_scan.simps) (simp add: Let_def word_le_nat_alt unat_ucast_up)
        then show ?thesis by (rule later)
      qed
    next
      case live: False
      let ?act = "align4 (8 + ucast (de_name_len buf off))" and ?a = "al4 (8 + namelen buf off)"
      have nl: "namelen buf off < 256" by (rule less_le_trans [OF unsigned_less]) simp
      then have act: "unat ?act = ?a" by (subst unat_align4) (simp_all add: unat_word_ariths unat_ucast_up)
      have ar: "?a \<le> ?r" using 2(1) live by (simp add: entry_ok_def)
      have slack: "unat (ucast (de_rec_len buf off) - ?act) = ?r - ?a"
        using ar act by (subst unat_sub) (simp_all add: word_le_nat_alt unat_ucast_up)
      have u16: "ucast ?act = (word_of_nat ?a :: u16)" using act by (metis of_nat_unat)
      show ?thesis
      proof (cases "?a + al4 (8 + length name) \<le> ?r")
        case True
        let ?b = "patch (off + ?a) (dirent_bytes ino (de_rec_len buf off - word_of_nat ?a) ft name)
          (patch (off + 4) (put16 (word_of_nat ?a)) buf)"
        note u = split_entry [where ft = ft, OF 2(1,2) "1.prems"(2) live "1.prems"(4,5) refl True refl]
        have "length (patch (off + 4) (put16 (word_of_nat ?a)) buf) = bs" using 2(1) "1.prems"(2) by (simp add: entry_ok_def)
        then have "put_at (off + ?a) (dirent_bytes ino (de_rec_len buf off - word_of_nat ?a) ft name)
            (patch (off + 4) (put16 (word_of_nat ?a)) buf) = Some ?b"
          using True r al4_le(1) [of "8 + length name"] "1.prems"(3) u(1) by (simp add: put_at_def)
        moreover have "al4 (8 + length name) \<le> ?r - ?a" using True by linarith
        ultimately have "place_scan ?need name ino ft off buf bs = Some (Some ?b)"
          using pos live need slack by (subst place_scan.simps) (simp add: Let_def word_le_nat_alt act u16)
        then show ?thesis using u step live
          by (intro disjI2 exI [of _ ?b] exI [of _ pre] exI [of _ "dir_list buf bs (off + ?r)"]) (simp add: pre_def)
      next
        case False
        then have "\<not> al4 (8 + length name) \<le> ?r - ?a" using ar by linarith
        then have "place_scan ?need name ino ft off buf bs = place_scan ?need name ino ft (off + ?r) buf bs"
          using pos live need slack by (subst place_scan.simps) (simp add: Let_def word_le_nat_alt)
        then show ?thesis by (rule later)
      qed
    qed
  qed
qed

section \<open>Removal\<close>

abbreviation (input) entry_at :: "bytes \<Rightarrow> nat \<Rightarrow> (bytes \<times> u32) list" where
  "entry_at buf off \<equiv> (if de_inode buf off \<noteq> 0 then [(de_name buf off (namelen buf off), de_inode buf off)] else [])"

text \<open>The entry in front takes over the room of the removed one.\<close>

lemma grow_entry:
  assumes p: "entry_ok buf bs p" "length buf = bs" "bs \<le> 4096" and o: "off = p + reclen buf p" "entry_ok buf bs off"
    and w: "dir_wf buf bs (off + reclen buf off)"
    and b: "b = patch (p + 4) (put16 (de_rec_len buf p + de_rec_len buf off)) buf"
  shows "length b = bs" "dir_wf b bs p" "dir_list b bs p = entry_at buf p @ dir_list buf bs (off + reclen buf off)"
    "\<And>i. i < p \<Longrightarrow> b ! i = buf ! i"
proof -
  let ?r = "reclen buf p + reclen buf off"
  have fit: "p + 6 \<le> length buf" "p + ?r \<le> bs" using p(1,2) o by (auto simp: entry_ok_def)
  show len: "length b = bs" using fit p(2) by (simp add: b)
  have same: "b ! i = buf ! i" if "i < bs" "i < p + 4 \<or> p + 6 \<le> i" for i
    using that fit p(2) by (auto simp: b nth_patch)
  then show "\<And>i. i < p \<Longrightarrow> b ! i = buf ! i" using p(1) by (simp add: entry_ok_def)
  have ino: "de_inode b p = de_inode buf p" and nl: "de_name_len b p = de_name_len buf p"
    using same p(1) by (simp_all add: de_inode_def de_name_len_def get32_def entry_ok_def)
  have "de_rec_len b p = de_rec_len buf p + de_rec_len buf off"
    using fit unfolding de_rec_len_def b by (simp add: get16_patch_same)
  then have rl: "reclen b p = ?r" using fit(2) p(3) by (simp add: unat_word_ariths)
  have nm: "de_name b p (namelen buf p) = de_name buf p (namelen buf p)" if "de_inode buf p \<noteq> 0"
    using same entry_name_room [OF p(1) that] len p(2) by (auto simp: de_name_def nth_bslice intro!: nth_equalityI)
  have ok: "entry_ok b bs p" using p(1) fit ino nl rl by (auto simp: entry_ok_def)
  have nxt: "p + ?r = off + reclen buf off" by (simp add: o(1))
  have d: "dir_wf b bs (p + ?r)" "dir_list b bs (p + ?r) = dir_list buf bs (p + ?r)"
    using dir_cong [OF w _ p(2) len] same p(1) unfolding nxt by (auto simp: o(1) entry_ok_def)
  show "dir_wf b bs p" using dir_step(1) [OF ok] d(1) by (simp add: rl)
  show "dir_list b bs p = entry_at buf p @ dir_list buf bs (off + reclen buf off)"
    using dir_step(2) [OF ok] d(2) nm by (simp add: rl ino nl nxt)
qed

text \<open>The first entry of a block keeps its place and loses its inode.\<close>

lemma clear_entry:
  assumes e: "entry_ok buf bs off" "length buf = bs" "dir_wf buf bs (off + reclen buf off)"
    and b: "b = patch off (put32 0) buf"
  shows "length b = bs" "dir_wf b bs off" "dir_list b bs off = dir_list buf bs (off + reclen buf off)"
proof -
  have fit: "off + 4 \<le> length buf" using e(1,2) by (simp add: entry_ok_def)
  show len: "length b = bs" using fit e(2) by (simp add: b)
  have same: "b ! i = buf ! i" if "i < bs" "off + 4 \<le> i" for i
    using that fit e(2) by (auto simp: b nth_patch)
  have ino: "de_inode b off = 0" using fit by (simp add: b de_inode_def get32_patch_same)
  have rl: "de_rec_len b off = de_rec_len buf off"
    using same e(1) by (simp add: de_rec_len_def get16_def entry_ok_def)
  have ok: "entry_ok b bs off" using e(1) ino rl by (simp add: entry_ok_def)
  have "dir_wf b bs (off + reclen buf off) \<and> dir_list b bs (off + reclen buf off) = dir_list buf bs (off + reclen buf off)"
    using dir_cong [OF e(3) _ e(2) len] same e(1) by (auto simp: entry_ok_def)
  then show "dir_wf b bs off" "dir_list b bs off = dir_list buf bs (off + reclen buf off)"
    using dir_step [OF ok] ino rl by simp_all
qed

lemma remove_scan_after:
  assumes "dir_wf buf bs off" and "length buf = bs" and "bs \<le> 4096" and "length name < 256"
    and "entry_ok buf bs p" and "off = p + reclen buf p"
  shows "(name \<notin> fst ` set (dir_list buf bs off) \<and> remove_scan name (Some p) off buf bs = None) \<or>
    (\<exists>b xs i ys. remove_scan name (Some p) off buf bs = Some b \<and> length b = bs \<and> dir_wf b bs p \<and> (\<forall>i<p. b ! i = buf ! i) \<and>
       dir_list buf bs off = xs @ (name, i) # ys \<and> name \<notin> fst ` set xs \<and> dir_list b bs p = entry_at buf p @ xs @ ys)"
  using assms
proof (induction buf bs off arbitrary: p rule: dir_wf.induct)
  case (1 buf bs off)
  from "1.prems"(1) show ?case
  proof (cases rule: dir_cases)
    case 1
    then show ?thesis by (subst (1 2) remove_scan.simps) simp
  next
    case 2
    note pos = reclen_pos [OF 2(1)] and mt = de_matches_iff [OF 2(1) "1.prems"(2,4)]
    show ?thesis
    proof (cases "de_matches buf off name")
      case True
      note g = grow_entry [OF "1.prems"(5,2,3,6) 2(1,2) refl]
      have "remove_scan name (Some p) off buf bs = Some (patch (p + 4) (put16 (de_rec_len buf p + de_rec_len buf off)) buf)"
        using pos True by (subst remove_scan.simps) simp
      moreover have "dir_list buf bs off = [] @ (name, de_inode buf off) # dir_list buf bs (off + reclen buf off)"
        using dir_step(2) [OF 2(1)] mt True by simp
      ultimately show ?thesis using g
        by (intro disjI2 exI conjI) (assumption | simp)+
    next
      case False
      have eq: "remove_scan name (Some p) off buf bs = remove_scan name (Some off) (off + reclen buf off) buf bs"
        using pos False by (subst remove_scan.simps) simp
      have nin: "name \<notin> fst ` set (entry_at buf off)" using False mt by auto
      note st = dir_step(2) [OF 2(1)]
      from "1.IH" [OF 2(3,1,2) "1.prems"(2-4) 2(1) refl] show ?thesis
      proof (elim disjE conjE exE)
        fix b xs i ys assume b: "remove_scan name (Some off) (off + reclen buf off) buf bs = Some b" "length b = bs" "dir_wf b bs off"
          "\<forall>i<off. b ! i = buf ! i" "dir_list buf bs (off + reclen buf off) = xs @ (name, i) # ys" "name \<notin> fst ` set xs"
          "dir_list b bs off = entry_at buf off @ xs @ ys"
        note k = keep_entry [OF "1.prems"(5,2) b(2), folded "1.prems"(6), OF _ b(3)]
        have pl: "p \<le> off" by (simp add: "1.prems"(6))
        show ?thesis
          unfolding eq using b k(2,4) st nin pl by (intro disjI2 exI [of _ b] exI [of _ "entry_at buf off @ xs"] exI [of _ i] exI [of _ ys]) auto
      qed (use eq st nin in auto)
    qed
  qed
qed

lemma remove_scan_law:
  assumes w: "dir_wf buf bs off" "length buf = bs" "bs \<le> 4096" and n: "length name < 256"
  shows "(name \<notin> fst ` set (dir_list buf bs off) \<and> remove_scan name None off buf bs = None) \<or>
    (\<exists>b xs i ys. remove_scan name None off buf bs = Some b \<and> length b = bs \<and> dir_wf b bs off \<and>
       dir_list buf bs off = xs @ (name, i) # ys \<and> name \<notin> fst ` set xs \<and> dir_list b bs off = xs @ ys)"
  using w(1)
proof (cases rule: dir_cases)
  case 1
  then show ?thesis by (subst (1 2) remove_scan.simps) simp
next
  case 2
  note pos = reclen_pos [OF 2(1)] and mt = de_matches_iff [OF 2(1) w(2) n] and st = dir_step(2) [OF 2(1)]
  show ?thesis
  proof (cases "de_matches buf off name")
    case True
    then have "remove_scan name None off buf bs = Some (patch off (put32 0) buf)"
      using pos by (subst remove_scan.simps) simp
    moreover have "dir_list buf bs off = [] @ (name, de_inode buf off) # dir_list buf bs (off + reclen buf off)"
      using st mt True by simp
    ultimately show ?thesis using clear_entry [OF 2(1) w(2) 2(2) refl]
      by (intro disjI2 exI conjI) (assumption | simp)+
  next
    case False
    have eq: "remove_scan name None off buf bs = remove_scan name (Some off) (off + reclen buf off) buf bs"
      using pos False by (subst remove_scan.simps) simp
    have nin: "name \<notin> fst ` set (entry_at buf off)" using False mt by auto
    from remove_scan_after [OF 2(2) w(2,3) n 2(1) refl] show ?thesis
    proof (elim disjE conjE exE)
      fix b xs i ys assume b: "remove_scan name (Some off) (off + reclen buf off) buf bs = Some b" "length b = bs" "dir_wf b bs off"
        "dir_list buf bs (off + reclen buf off) = xs @ (name, i) # ys" "name \<notin> fst ` set xs"
        "dir_list b bs off = entry_at buf off @ xs @ ys"
      show ?thesis
        unfolding eq using b st nin by (intro disjI2 exI [of _ b] exI [of _ "entry_at buf off @ xs"] exI [of _ i] exI [of _ ys]) auto
    qed (use eq st nin in auto)
  qed
qed

end
