(* ===== verification/Ext2_Cache.thy ===== *)
theory Ext2_Cache
  imports Ext2
begin

unbundle bit_operations_syntax

text \<open>
  Correctness of the block cache of \<^verbatim>\<open>fs/ext2/block.c\<close>: through the cache a block reads as
  the disk holds it. The promise is a locale, \<open>block_device\<close>, that the rest of the driver is
  proved against, and the cached routines are its interpretation.
\<close>

section \<open>Sectors\<close>

lemma concat_map_Suc_shift:
  "concat (map f [0..<Suc n]) = f 0 @ concat (map (\<lambda>i. f (Suc i)) [0..<n])"
proof -
  have "[0..<Suc n] = 0 # map Suc [0..<n]" by (simp add: upt_conv_Cons map_Suc_upt del: upt_Suc)
  then show ?thesis by (simp add: comp_def)
qed

lemma read_sectors_eq:
  "read_sectors d lba n =
     (if \<exists>i<n. rd_fail d (lba + word_of_nat i) then None
      else Some (concat (map (\<lambda>i. sectors d (lba + word_of_nat i)) [0..<n])))"
proof (induction n arbitrary: lba)
  case (Suc n)
  have s: "lba + 1 + word_of_nat i = lba + word_of_nat (Suc i)" for i by simp
  have "(\<exists>i<Suc n. rd_fail d (lba + word_of_nat i)) \<longleftrightarrow>
      rd_fail d lba \<or> (\<exists>i<n. rd_fail d (lba + word_of_nat (Suc i)))"
    by (auto simp: less_Suc_eq_0_disj simp del: of_nat_Suc)
  then show ?case
    by (simp add: Suc.IH disk_read_def concat_map_Suc_shift s del: of_nat_Suc upt_Suc)
qed simp

lemma write_sectors_eq:
  assumes "\<forall>l. \<not> wr_fail d l" and "n < 2 ^ 32"
  shows "write_sectors d lba dat n =
     (True, d\<lparr>sectors := \<lambda>l. if unat (l - lba) < n then bslice (512 * unat (l - lba)) 512 dat else sectors d l\<rparr>)"
  using assms
proof (induction n arbitrary: d lba dat)
  case (Suc n)
  let ?d = "d\<lparr>sectors := (sectors d)(lba := take 512 dat)\<rparr>"
  have "(if unat (l - (lba + 1)) < n then bslice (512 * unat (l - (lba + 1))) 512 (drop 512 dat) else sectors ?d l) =
      (if unat (l - lba) < Suc n then bslice (512 * unat (l - lba)) 512 dat else sectors d l)" for l
  proof (cases "l = lba")
    case True
    have "unat (- 1 :: u32) = 2 ^ 32 - 1" by (simp add: unsigned_minus_1_eq_mask mask_eq_exp_minus_1)
    then show ?thesis using True Suc.prems(2) by (simp add: bslice_def)
  next
    case False
    then have "l - lba \<noteq> 0" by simp
    then have "unat (l - (lba + 1)) = unat (l - lba) - 1" and p: "0 < unat (l - lba)"
      using unat_minus_one [of "l - lba"] by (simp_all add: algebra_simps unat_gt_0)
    then obtain k where "unat (l - lba) = Suc k" "unat (l - (lba + 1)) = k" by (cases "unat (l - lba)") auto
    then show ?thesis using False by (simp add: bslice_def add.commute)
  qed
  then show ?case
    using Suc.IH [of ?d "lba + 1" "drop 512 dat"] Suc.prems by (simp add: disk_write_def fun_eq_iff)
qed (simp add: fun_eq_iff)

section \<open>The invariant of the cache\<close>

definition disk_block :: "ext2 \<Rightarrow> u32 \<Rightarrow> bytes" where
  "disk_block s b = concat (map (\<lambda>i. sectors (disk_of s) (b * sectors_per_block s + word_of_nat i))
     [0..<unat (sectors_per_block s)])"

text \<open>The blocks the driver may address: not the first, inside the reach of 32-bit sector numbers,
  and not the superblock's, which is updated behind the cache.\<close>

definition block_ok :: "ext2 \<Rightarrow> u32 \<Rightarrow> bool" where
  "block_ok s b \<longleftrightarrow> b \<noteq> 0 \<and> unat b * unat (sectors_per_block s) + unat (sectors_per_block s) \<le> 2 ^ 32 \<and>
     3 < unat b * unat (sectors_per_block s)"

definition geometry :: "ext2 \<Rightarrow> bool" where
  "geometry s \<longleftrightarrow> sectors_per_block s \<in> {2, 4, 8} \<and> block_size s = 512 * sectors_per_block s \<and>
     (\<forall>l. length (sectors (disk_of s) l) = 512) \<and> (\<forall>l. \<not> wr_fail (disk_of s) l) \<and> length (g_cache s) = 4"

definition coherent :: "ext2 \<Rightarrow> bool" where
  "coherent s \<longleftrightarrow> geometry s \<and>
     (\<forall>i < 4. blk_no (g_cache s ! i) \<noteq> 0 \<longrightarrow>
        block_ok s (blk_no (g_cache s ! i)) \<and> sdata (g_cache s ! i) = disk_block s (blk_no (g_cache s ! i)) \<and>
        (\<forall>j < 4. blk_no (g_cache s ! j) = blk_no (g_cache s ! i) \<longrightarrow> j = i))"

text \<open>What a block transfer leaves alone: everything but the sectors and the cache.\<close>

definition same_fs :: "ext2 \<Rightarrow> ext2 \<Rightarrow> bool" where
  "same_fs s s' \<longleftrightarrow> (\<exists>sec c l. s' = s\<lparr>disk_of := (disk_of s)\<lparr>sectors := sec\<rparr>, g_cache := c, g_lru_seq := l\<rparr>)"

lemma same_fs_refl [simp]: "same_fs s s"
  unfolding same_fs_def
  by (rule exI [of _ "sectors (disk_of s)"], rule exI [of _ "g_cache s"], rule exI [of _ "g_lru_seq s"]) simp

lemma same_fs_cache: "same_fs s (s\<lparr>g_lru_seq := q, g_cache := c\<rparr>)"
  unfolding same_fs_def
  by (rule exI [of _ "sectors (disk_of s)"], rule exI [of _ c], rule exI [of _ q]) simp

lemma same_fs_trans [trans]: "same_fs a b \<Longrightarrow> same_fs b c \<Longrightarrow> same_fs a c"
  by (force simp: same_fs_def)

lemma same_fs_fields:
  assumes "same_fs s s'"
  shows "mounted s' = mounted s" "block_size s' = block_size s" "sectors_per_block s' = sectors_per_block s"
    "inodes_per_group s' = inodes_per_group s" "blocks_per_group s' = blocks_per_group s"
    "inode_size s' = inode_size s" "first_data_block s' = first_data_block s" "num_groups s' = num_groups s"
    "total_inodes s' = total_inodes s" "total_blocks s' = total_blocks s" "bgdt_block s' = bgdt_block s"
    "bgdt_blocks s' = bgdt_blocks s" "bgdt s' = bgdt s" "clock s' = clock s" "heap_ok s' = heap_ok s"
    "rd_fail (disk_of s') = rd_fail (disk_of s)" "wr_fail (disk_of s') = wr_fail (disk_of s)"
  using assms by (auto simp: same_fs_def)

lemma same_fs_block_ok: "same_fs s s' \<Longrightarrow> block_ok s' = block_ok s"
  by (auto simp: same_fs_def block_ok_def fun_eq_iff)

lemma geometry_spb: "geometry s \<Longrightarrow> unat (sectors_per_block s) \<in> {2, 4, 8}"
  by (auto simp: geometry_def)

lemma length_disk_block: "geometry s \<Longrightarrow> length (disk_block s b) = unat (block_size s)"
proof -
  assume g: "geometry s"
  have "length (disk_block s b) = 512 * unat (sectors_per_block s)"
    using g by (simp add: disk_block_def geometry_def length_concat comp_def sum_list_triv)
  then show ?thesis using g by (auto simp: geometry_def)
qed

lemma find_slot_Some:
  "find_slot b cs = Some i \<Longrightarrow> i < length cs \<and> blk_no (cs ! i) = b"
  by (induction b cs arbitrary: i rule: find_slot.induct) (auto split: if_splits)

lemma find_slot_None: "find_slot b cs = None \<longleftrightarrow> b \<notin> blk_no ` set cs"
  by (induction b cs rule: find_slot.induct) auto

lemma lru_victim_bound:
  "victim < n \<Longrightarrow> i + length cs \<le> n \<Longrightarrow> lru_victim all victim i cs < n"
  by (induction all victim i cs rule: lru_victim.induct) auto

lemma coherent_slot:
  assumes "coherent s" and "i < 4"
    and "blk_no c \<noteq> 0 \<Longrightarrow> block_ok s (blk_no c) \<and> sdata c = disk_block s (blk_no c) \<and>
           (\<forall>j < 4. j \<noteq> i \<longrightarrow> blk_no (g_cache s ! j) \<noteq> blk_no c)"
  shows "coherent (s\<lparr>g_lru_seq := q, g_cache := (g_cache s)[i := c]\<rparr>)"
  using assms by (auto simp: coherent_def geometry_def block_ok_def disk_block_def nth_list_update)

lemma disk_block_same: "disk_block (s\<lparr>g_lru_seq := q, g_cache := c\<rparr>) = disk_block s"
  by (simp add: disk_block_def fun_eq_iff)

lemma read_block_hit:
  assumes "coherent s" and "b \<noteq> 0" and "find_slot b (g_cache s) = Some i"
  shows "\<exists>s'. ext2_read_block b s = (Inr (disk_block s b), s') \<and> coherent s' \<and> same_fs s s' \<and> disk_block s' = disk_block s"
proof -
  let ?c = "g_cache s ! i" and ?q = "g_lru_seq s + 1"
  have i: "i < 4" and b: "blk_no ?c = b"
    using find_slot_Some [OF assms(3)] assms(1) by (simp_all add: coherent_def geometry_def)
  then have c: "block_ok s b" "sdata ?c = disk_block s b" "\<forall>j<4. j \<noteq> i \<longrightarrow> blk_no (g_cache s ! j) \<noteq> b"
    using assms(1,2) unfolding coherent_def by metis+
  have "coherent (s\<lparr>g_lru_seq := ?q, g_cache := (g_cache s)[i := ?c\<lparr>lru_seq := ?q\<rparr>]\<rparr>)"
    by (rule coherent_slot) (use assms(1) i b c in auto)
  then show ?thesis
    using assms(2,3) c(2) by (simp add: ext2_read_block_def Let_def disk_block_same same_fs_cache)
qed

lemma read_block_miss:
  assumes s: "coherent s" and b: "block_ok s b" and n: "find_slot b (g_cache s) = None"
    and r: "ext2_read_block b s = (r, s')"
  shows "coherent s' \<and> same_fs s s' \<and> disk_block s' = disk_block s \<and>
    (r = Inr (disk_block s b) \<or> r = Inl io_error \<and> (\<exists>l. rd_fail (disk_of s) l))"
proof -
  let ?v = "lru_victim (g_cache s) 0 1 (tl (g_cache s))" and ?q = "g_lru_seq s + 1"
  have len: "length (g_cache s) = 4" using s by (simp add: coherent_def geometry_def)
  have v: "?v < 4" by (rule lru_victim_bound) (simp_all add: len)
  have nb: "\<forall>j<4. blk_no (g_cache s ! j) \<noteq> b"
    using n len unfolding find_slot_None by (metis image_eqI nth_mem)
  have b0: "b \<noteq> 0" using b by (simp add: block_ok_def)
  show ?thesis
  proof (cases "read_sectors (disk_of s) (b * sectors_per_block s) (unat (sectors_per_block s))")
    case None
    let ?s = "s\<lparr>g_lru_seq := g_lru_seq s, g_cache := (g_cache s)[?v := (g_cache s ! ?v)\<lparr>blk_no := 0\<rparr>]\<rparr>"
    have "coherent ?s" by (rule coherent_slot) (use s v in auto)
    moreover have "same_fs s ?s" "disk_block ?s = disk_block s" by (rule same_fs_cache disk_block_same)+
    moreover have "r = Inl io_error" "s' = ?s"
      using r n None b0 by (simp_all add: ext2_read_block_def Let_def)
    moreover have "\<exists>l. rd_fail (disk_of s) l" using None by (auto simp: read_sectors_eq split: if_splits)
    ultimately show ?thesis by metis
  next
    case (Some dat)
    have d: "dat = disk_block s b" using Some by (simp add: read_sectors_eq disk_block_def split: if_splits)
    let ?s = "s\<lparr>g_lru_seq := ?q, g_cache := (g_cache s)[?v := \<lparr>blk_no = b, lru_seq = ?q, sdata = dat\<rparr>]\<rparr>"
    have "coherent ?s" by (rule coherent_slot) (use s v b nb d in auto)
    moreover have "same_fs s ?s" "disk_block ?s = disk_block s" by (rule same_fs_cache disk_block_same)+
    moreover have "r = Inr dat" "s' = ?s"
      using r n Some b0 by (simp_all add: ext2_read_block_def Let_def)
    ultimately show ?thesis using d by metis
  qed
qed

lemma ext2_read_block_law:
  assumes "coherent s" and "block_ok s b" and "ext2_read_block b s = (r, s')"
  shows "coherent s' \<and> same_fs s s' \<and> disk_block s' = disk_block s \<and>
    (r = Inr (disk_block s b) \<or> r = Inl io_error \<and> (\<exists>l. rd_fail (disk_of s) l))"
proof (cases "find_slot b (g_cache s)")
  case None
  then show ?thesis using read_block_miss assms by blast
next
  case (Some i)
  have "b \<noteq> 0" using assms(2) by (simp add: block_ok_def)
  from read_block_hit [OF assms(1) this Some] show ?thesis using assms(3) by auto
qed

section \<open>Writing\<close>

lemma unat_diff_nat:
  "x < 2 ^ 32 \<Longrightarrow> y < 2 ^ 32 \<Longrightarrow>
     unat (word_of_nat x - word_of_nat y :: u32) = (if y \<le> x then x - y else 2 ^ 32 + x - y)"
  by (simp add: unat_sub_if' unat_of_nat) linarith

lemma sector_index:
  assumes "block_ok s b" and "block_ok s c" and "i < unat (sectors_per_block s)"
  shows "unat (c * sectors_per_block s + word_of_nat i - b * sectors_per_block s) < unat (sectors_per_block s) \<longleftrightarrow> c = b"
    and "c = b \<Longrightarrow> unat (c * sectors_per_block s + word_of_nat i - b * sectors_per_block s) = i"
proof -
  let ?n = "unat (sectors_per_block s)" and ?C = "unat c * unat (sectors_per_block s)"
    and ?B = "unat b * unat (sectors_per_block s)"
  have w: "c * sectors_per_block s + word_of_nat i = word_of_nat (?C + i)"
    "b * sectors_per_block s = word_of_nat ?B" by simp_all
  have r: "?C + ?n \<le> 2 ^ 32" "?B + ?n \<le> 2 ^ 32" using assms(1,2) by (simp_all add: block_ok_def)
  have u: "unat (c * sectors_per_block s + word_of_nat i - b * sectors_per_block s) =
      (if ?B \<le> ?C + i then ?C + i - ?B else 2 ^ 32 + (?C + i) - ?B)"
    unfolding w by (rule unat_diff_nat) (use r assms(3) in linarith)+
  consider "c = b" | "unat c < unat b" | "unat b < unat c" by (metis linorder_neqE_nat word_unat_eq_iff)
  then have k: "(if ?B \<le> ?C + i then ?C + i - ?B else 2 ^ 32 + (?C + i) - ?B) < ?n \<longleftrightarrow> c = b"
  proof cases
    case 2
    then have "?C + ?n \<le> ?B" using mult_le_mono1 [of "Suc (unat c)" "unat b" ?n] by simp
    then show ?thesis using r assms(3) 2 by auto
  next
    case 3
    then have "?B + ?n \<le> ?C" using mult_le_mono1 [of "Suc (unat b)" "unat c" ?n] by simp
    then show ?thesis using r assms(3) 3 by auto
  qed (use assms(3) in simp)
  show "unat (c * sectors_per_block s + word_of_nat i - b * sectors_per_block s) < ?n \<longleftrightarrow> c = b"
    unfolding u by (rule k)
  show "c = b \<Longrightarrow> unat (c * sectors_per_block s + word_of_nat i - b * sectors_per_block s) = i"
    unfolding u by simp
qed

lemma concat_slices:
  "length dat = k * n \<Longrightarrow> concat (map (\<lambda>i. bslice (k * i) k dat) [0..<n]) = dat"
proof (induction n arbitrary: dat)
  case (Suc n)
  have "concat (map (\<lambda>i. bslice (k * i) k (drop k dat)) [0..<n]) = drop k dat"
    by (rule Suc.IH) (simp add: Suc.prems)
  then show ?case by (simp add: concat_map_Suc_shift bslice_def add.commute del: upt_Suc)
qed simp

lemma disk_block_upd:
  "disk_block (s\<lparr>disk_of := (disk_of s)\<lparr>sectors := f\<rparr>, g_cache := x\<rparr>) c =
     concat (map (\<lambda>i. f (c * sectors_per_block s + word_of_nat i)) [0..<unat (sectors_per_block s)])"
  by (simp add: disk_block_def)

lemma sectors_upd: "sectors (disk_of (s\<lparr>disk_of := d\<lparr>sectors := f\<rparr>, g_cache := x\<rparr>)) = f"
  by simp

lemma ext2_write_block_law:
  assumes s: "coherent s" and b: "block_ok s b" and d: "length dat = unat (block_size s)"
  shows "\<exists>s'. ext2_write_block b dat s = (Inr (), s') \<and> coherent s' \<and> same_fs s s' \<and>
    (\<forall>c. block_ok s c \<longrightarrow> disk_block s' c = (if c = b then dat else disk_block s c)) \<and>
    sectors (disk_of s') 2 = sectors (disk_of s) 2 \<and> sectors (disk_of s') 3 = sectors (disk_of s) 3"
proof -
  let ?n = "unat (sectors_per_block s)" and ?l = "b * sectors_per_block s"
  let ?sec = "\<lambda>l. if unat (l - ?l) < ?n then bslice (512 * unat (l - ?l)) 512 dat else sectors (disk_of s) l"
  let ?d = "(disk_of s)\<lparr>sectors := ?sec\<rparr>"
  have g: "geometry s" using s by (simp add: coherent_def)
  have b0: "b \<noteq> 0" using b by (simp add: block_ok_def)
  have len: "length dat = 512 * ?n" using d g by (auto simp: geometry_def)
  have w: "write_sectors (disk_of s) ?l dat ?n = (True, ?d)"
    by (rule write_sectors_eq) (use g in \<open>auto simp: geometry_def\<close>)
  have blk: "disk_block (s\<lparr>disk_of := ?d, g_cache := x\<rparr>) c = (if c = b then dat else disk_block s c)"
    if "block_ok s c" for c x
  proof -
    have "disk_block (s\<lparr>disk_of := ?d, g_cache := x\<rparr>) c = concat (map (\<lambda>i. ?sec (c * sectors_per_block s + word_of_nat i)) [0..<?n])"
      by (rule disk_block_upd)
    also have "map (\<lambda>i. ?sec (c * sectors_per_block s + word_of_nat i)) [0..<?n] =
        map (\<lambda>i. if c = b then bslice (512 * i) 512 dat else sectors (disk_of s) (c * sectors_per_block s + word_of_nat i)) [0..<?n]"
      using sector_index [OF b that] by (intro map_cong) auto
    finally show ?thesis using concat_slices [OF len] by (simp add: disk_block_def)
  qed
  have sup: "?sec 2 = sectors (disk_of s) 2" "?sec 3 = sectors (disk_of s) 3"
  proof -
    let ?B = "unat b * ?n"
    have r: "?B + ?n \<le> 2 ^ 32" "3 < ?B" "0 < ?n" using b geometry_spb [OF g] by (auto simp: block_ok_def)
    have e: "?l = word_of_nat ?B" by simp
    have "unat (word_of_nat k - ?l) = 2 ^ 32 + k - ?B" if "k \<le> 3" for k
      unfolding e using r that by (subst unat_diff_nat) auto
    from this [of 2] this [of 3] r show "?sec 2 = sectors (disk_of s) 2" "?sec 3 = sectors (disk_of s) 3" by auto
  qed
  have geo: "geometry (s\<lparr>disk_of := ?d, g_cache := x\<rparr>)" if "length x = 4" for x
    using g len that by (auto simp: geometry_def)
  have ok: "block_ok (s\<lparr>disk_of := ?d, g_cache := x\<rparr>) = block_ok s" for x
    by (simp add: block_ok_def fun_eq_iff)
  have sup': "sectors (disk_of (s\<lparr>disk_of := ?d, g_cache := x\<rparr>)) 2 = sectors (disk_of s) 2"
    "sectors (disk_of (s\<lparr>disk_of := ?d, g_cache := x\<rparr>)) 3 = sectors (disk_of s) 3" for x
    unfolding sectors_upd by (fact sup)+
  have sf: "same_fs s (s\<lparr>disk_of := ?d, g_cache := x\<rparr>)" for x
    unfolding same_fs_def by (rule exI [of _ ?sec], rule exI [of _ x], rule exI [of _ "g_lru_seq s"]) simp
  have "\<exists>x. ext2_write_block b dat s = (Inr (), s\<lparr>disk_of := ?d, g_cache := x\<rparr>) \<and> length x = 4 \<and>
      (\<forall>i<4. blk_no (x ! i) = blk_no (g_cache s ! i) \<and>
         sdata (x ! i) = (if blk_no (x ! i) = b then dat else sdata (g_cache s ! i)))"
  proof (cases "find_slot b (g_cache s)")
    case None
    then have "\<forall>j<4. blk_no (g_cache s ! j) \<noteq> b"
      using g unfolding find_slot_None geometry_def by (metis image_eqI nth_mem)
    then show ?thesis
      using None b0 w g by (intro exI [of _ "g_cache s"]) (simp add: ext2_write_block_def geometry_def)
  next
    case (Some i)
    let ?x = "(g_cache s)[i := (g_cache s ! i)\<lparr>sdata := take (unat (block_size s)) dat\<rparr>]"
    have i: "i < 4" "blk_no (g_cache s ! i) = b"
      using find_slot_Some [OF Some] g by (simp_all add: geometry_def)
    then have "\<forall>j<4. j \<noteq> i \<longrightarrow> blk_no (g_cache s ! j) \<noteq> b" using s b0 unfolding coherent_def by metis
    then show ?thesis
      using Some b0 w g d i by (intro exI [of _ ?x]) (auto simp: ext2_write_block_def geometry_def nth_list_update)
  qed
  then obtain x where x: "ext2_write_block b dat s = (Inr (), s\<lparr>disk_of := ?d, g_cache := x\<rparr>)" "length x = 4"
    "\<And>i. i < 4 \<Longrightarrow> blk_no (x ! i) = blk_no (g_cache s ! i)"
    "\<And>i. i < 4 \<Longrightarrow> sdata (x ! i) = (if blk_no (x ! i) = b then dat else sdata (g_cache s ! i))" by blast
  have "coherent (s\<lparr>disk_of := ?d, g_cache := x\<rparr>)"
    using s geo [OF x(2)] x(3,4) blk ok by (simp add: coherent_def)
  then show ?thesis using x(1) sf blk sup' by blast
qed

section \<open>The interface of a block device\<close>

text \<open>Sequences of transfers, run on a device and on an array of blocks.\<close>

datatype transfer = Read_op u32 | Write_op u32 bytes

primrec run_transfers ::
  "(u32 \<Rightarrow> (bytes, 's) op) \<Rightarrow> (u32 \<Rightarrow> bytes \<Rightarrow> (unit, 's) op) \<Rightarrow> transfer list \<Rightarrow> 's \<Rightarrow> (err + bytes) list \<times> 's" where
  "run_transfers rd wr [] s = ([], s)"
| "run_transfers rd wr (t # ts) s =
     (case (case t of
              Read_op b \<Rightarrow> rd b s
            | Write_op b dat \<Rightarrow> (case wr b dat s of (r, s) \<Rightarrow> (map_sum id (\<lambda>_. []) r, s))) of
        (r, s) \<Rightarrow> (case run_transfers rd wr ts s of (rs, s) \<Rightarrow> (r # rs, s)))"

primrec array_transfers :: "transfer list \<Rightarrow> (u32 \<Rightarrow> bytes) \<Rightarrow> (err + bytes) list \<times> (u32 \<Rightarrow> bytes)" where
  "array_transfers [] m = ([], m)"
| "array_transfers (t # ts) m =
     (case t of
        Read_op b \<Rightarrow> (case array_transfers ts m of (rs, m') \<Rightarrow> (Inr (m b) # rs, m'))
      | Write_op b dat \<Rightarrow> (case array_transfers ts (m(b := dat)) of (rs, m') \<Rightarrow> (Inr [] # rs, m')))"

fun transfer_ok :: "(u32 \<Rightarrow> bool) \<Rightarrow> nat \<Rightarrow> transfer \<Rightarrow> bool" where
  "transfer_ok ok n (Read_op b) \<longleftrightarrow> ok b"
| "transfer_ok ok n (Write_op b dat) \<longleftrightarrow> ok b \<and> length dat = n"

locale block_device =
  fixes rd :: "u32 \<Rightarrow> (bytes, 's) op" and wr :: "u32 \<Rightarrow> bytes \<Rightarrow> (unit, 's) op"
    and blk :: "'s \<Rightarrow> u32 \<Rightarrow> bytes" and ok :: "'s \<Rightarrow> u32 \<Rightarrow> bool" and bsize :: "'s \<Rightarrow> nat"
    and inv :: "'s \<Rightarrow> bool" and frame :: "'s \<Rightarrow> 's \<Rightarrow> bool" and faulty :: "'s \<Rightarrow> bool"
  assumes read_law: "inv s \<Longrightarrow> ok s b \<Longrightarrow> rd b s = (r, s') \<Longrightarrow>
      inv s' \<and> frame s s' \<and> blk s' = blk s \<and> (r = Inr (blk s b) \<or> r = Inl (Errno (-1)) \<and> faulty s)"
    and write_law: "inv s \<Longrightarrow> ok s b \<Longrightarrow> length dat = bsize s \<Longrightarrow>
      \<exists>s'. wr b dat s = (Inr (), s') \<and> inv s' \<and> frame s s' \<and>
           (\<forall>c. ok s c \<longrightarrow> blk s' c = (if c = b then dat else blk s c))"
    and frame_refl: "frame s s"
    and frame_trans: "frame s s' \<Longrightarrow> frame s' s'' \<Longrightarrow> frame s s''"
    and frame_const: "frame s s' \<Longrightarrow> ok s' = ok s \<and> bsize s' = bsize s \<and> (faulty s' \<longleftrightarrow> faulty s)"
begin

lemma read_ok:
  "inv s \<Longrightarrow> ok s b \<Longrightarrow> \<not> faulty s \<Longrightarrow>
     \<exists>s'. rd b s = (Inr (blk s b), s') \<and> inv s' \<and> frame s s' \<and> blk s' = blk s"
  using read_law by (metis surj_pair)

lemma read_modify_write:
  assumes s: "inv s" "ok s b" "\<not> faulty s" and f: "length (f (blk s b)) = bsize s"
  shows "\<exists>s'. bindE (rd b) (\<lambda>d. wr b (f d)) s = (Inr (), s') \<and> inv s' \<and> frame s s' \<and>
    (\<forall>c. ok s c \<longrightarrow> blk s' c = (if c = b then f (blk s b) else blk s c))"
proof -
  obtain t where t: "rd b s = (Inr (blk s b), t)" "inv t" "frame s t" "blk t = blk s"
    using read_ok [OF s] by blast
  note c = frame_const [OF t(3)]
  obtain u where "wr b (f (blk s b)) t = (Inr (), u)" "inv u" "frame t u"
      "\<forall>c. ok s c \<longrightarrow> blk u c = (if c = b then f (blk s b) else blk s c)"
    using write_law [OF t(2), of b "f (blk s b)"] s(2) f c t(4) by auto
  then show ?thesis using t(1,3) frame_trans by (auto simp: bindE_def)
qed

lemma run_transfers_array:
  assumes "inv s" and "\<not> faulty s" and "list_all (transfer_ok (ok s) (bsize s)) ts"
    and "\<And>c. ok s c \<Longrightarrow> blk s c = m c"
  shows "\<exists>s'. run_transfers rd wr ts s = (fst (array_transfers ts m), s') \<and> inv s' \<and> frame s s' \<and>
    (\<forall>c. ok s c \<longrightarrow> blk s' c = snd (array_transfers ts m) c)"
  using assms
proof (induction ts arbitrary: s m)
  case Nil
  then show ?case by (simp add: frame_refl)
next
  case (Cons t ts)
  obtain r u m' where u: "(case t of Read_op b \<Rightarrow> rd b s
        | Write_op b dat \<Rightarrow> (case wr b dat s of (r, s) \<Rightarrow> (map_sum id (\<lambda>_. []) r, s))) = (r, u)"
      "inv u" "frame s u" "\<forall>c. ok s c \<longrightarrow> blk u c = m' c"
      "array_transfers (t # ts) m = (r # fst (array_transfers ts m'), snd (array_transfers ts m'))"
  proof (cases t)
    case (Read_op b)
    then have "ok s b" using Cons.prems(3) by simp
    then obtain u where "rd b s = (Inr (blk s b), u)" "inv u" "frame s u" "blk u = blk s"
      using read_ok Cons.prems by blast
    then show thesis
      using Read_op Cons.prems(4) \<open>ok s b\<close> by (intro that [of "Inr (m b)" u m]) (auto split: prod.split)
  next
    case (Write_op b dat)
    then have "ok s b" "length dat = bsize s" using Cons.prems(3) by simp_all
    then obtain u where "wr b dat s = (Inr (), u)" "inv u" "frame s u"
        "\<forall>c. ok s c \<longrightarrow> blk u c = (if c = b then dat else blk s c)"
      using write_law Cons.prems by blast
    then show thesis
      using Write_op Cons.prems(4) by (intro that [of "Inr []" u "m(b := dat)"]) (auto split: prod.split)
  qed
  note c = frame_const [OF u(3)]
  obtain v where "run_transfers rd wr ts u = (fst (array_transfers ts m'), v)" "inv v" "frame u v"
      "\<forall>c. ok s c \<longrightarrow> blk v c = snd (array_transfers ts m') c"
    using Cons.IH [OF u(2), of m'] Cons.prems(2,3) c u(4) by auto
  then show ?case using u frame_trans by auto
qed

end

interpretation bdev: block_device ext2_read_block ext2_write_block disk_block block_ok
  "\<lambda>s. unat (block_size s)" coherent same_fs "\<lambda>s. \<exists>l. rd_fail (disk_of s) l"
proof unfold_locales
  fix s b r s'
  assume "coherent s" "block_ok s b" "ext2_read_block b s = (r, s')"
  then show "coherent s' \<and> same_fs s s' \<and> disk_block s' = disk_block s \<and>
      (r = Inr (disk_block s b) \<or> r = Inl (Errno (- 1)) \<and> (\<exists>l. rd_fail (disk_of s) l))"
    by (rule ext2_read_block_law)
next
  fix s b and dat :: bytes
  assume "coherent s" "block_ok s b" "length dat = unat (block_size s)"
  from ext2_write_block_law [OF this]
  show "\<exists>s'. ext2_write_block b dat s = (Inr (), s') \<and> coherent s' \<and> same_fs s s' \<and>
      (\<forall>c. block_ok s c \<longrightarrow> disk_block s' c = (if c = b then dat else disk_block s c))" by blast
next
  show "same_fs s s' \<Longrightarrow> same_fs s' s'' \<Longrightarrow> same_fs s s''" for s s' s'' by (rule same_fs_trans)
next
  fix s s' assume f: "same_fs s s'"
  show "block_ok s' = block_ok s \<and> unat (block_size s') = unat (block_size s) \<and>
      ((\<exists>l. rd_fail (disk_of s') l) \<longleftrightarrow> (\<exists>l. rd_fail (disk_of s) l))"
    by (simp add: same_fs_block_ok [OF f] same_fs_fields [OF f])
qed simp

section \<open>Mounting\<close>

lemma block_size_values:
  assumes "super_fields sb = Some (bs, isz, ng)"
  shows "bs \<in> {1024, 2048, 4096}"
proof -
  let ?k = "unat (s_log_block_size sb) mod 32"
  have bs: "bs = push_bit ?k 1024" "1024 \<le> bs" "bs \<le> 4096"
    using assms by (auto simp: super_fields_def Let_def not_less split: if_splits)
  have "?k < 32" by simp
  then have "?k \<in> set [0..<32]" by simp
  then have "?k \<in> {0, 1, 2} \<or> push_bit ?k (1024 :: u32) < 1024 \<or> push_bit ?k (1024 :: u32) > 4096"
    by (auto simp: upt_rec)
  then show ?thesis using bs by auto
qed

lemma ext2_mount_coherent:
  assumes "ext2_mount (Some d) s = (Inr (), s')" and "length (g_cache s) = 4"
    and "\<forall>l. length (sectors d l) = 512" and "\<forall>l. \<not> wr_fail d l"
  shows "coherent s' \<and> disk_of s' = d \<and> mounted s'"
proof -
  let ?s = "ext2_block_cache_flush (fs_zero (if mounted s then ext2_super_free s else s))"
  have fl: "length (g_cache ?s) = 4" "\<forall>i<4. blk_no (g_cache ?s ! i) = 0"
    using assms(2) by (auto simp: ext2_block_cache_flush_def fs_zero_def ext2_super_free_def)
  obtain bs isz ng x where e: "super_fields x = Some (bs, isz, ng)" and s': "disk_of s' = d" "mounted s'"
      "block_size s' = bs" "sectors_per_block s' = bs div 512" "g_cache s' = g_cache ?s"
    using assms(1) unfolding ext2_mount_def ext2_super_read_def
    by (auto simp: Let_def split: option.splits if_splits prod.splits)
  have "geometry s'"
    using block_size_values [OF e] s' assms(3,4) fl(1) by (auto simp: geometry_def)
  then show ?thesis using s' fl by (simp add: coherent_def)
qed

section \<open>A small disk\<close>

text \<open>A file system of sixteen blocks of 1 KiB: the superblock in block 1, one group descriptor in
  block 2, the bitmaps in blocks 3 and 4, sixteen inodes in blocks 5 and 6, and the root directory,
  which has two entries, in block 7.\<close>

definition sparse :: "(nat \<times> u8) list \<Rightarrow> bytes" where
  "sparse kvs = map (\<lambda>i. case map_of kvs i of Some v \<Rightarrow> v | None \<Rightarrow> 0) [0..<512]"

definition small_sector :: "u32 \<Rightarrow> bytes" where
  "small_sector l =
     (if l = 2 then sparse [(0, 16), (4, 16), (12, 8), (16, 14), (20, 1), (33, 0x20), (40, 16), (56, 0x53), (57, 0xEF)]
      else if l = 4 then sparse [(0, 3), (4, 4), (8, 5), (12, 8), (14, 14), (16, 1)]
      else if l = 6 then sparse [(0, 0x7F)]
      else if l = 8 then sparse [(0, 0x03)]
      else if l = 10 then sparse [(128, 0xED), (129, 0x41), (133, 0x04), (154, 2), (156, 2), (168, 7)]
      else if l = 14 then sparse [(0, 2), (4, 12), (6, 1), (7, 2), (8, 46), (12, 2), (16, 0xF4), (17, 0x03), (18, 2), (19, 2), (20, 46), (21, 46)]
      else replicate 512 0)"

definition small_disk :: disk where
  "small_disk = \<lparr>sectors = small_sector, rd_fail = (\<lambda>_. False), wr_fail = (\<lambda>_. False), present = True\<rparr>"

definition unmounted :: ext2 where
  "unmounted = \<lparr>disk_of = small_disk, mounted = False, block_size = 0, sectors_per_block = 0,
     inodes_per_group = 0, blocks_per_group = 0, inode_size = 0, first_data_block = 0, num_groups = 0,
     total_inodes = 0, total_blocks = 0, rev_level = 0, bgdt_block = 0, bgdt_blocks = 0, bgdt = None,
     g_cache = replicate 4 \<lparr>blk_no = 0, lru_seq = 0, sdata = []\<rparr>, g_lru_seq = 0, clock = 1000,
     task_uid = 0, task_gid = 0, heap_ok = (\<lambda>n. 0 < n)\<rparr>"

definition small_fs :: ext2 where
  "small_fs = unmounted\<lparr>mounted := True, block_size := 1024, sectors_per_block := 2, inodes_per_group := 16,
     blocks_per_group := 8192, inode_size := 128, first_data_block := 1, num_groups := 1,
     total_inodes := 16, total_blocks := 16, bgdt_block := 2, bgdt_blocks := 1,
     bgdt := Some (small_sector 4 @ small_sector 5)\<rparr>"

lemma length_sparse [simp]: "length (sparse kvs) = 512"
  by (simp add: sparse_def)

lemma length_small_sector [simp]: "length (small_sector l) = 512"
  by (simp add: small_sector_def)

lemma nth_sparse [simp]: "i < 512 \<Longrightarrow> sparse kvs ! i = (case map_of kvs i of Some v \<Rightarrow> v | None \<Rightarrow> 0)"
  by (simp add: sparse_def)

lemma small_super: "super_fields (superblock_of (small_sector 2 @ small_sector 3)) = Some (1024, 128, 1)"
  by (simp add: superblock_of_def small_sector_def super_fields_def get16_def get32_def nth_append)

lemma small_super_fields:
  "s_inodes_per_group (superblock_of (small_sector 2 @ small_sector 3)) = 16"
  "s_blocks_per_group (superblock_of (small_sector 2 @ small_sector 3)) = 8192"
  "s_first_data_block (superblock_of (small_sector 2 @ small_sector 3)) = 1"
  "s_inodes_count (superblock_of (small_sector 2 @ small_sector 3)) = 16"
  "s_blocks_count (superblock_of (small_sector 2 @ small_sector 3)) = 16"
  "s_rev_level (superblock_of (small_sector 2 @ small_sector 3)) = 0"
  by (simp_all add: superblock_of_def small_sector_def get32_def nth_append)

lemma small_bgdt: "read_bgdt small_disk 2 2 (Suc 0) = Some (small_sector 4 @ small_sector 5)"
  by (simp add: read_sectors_eq small_disk_def upt_rec)

lemma small_mount: "ext2_mount (Some small_disk) unmounted = (Inr (), small_fs)"
  using small_super small_super_fields small_bgdt
  by (simp add: ext2_mount_def ext2_super_read_def small_fs_def unmounted_def ext2_block_cache_flush_def
      fs_zero_def disk_read_def Let_def small_disk_def)

text \<open>C32. The cache is invisible. After a successful mount of a disk that takes all reads and
  writes, any sequence of block reads and writes that stays inside the disk's reach, clear of the
  superblock and in whole blocks gives the results an array of blocks gives, and leaves on the
  disk the blocks the array ends with.\<close>

theorem ext2_cache_transparent:
  assumes "ext2_mount (Some d) s0 = (Inr (), s)" and "length (g_cache s0) = 4"
    and "\<forall>l. length (sectors d l) = 512 \<and> \<not> rd_fail d l \<and> \<not> wr_fail d l"
    and "list_all (transfer_ok (block_ok s) (unat (block_size s))) ts"
  shows "\<exists>s'. run_transfers ext2_read_block ext2_write_block ts s = (fst (array_transfers ts (disk_block s)), s') \<and>
    (\<forall>b. block_ok s b \<longrightarrow> disk_block s' b = snd (array_transfers ts (disk_block s)) b)"
proof -
  have "coherent s" "disk_of s = d" using ext2_mount_coherent [OF assms(1,2)] assms(3) by blast+
  then show ?thesis using bdev.run_transfers_array [of s ts "disk_block s"] assms(3,4) by blast
qed

theorem ext2_cache_transparent_witness:
  "fst (run_transfers ext2_read_block ext2_write_block [Write_op 9 (replicate 1024 1), Read_op 9, Read_op 8] small_fs) =
     [Inr [], Inr (replicate 1024 1), Inr (replicate 1024 0)]"
proof -
  have "disk_block small_fs 8 = replicate 1024 0"
    by (simp add: disk_block_def small_fs_def unmounted_def small_disk_def small_sector_def upt_rec
        replicate_add [symmetric])
  then show ?thesis
    using ext2_cache_transparent [OF small_mount, of "[Write_op 9 (replicate 1024 1), Read_op 9, Read_op 8]"]
    by (auto simp: block_ok_def small_fs_def unmounted_def small_disk_def)
qed

end
