(* ===== verification/Ext2_Inode.thy ===== *)
theory Ext2_Inode
  imports Ext2_Cache
begin

unbundle bit_operations_syntax

text \<open>
  Inodes on the disk: an inode written with \<^const>\<open>ext2_write_inode\<close> is the inode that
  \<^const>\<open>ext2_read_inode\<close> returns, and no other inode changes. The proofs rest on the interface of
  the block device and on a well-formed layout: the regions the group descriptors name do not
  overlap and lie inside the disk.
\<close>

section \<open>The bytes of an inode\<close>

lemma get16_append_skip [le_simps]: "length ys \<le> off \<Longrightarrow> get16 (ys @ xs) off = get16 xs (off - length ys)"
  by (auto simp: get16_def nth_append dest!: le_Suc_ex)

lemma get32_append_skip [le_simps]: "length ys \<le> off \<Longrightarrow> get32 (ys @ xs) off = get32 xs (off - length ys)"
  by (auto simp: get32_def nth_append dest!: le_Suc_ex)

lemma get16_put16_append [simp]: "get16 (put16 v @ xs) 0 = v"
  using get16_put16 [of v] by (simp add: get16_def put16_def)

lemma get32_put32_append [simp]: "get32 (put32 v @ xs) 0 = v"
  using get32_put32 [of v] by (simp add: get32_def put32_def)

lemma length_concat_put32 [simp]: "length (concat (map put32 vs)) = 4 * length vs"
  by (induction vs) simp_all

lemma get32_concat_put32: "k < length vs \<Longrightarrow> get32 (concat (map put32 vs) @ xs) (4 * k) = vs ! k"
proof (induction vs arbitrary: k)
  case (Cons v vs)
  then show ?case by (cases k) (simp_all add: get32_append_skip)
qed simp

definition inode_wf :: "ext2_inode \<Rightarrow> bool" where
  "inode_wf i \<longleftrightarrow> length (i_block i) = 15 \<and> length (i_osd2 i) = 12"

lemma inode_of_wf: "128 \<le> length b \<Longrightarrow> inode_wf (inode_of b)"
  by (simp add: inode_wf_def inode_of_def)

lemma length_inode_bytes: "inode_wf i \<Longrightarrow> length (inode_bytes i) = 128"
  by (simp add: inode_wf_def inode_bytes_def)

lemma inode_of_bytes:
  assumes "inode_wf i"
  shows "inode_of (inode_bytes i) = i"
proof -
  define rest where "rest = put32 (i_generation i) @ put32 (i_file_acl i) @ put32 (i_dir_acl i) @ put32 (i_faddr i) @ i_osd2 i"
  have len: "length (i_block i) = 15" "length (i_osd2 i) = 12" using assms by (simp_all add: inode_wf_def)
  have blk: "map (\<lambda>k. get32 (inode_bytes i) (40 + 4 * k)) [0..<15] = i_block i"
    by (rule nth_equalityI)
      (simp_all add: len inode_bytes_def get32_append_skip get32_concat_put32)
  have osd: "bslice 116 12 (inode_bytes i) = i_osd2 i"
    by (simp add: len bslice_def inode_bytes_def)
  show ?thesis
    by (rule ext2_inode.equality) (simp_all only: inode_of_def ext2_inode.simps blk osd,
      simp_all add: inode_bytes_def len le_simps)
qed

section \<open>Layout\<close>

definition gdesc :: "ext2 \<Rightarrow> nat \<Rightarrow> ext2_bgdt_entry" where
  "gdesc s g = bgdt_entry_of (bslice (32 * g) 32 (the (bgdt s)))"

definition table_blocks :: "ext2 \<Rightarrow> nat" where
  "table_blocks s = (unat (inodes_per_group s) * unat (inode_size s) + unat (block_size s) - 1) div unat (block_size s)"

definition group_meta :: "ext2 \<Rightarrow> nat \<Rightarrow> u32 list" where
  "group_meta s g = bg_block_bitmap (gdesc s g) # bg_inode_bitmap (gdesc s g) #
     map (\<lambda>k. bg_inode_table (gdesc s g) + word_of_nat k) [0..<table_blocks s]"

definition bgdt_region :: "ext2 \<Rightarrow> u32 list" where
  "bgdt_region s = map (\<lambda>k. bgdt_block s + word_of_nat k) [0..<unat (bgdt_blocks s)]"

definition meta_blocks :: "ext2 \<Rightarrow> u32 list" where
  "meta_blocks s = bgdt_region s @ concat (map (group_meta s) [0..<unat (num_groups s)])"

definition layout :: "ext2 \<Rightarrow> bool" where
  "layout s \<longleftrightarrow> mounted s \<and>
     (\<exists>b. bgdt s = Some b \<and> length b = unat (bgdt_blocks s) * unat (block_size s) \<and> 32 * unat (num_groups s) \<le> length b) \<and>
     distinct (meta_blocks s) \<and> list_all (block_ok s) (meta_blocks s) \<and>
     0 < inodes_per_group s \<and> 0 < blocks_per_group s \<and>
     unat (inodes_per_group s) * unat (inode_size s) < 2 ^ 32 \<and>
     128 \<le> unat (inode_size s) \<and> unat (inode_size s) dvd unat (block_size s) \<and>
     unat (inodes_per_group s) \<le> 8 * unat (block_size s) \<and> unat (blocks_per_group s) \<le> 8 * unat (block_size s) \<and>
     unat (total_inodes s) \<le> unat (num_groups s) * unat (inodes_per_group s) \<and>
     unat (first_data_block s) + unat (num_groups s) * unat (blocks_per_group s) < 2 ^ 32 \<and>
     unat (total_blocks s) \<le> unat (first_data_block s) + unat (num_groups s) * unat (blocks_per_group s)"

lemma bgdt_get_layout:
  "layout s \<Longrightarrow> unat g < unat (num_groups s) \<Longrightarrow> bgdt_get g s = (Inr (gdesc s (unat g)), s)"
  by (auto simp: layout_def bgdt_get_def gdesc_def)

lemma same_fs_gdesc: "same_fs s s' \<Longrightarrow> gdesc s' = gdesc s"
  by (auto simp: gdesc_def same_fs_fields fun_eq_iff)

lemma same_fs_layout:
  assumes "same_fs s s'" shows "layout s' = layout s" "meta_blocks s' = meta_blocks s"
proof -
  note [simp] = same_fs_fields [OF assms] same_fs_gdesc [OF assms] same_fs_block_ok [OF assms]
  have g: "group_meta s' = group_meta s" by (simp add: group_meta_def table_blocks_def fun_eq_iff)
  then show "meta_blocks s' = meta_blocks s" by (simp add: meta_blocks_def bgdt_region_def)
  then show "layout s' = layout s" by (simp add: layout_def)
qed

definition inode_valid :: "ext2 \<Rightarrow> u32 \<Rightarrow> bool" where
  "inode_valid s ino \<longleftrightarrow> ino \<noteq> 0 \<and> ino \<le> total_inodes s"

definition inode_group :: "ext2 \<Rightarrow> u32 \<Rightarrow> nat" where
  "inode_group s ino = (unat ino - 1) div unat (inodes_per_group s)"

definition inode_index :: "ext2 \<Rightarrow> u32 \<Rightarrow> nat" where
  "inode_index s ino = (unat ino - 1) mod unat (inodes_per_group s)"

definition inode_block :: "ext2 \<Rightarrow> u32 \<Rightarrow> u32" where
  "inode_block s ino = bg_inode_table (gdesc s (inode_group s ino)) +
     word_of_nat (inode_index s ino * unat (inode_size s) div unat (block_size s))"

definition inode_off :: "ext2 \<Rightarrow> u32 \<Rightarrow> nat" where
  "inode_off s ino = inode_index s ino * unat (inode_size s) mod unat (block_size s)"

definition disk_inode :: "ext2 \<Rightarrow> u32 \<Rightarrow> ext2_inode" where
  "disk_inode s ino = inode_of (bslice (inode_off s ino) 128 (disk_block s (inode_block s ino)))"

lemma same_fs_inode:
  assumes "same_fs s s'"
  shows "inode_valid s' = inode_valid s" "inode_block s' = inode_block s" "inode_off s' = inode_off s"
  by (simp_all add: fun_eq_iff inode_valid_def inode_block_def inode_off_def inode_group_def inode_index_def
      same_fs_fields [OF assms] same_fs_gdesc [OF assms])

lemma div_less_ceil:
  assumes "k < (m :: nat)" and "0 < b" and "b dvd n" and "0 < n"
  shows "k * b div n < (m * b + n - 1) div n"
proof -
  have "k * b + b \<le> m * b" using assms(1) by (metis Suc_leI add.commute mult_Suc mult_le_mono1)
  moreover have "k * b div n * n \<le> k * b" by (rule div_times_less_eq_dividend)
  ultimately have "k * b div n * n + n \<le> m * b + n - 1" using assms(2,4) by linarith
  then have "(k * b div n + 1) * n \<le> m * b + n - 1" by simp
  then show ?thesis by (metis Suc_eq_plus1 Suc_le_lessD assms(4) less_eq_div_iff_mult_less_eq)
qed

lemma mod_room:
  assumes "b dvd (n :: nat)" and "0 < n"
  shows "k * b mod n + b \<le> n"
proof -
  obtain q where q: "n = b * q" using assms(1) by (elim dvdE)
  then have "k * b mod n = b * (k mod q)" by (simp add: mult.commute [of k])
  moreover have "k mod q + 1 \<le> q" using assms(2) q by (cases q) (simp_all add: Suc_leI)
  then have "b * (k mod q + 1) \<le> b * q" by (rule mult_le_mono2)
  ultimately show ?thesis using q by simp
qed

lemma layout_inode:
  assumes s: "layout s" "coherent s" and v: "inode_valid s ino"
  shows "inode_group s ino < unat (num_groups s)" and "inode_index s ino < unat (inodes_per_group s)"
    and "inode_block s ino \<in> set (group_meta s (inode_group s ino))" and "block_ok s (inode_block s ino)"
    and "inode_off s ino + 128 \<le> unat (block_size s)"
    and "inode_index s ino * unat (inode_size s) div unat (block_size s) < table_blocks s"
proof -
  let ?ipg = "unat (inodes_per_group s)" and ?isz = "unat (inode_size s)" and ?bs = "unat (block_size s)"
  have ipg: "0 < ?ipg" and l: "128 \<le> ?isz" "?isz dvd ?bs" "unat (total_inodes s) \<le> unat (num_groups s) * ?ipg"
    using s(1) by (auto simp: layout_def word_gt_0 unat_gt_0)
  have bs: "0 < ?bs" using s(2) by (auto simp: coherent_def geometry_def)
  have n: "0 < unat ino" "unat ino \<le> unat (total_inodes s)"
    using v by (auto simp: inode_valid_def word_le_nat_alt unat_gt_0)
  then have "unat ino - 1 < unat (num_groups s) * ?ipg" using l(3) by linarith
  then show g: "inode_group s ino < unat (num_groups s)"
    by (simp add: inode_group_def less_mult_imp_div_less)
  show i: "inode_index s ino < ?ipg" using ipg by (simp add: inode_index_def)
  show "inode_off s ino + 128 \<le> ?bs"
    using mod_room [OF l(2) bs, of "inode_index s ino"] l(1) by (simp add: inode_off_def)
  show "inode_index s ino * ?isz div ?bs < table_blocks s"
    using div_less_ceil [OF i _ l(2) bs] l(1) by (simp add: table_blocks_def)
  then show m: "inode_block s ino \<in> set (group_meta s (inode_group s ino))"
    by (auto simp: group_meta_def inode_block_def)
  show "block_ok s (inode_block s ino)"
    using m g s(1) by (fastforce simp: layout_def meta_blocks_def list_all_iff)
qed

lemma inode_byte_lt:
  assumes "layout s" "coherent s" "inode_valid s ino"
  shows "inode_index s ino * unat (inode_size s) < 2 ^ 32"
proof -
  have "inode_index s ino * unat (inode_size s) \<le> unat (inodes_per_group s) * unat (inode_size s)"
    using layout_inode(2) [OF assms] by (intro mult_le_mono1) simp
  also have "\<dots> < 2 ^ 32" using assms(1) by (simp add: layout_def)
  finally show ?thesis .
qed

lemma inode_words:
  assumes s: "layout s" "coherent s" and v: "inode_valid s ino"
  shows "unat ((ino - 1) div inodes_per_group s) = inode_group s ino"
    and "unat (((ino - 1) mod inodes_per_group s * inode_size s) mod block_size s) = inode_off s ino"
    and "bg_inode_table (gdesc s (inode_group s ino)) + ((ino - 1) mod inodes_per_group s * inode_size s) div block_size s =
      inode_block s ino"
proof -
  let ?ipg = "unat (inodes_per_group s)" and ?isz = "unat (inode_size s)"
  have n: "unat (ino - 1) = unat ino - 1"
    using v unat_minus_one [of ino] by (simp add: inode_valid_def)
  show "unat ((ino - 1) div inodes_per_group s) = inode_group s ino"
    by (simp add: unat_div_distrib n inode_group_def)
  have i: "unat ((ino - 1) mod inodes_per_group s) = inode_index s ino"
    by (simp add: unat_mod_distrib n inode_index_def)
  note lt = inode_byte_lt [OF assms]
  have b: "unat ((ino - 1) mod inodes_per_group s * inode_size s) = inode_index s ino * ?isz"
    using lt by (simp add: unat_word_ariths(2) i)
  then show "unat (((ino - 1) mod inodes_per_group s * inode_size s) mod block_size s) = inode_off s ino"
    by (simp add: unat_mod_distrib inode_off_def)
  have "((ino - 1) mod inodes_per_group s * inode_size s) div block_size s =
      word_of_nat (inode_index s ino * ?isz div unat (block_size s))"
    using le_less_trans [OF div_le_dividend lt, of "unat (block_size s)"]
    by (simp add: word_unat_eq_iff unat_div_distrib b unat_of_nat)
  then show "bg_inode_table (gdesc s (inode_group s ino)) + ((ino - 1) mod inodes_per_group s * inode_size s) div block_size s =
      inode_block s ino" by (simp add: inode_block_def)
qed

lemma read_inode_run:
  assumes "layout s" "coherent s" "inode_valid s ino"
  shows "ext2_read_inode ino s = bindE (ext2_read_block (inode_block s ino))
    (\<lambda>blk. ret (inode_of (bslice (inode_off s ino) 128 blk))) s"
proof -
  have g: "unat ((ino - 1) div inodes_per_group s) < unat (num_groups s)"
    using inode_words(1) [OF assms] layout_inode(1) [OF assms] by simp
  then show ?thesis
    using assms(3) bgdt_get_layout [OF assms(1) g]
    by (simp add: ext2_read_inode_def inode_valid_def Let_def inode_words [OF assms] word_le_nat_alt word_less_nat_alt not_le bindE_def
        split: prod.split sum.split)
qed

lemma write_inode_run:
  assumes "layout s" "coherent s" "inode_valid s ino"
  shows "ext2_write_inode ino i s = bindE (ext2_read_block (inode_block s ino))
    (\<lambda>blk. ext2_write_block (inode_block s ino) (patch (inode_off s ino) (inode_bytes i) blk)) s"
proof -
  have g: "unat ((ino - 1) div inodes_per_group s) < unat (num_groups s)"
    using inode_words(1) [OF assms] layout_inode(1) [OF assms] by simp
  then show ?thesis
    using assms(3) bgdt_get_layout [OF assms(1) g]
    by (simp add: ext2_write_inode_def inode_valid_def Let_def inode_words [OF assms] word_le_nat_alt word_less_nat_alt not_le bindE_def
        split: prod.split sum.split)
qed

abbreviation (input) no_faults :: "ext2 \<Rightarrow> bool" where
  "no_faults s \<equiv> \<nexists>l. rd_fail (disk_of s) l"

lemma read_inode_ok:
  assumes "layout s" "coherent s" "inode_valid s ino" "no_faults s"
  shows "\<exists>s'. ext2_read_inode ino s = (Inr (disk_inode s ino), s') \<and> coherent s' \<and> same_fs s s' \<and> disk_block s' = disk_block s"
proof -
  obtain s' where "ext2_read_block (inode_block s ino) s = (Inr (disk_block s (inode_block s ino)), s')"
      "coherent s'" "same_fs s s'" "disk_block s' = disk_block s"
    using bdev.read_ok [OF assms(2) layout_inode(4) [OF assms(1-3)] assms(4)] by blast
  then show ?thesis by (simp add: read_inode_run [OF assms(1-3)] bindE_def disk_inode_def)
qed

lemma write_inode_ok:
  assumes "layout s" "coherent s" "inode_valid s ino" "no_faults s" "inode_wf i"
  shows "\<exists>s'. ext2_write_inode ino i s = (Inr (), s') \<and> coherent s' \<and> same_fs s s' \<and>
    (\<forall>c. block_ok s c \<longrightarrow> disk_block s' c =
       (if c = inode_block s ino then patch (inode_off s ino) (inode_bytes i) (disk_block s c) else disk_block s c))"
proof -
  let ?b = "inode_block s ino"
  have "geometry s" using assms(2) by (simp add: coherent_def)
  then have "length (patch (inode_off s ino) (inode_bytes i) (disk_block s ?b)) = unat (block_size s)"
    using layout_inode(5) [OF assms(1-3)] length_inode_bytes [OF assms(5)] by (simp add: length_disk_block)
  from bdev.read_modify_write [where f = "patch (inode_off s ino) (inode_bytes i)", OF assms(2) layout_inode(4) [OF assms(1-3)] assms(4) this]
  show ?thesis by (fastforce simp: write_inode_run [OF assms(1-3)])
qed

lemma distinct_concat_index:
  assumes "distinct (concat (map f [0..<n]))" "a < n" "b < n" "x \<in> set (f a)" "x \<in> set (f b)"
  shows "a = b"
  using assms
proof (induction n)
  case (Suc n)
  then show ?case by (fastforce simp: less_Suc_eq)
qed simp

text \<open>Two inodes of a well-formed file system do not share bytes.\<close>

lemma inode_slots_disjoint:
  assumes s: "layout s" "coherent s" and v: "inode_valid s a" "inode_valid s b" "a \<noteq> b"
    and e: "inode_block s a = inode_block s b"
  shows "inode_off s a + 128 \<le> inode_off s b \<or> inode_off s b + 128 \<le> inode_off s a"
proof -
  let ?ipg = "unat (inodes_per_group s)" and ?isz = "unat (inode_size s)" and ?bs = "unat (block_size s)"
  let ?k = "\<lambda>x. inode_index s x * ?isz"
  note la = layout_inode [OF s v(1)] and lb = layout_inode [OF s v(2)]
  have "distinct (concat (map (group_meta s) [0..<unat (num_groups s)]))"
    using s(1) by (simp add: layout_def meta_blocks_def)
  then have g: "inode_group s a = inode_group s b"
    using distinct_concat_index la(1,3) lb(1,3) e by metis
  have lt: "?k x < 2 ^ 32" if "inode_valid s x" for x
    using inode_byte_lt [OF s that] .
  have "word_of_nat (?k a div ?bs) = (word_of_nat (?k b div ?bs) :: u32)"
    using e g by (simp add: inode_block_def)
  then have "?k a div ?bs = ?k b div ?bs"
    using le_less_trans [OF div_le_dividend lt [OF v(1)], of ?bs] le_less_trans [OF div_le_dividend lt [OF v(2)], of ?bs]
    by (simp add: word_unat_eq_iff unat_of_nat)
  then have o: "?k a = ?k b div ?bs * ?bs + inode_off s a" "?k b = ?k b div ?bs * ?bs + inode_off s b"
    unfolding inode_off_def by (metis div_mult_mod_eq)+
  have "unat a \<noteq> unat b" using v(3) word_unat_eq_iff [of a b] by blast
  moreover have "0 < unat a" "0 < unat b" using v by (simp_all add: inode_valid_def unat_gt_0)
  moreover have "unat x - 1 = inode_group s x * ?ipg + inode_index s x" for x
    by (simp add: inode_group_def inode_index_def)
  ultimately have "inode_index s a \<noteq> inode_index s b" using g by (metis Suc_pred')
  then have "?k a + ?isz \<le> ?k b \<or> ?k b + ?isz \<le> ?k a"
    using mult_le_mono1 [of "Suc (inode_index s a)" "inode_index s b" ?isz]
      mult_le_mono1 [of "Suc (inode_index s b)" "inode_index s a" ?isz] by (simp add: nat_neq_iff) linarith
  then show ?thesis using o s(1) by (simp add: layout_def) linarith
qed

text \<open>C33. Storing and loading inodes. On a well-formed file system whose disk takes reads and writes,
  writing an inode succeeds, and afterwards that inode reads back exactly as written while every
  other inode reads as before.\<close>

theorem ext2_inode_roundtrip:
  assumes "layout s" and "coherent s" and "no_faults s" and "inode_valid s ino" and "inode_wf i"
  shows "\<exists>s'. ext2_write_inode ino i s = (Inr (), s') \<and> coherent s' \<and>
    fst (ext2_read_inode ino s') = Inr i \<and>
    (\<forall>j. inode_valid s j \<and> j \<noteq> ino \<longrightarrow> fst (ext2_read_inode j s') = fst (ext2_read_inode j s))"
proof -
  let ?p = "patch (inode_off s ino) (inode_bytes i) (disk_block s (inode_block s ino))"
  obtain s' where w: "ext2_write_inode ino i s = (Inr (), s')" "coherent s'" "same_fs s s'"
      "\<And>c. block_ok s c \<Longrightarrow> disk_block s' c = (if c = inode_block s ino then ?p else disk_block s c)"
    using write_inode_ok [OF assms(1,2,4,3,5)] by (metis (no_types, lifting))
  have l: "layout s'" "no_faults s'" and v: "inode_valid s' = inode_valid s"
    using assms(1,3) same_fs_layout [OF w(3)] same_fs_fields [OF w(3)] same_fs_inode [OF w(3)] by simp_all
  have rd: "fst (ext2_read_inode j s) = Inr (disk_inode s j)" "fst (ext2_read_inode j s') = Inr (disk_inode s' j)"
    if "inode_valid s j" for j
    using read_inode_ok [OF assms(1,2) that assms(3)] read_inode_ok [OF l(1) w(2) _ l(2), of j] that v
    by force+
  have len: "inode_off s ino + length (inode_bytes i) \<le> length (disk_block s (inode_block s ino))"
    using layout_inode(5) [OF assms(1,2,4)] length_inode_bytes [OF assms(5)] assms(2)
    by (simp add: coherent_def length_disk_block)
  have dj: "disk_inode s' j = (if j = ino then i else disk_inode s j)" if "inode_valid s j" for j
    using layout_inode(4) [OF assms(1,2) that] inode_slots_disjoint [OF assms(1,2) that assms(4)] len
      length_inode_bytes [OF assms(5)] inode_of_bytes [OF assms(5)]
    by (auto simp: disk_inode_def w(4) same_fs_inode [OF w(3)] bslice_patch_same bslice_patch_other)
  then show ?thesis using w(1,2) rd assms(4) by auto
qed

section \<open>The small disk\<close>

lemma small_fs_sel:
  "disk_of small_fs = small_disk" "mounted small_fs" "block_size small_fs = 1024" "sectors_per_block small_fs = 2"
  "inodes_per_group small_fs = 16" "blocks_per_group small_fs = 8192" "inode_size small_fs = 128"
  "first_data_block small_fs = 1" "num_groups small_fs = 1" "total_inodes small_fs = 16" "total_blocks small_fs = 16"
  "bgdt_block small_fs = 2" "bgdt_blocks small_fs = 1" "bgdt small_fs = Some (small_sector 4 @ small_sector 5)"
  "clock small_fs = 1000" "task_uid small_fs = 0" "task_gid small_fs = 0" "heap_ok small_fs = (\<lambda>n. 0 < n)"
  by (simp_all add: small_fs_def unmounted_def)

lemma small_gdesc:
  "bg_block_bitmap (gdesc small_fs 0) = 3" "bg_inode_bitmap (gdesc small_fs 0) = 4"
  "bg_inode_table (gdesc small_fs 0) = 5" "bg_free_blocks_count (gdesc small_fs 0) = 8"
  "bg_free_inodes_count (gdesc small_fs 0) = 14" "bg_used_dirs_count (gdesc small_fs 0) = 1"
  by (simp_all add: gdesc_def small_fs_sel bgdt_entry_of_def get32_def get16_def nth_bslice nth_append small_sector_def)

lemma small_meta: "meta_blocks small_fs = [2, 3, 4, 5, 6]"
  by (simp add: meta_blocks_def bgdt_region_def group_meta_def table_blocks_def small_fs_sel small_gdesc upt_rec)

lemma small_layout: "layout small_fs"
  by (simp add: layout_def small_meta block_ok_def small_fs_sel)

lemma small_coherent: "coherent small_fs"
  using ext2_mount_coherent [OF small_mount] by (simp add: unmounted_def small_disk_def)

lemma small_no_faults: "no_faults small_fs"
  by (simp add: small_fs_sel small_disk_def)

theorem ext2_inode_roundtrip_witness:
  "\<exists>s'. ext2_write_inode 3 (empty_inode\<lparr>i_mode := 0x81A4\<rparr>) small_fs = (Inr (), s') \<and>
     fst (ext2_read_inode 3 s') = Inr (empty_inode\<lparr>i_mode := 0x81A4\<rparr>)"
proof -
  have "inode_wf (empty_inode\<lparr>i_mode := 0x81A4\<rparr>)" by (simp add: inode_wf_def empty_inode_def inode_of_def)
  then show ?thesis
    using ext2_inode_roundtrip [OF small_layout small_coherent small_no_faults, of 3]
    by (fastforce simp: inode_valid_def small_fs_sel)
qed

end
