(* ===== verification/Ext2_Alloc.thy ===== *)
theory Ext2_Alloc
  imports Ext2_Inode
begin

unbundle bit_operations_syntax

text \<open>
  Correctness of the block allocator of \<^verbatim>\<open>fs/ext2/alloc.c\<close>. The free blocks are a set read off
  the bitmaps on the disk; allocating takes one element out of it, freeing puts one back, and
  neither disturbs a block that is in use. The invariant is that no free block is part of the
  file system's own structures and that the free counts of the group descriptors are right.
\<close>

section \<open>Bits\<close>

lemma bit_of_iff: "bit_of bm i \<longleftrightarrow> bit (bm ! (i div 8)) (i mod 8)"
proof -
  have "bm ! (i div 8) AND push_bit (i mod 8) 1 \<noteq> 0 \<longleftrightarrow> bit (bm ! (i div 8)) (i mod 8)"
    by (auto simp: and_exp_eq_0_iff_not_bit push_bit_of_1)
  then show ?thesis by (simp add: bit_of_def)
qed

lemma div_mod_8_inj: "i = j \<longleftrightarrow> i div 8 = j div 8 \<and> i mod 8 = j mod (8 :: nat)"
  by (metis div_mult_mod_eq)

lemma bit_of_set:
  "i div 8 < length bm \<Longrightarrow> bit_of (set_bit_of bm i) j \<longleftrightarrow> j = i \<or> bit_of bm j"
  by (auto simp: bit_of_iff set_bit_of_def nth_list_update bit_or_iff push_bit_of_1 bit_exp_iff div_mod_8_inj [of j i]
      dest: bit_imp_le_length)

lemma bit_of_clear:
  "i div 8 < length bm \<Longrightarrow> bit_of (clear_bit_of bm i) j \<longleftrightarrow> j \<noteq> i \<and> bit_of bm j"
  by (auto simp: bit_of_iff clear_bit_of_def nth_list_update bit_and_iff bit_not_iff push_bit_of_1 bit_exp_iff
      div_mod_8_inj [of j i] dest: bit_imp_le_length)

lemma length_set_bit_of [simp]: "length (set_bit_of bm i) = length bm" "length (clear_bit_of bm i) = length bm"
  by (simp_all add: set_bit_of_def clear_bit_of_def)

lemma scan_bits_Found:
  "scan_bits bm stop base i n = Scan_Found j \<Longrightarrow>
     i \<le> j \<and> j < i + n \<and> j div 8 < length bm \<and> \<not> bit_of bm j \<and> \<not> stop (base + word_of_nat j)"
  by (induction bm stop base i n rule: scan_bits.induct) (auto split: if_splits)

lemma scan_bits_None:
  "scan_bits bm stop base i n = Scan_None \<Longrightarrow> i \<le> j \<Longrightarrow> j < i + n \<Longrightarrow>
     bit_of bm j \<or> (\<exists>k. i \<le> k \<and> k \<le> j \<and> stop (base + word_of_nat k))"
proof (induction bm stop base i n rule: scan_bits.induct)
  case (2 bm stop base i n)
  show ?case
  proof (cases "stop (base + word_of_nat i)")
    case False
    then have b: "bit_of bm i" "scan_bits bm stop base (Suc i) n = Scan_None"
      using "2.prems"(1) by (auto split: if_splits)
    show ?thesis
    proof (cases "j = i")
      case j: False
      then have "Suc i \<le> j" "j < Suc i + n" using "2.prems" by auto
      then show ?thesis
        using "2.IH" [OF False _ b(1) b(2)] "2.prems"(1) False by (metis Suc_leD not_le_imp_less scan.distinct(5) scan_bits.simps(2))
    qed (use b in simp)
  qed (use "2.prems" in blast)
qed simp

lemma scan_bits_inside: "i + n \<le> 8 * length bm \<Longrightarrow> scan_bits bm stop base i n \<noteq> Scan_Outside"
  by (induction bm stop base i n rule: scan_bits.induct) (auto simp: div_less_iff_less_mult)

section \<open>Changes that keep the layout\<close>

definition same_layout :: "ext2 \<Rightarrow> ext2 \<Rightarrow> bool" where
  "same_layout s s' \<longleftrightarrow>
     (\<exists>sec c l b. s' = s\<lparr>disk_of := (disk_of s)\<lparr>sectors := sec\<rparr>, g_cache := c, g_lru_seq := l, bgdt := b\<rparr>) \<and>
     map_option length (bgdt s') = map_option length (bgdt s) \<and>
     (\<forall>g < unat (num_groups s). bg_block_bitmap (gdesc s' g) = bg_block_bitmap (gdesc s g) \<and>
        bg_inode_bitmap (gdesc s' g) = bg_inode_bitmap (gdesc s g) \<and>
        bg_inode_table (gdesc s' g) = bg_inode_table (gdesc s g))"

lemma same_layout_fields:
  assumes "same_layout s s'"
  shows "mounted s' = mounted s" "block_size s' = block_size s" "sectors_per_block s' = sectors_per_block s"
    "inodes_per_group s' = inodes_per_group s" "blocks_per_group s' = blocks_per_group s"
    "inode_size s' = inode_size s" "first_data_block s' = first_data_block s" "num_groups s' = num_groups s"
    "total_inodes s' = total_inodes s" "total_blocks s' = total_blocks s" "bgdt_block s' = bgdt_block s"
    "bgdt_blocks s' = bgdt_blocks s" "clock s' = clock s" "heap_ok s' = heap_ok s"
    "task_uid s' = task_uid s" "task_gid s' = task_gid s"
    "rd_fail (disk_of s') = rd_fail (disk_of s)" "wr_fail (disk_of s') = wr_fail (disk_of s)"
    "map_option length (bgdt s') = map_option length (bgdt s)"
  using assms by (auto simp: same_layout_def)

lemma same_layout_desc:
  assumes "same_layout s s'" and "g < unat (num_groups s)"
  shows "bg_block_bitmap (gdesc s' g) = bg_block_bitmap (gdesc s g)"
    "bg_inode_bitmap (gdesc s' g) = bg_inode_bitmap (gdesc s g)"
    "bg_inode_table (gdesc s' g) = bg_inode_table (gdesc s g)"
  using assms by (simp_all add: same_layout_def)

lemma same_fs_same_layout: "same_fs s s' \<Longrightarrow> same_layout s s'"
proof -
  assume "same_fs s s'"
  then obtain sec c l where e: "s' = s\<lparr>disk_of := (disk_of s)\<lparr>sectors := sec\<rparr>, g_cache := c, g_lru_seq := l\<rparr>"
    by (auto simp: same_fs_def)
  have "s' = s\<lparr>disk_of := (disk_of s)\<lparr>sectors := sec\<rparr>, g_cache := c, g_lru_seq := l, bgdt := bgdt s\<rparr>"
    by (simp add: e)
  moreover have "bgdt s' = bgdt s" "gdesc s' = gdesc s" by (simp_all add: e gdesc_def fun_eq_iff)
  ultimately show ?thesis unfolding same_layout_def by metis
qed

lemma same_layout_refl [simp]: "same_layout s s"
  by (rule same_fs_same_layout) simp

lemma same_layout_trans [trans]:
  assumes "same_layout a b" and "same_layout b c" shows "same_layout a c"
  using assms same_layout_fields [OF assms(1)] unfolding same_layout_def by force

lemma same_layout_block_ok: "same_layout s s' \<Longrightarrow> block_ok s' = block_ok s"
  by (simp add: block_ok_def fun_eq_iff same_layout_fields)

lemma same_layout_meta:
  assumes "same_layout s s'"
  shows "g < unat (num_groups s) \<Longrightarrow> group_meta s' g = group_meta s g"
    and "bgdt_region s' = bgdt_region s" and "meta_blocks s' = meta_blocks s" and "layout s' = layout s"
proof -
  note [simp] = same_layout_fields [OF assms] same_layout_desc [OF assms] same_layout_block_ok [OF assms]
  show g: "group_meta s' g = group_meta s g" if "g < unat (num_groups s)" for g
    using that by (simp add: group_meta_def table_blocks_def)
  show r: "bgdt_region s' = bgdt_region s" by (simp add: bgdt_region_def)
  have "map (group_meta s') [0..<unat (num_groups s)] = map (group_meta s) [0..<unat (num_groups s)]"
    by (rule map_cong) (simp_all add: g)
  then show m: "meta_blocks s' = meta_blocks s"
    by (simp only: meta_blocks_def r same_layout_fields [OF assms])
  have "(\<exists>b. bgdt s' = Some b \<and> P (length b)) \<longleftrightarrow> (\<exists>b. bgdt s = Some b \<and> P (length b))" for P
    using same_layout_fields(19) [OF assms] by (cases "bgdt s"; cases "bgdt s'") simp_all
  from this [of "\<lambda>n. n = unat (bgdt_blocks s) * unat (block_size s) \<and> 32 * unat (num_groups s) \<le> n"]
  show "layout s' = layout s" by (simp add: layout_def m)
qed

lemma same_layout_inode:
  assumes "same_layout s s'" "layout s" "coherent s" "inode_valid s ino"
  shows "inode_valid s' ino" "inode_block s' ino = inode_block s ino" "inode_off s' ino = inode_off s ino"
  using assms(4) layout_inode(1) [OF assms(2-4)] same_layout_desc [OF assms(1)]
  by (simp_all add: inode_valid_def inode_block_def inode_off_def inode_group_def inode_index_def
      same_layout_fields [OF assms(1)])

lemma coherent_cong:
  assumes "coherent s" and "same_layout s s'" and "g_cache s' = g_cache s"
    and "\<forall>l. length (sectors (disk_of s') l) = 512" and "\<And>c. block_ok s c \<Longrightarrow> disk_block s' c = disk_block s c"
  shows "coherent s'"
  using assms(1,3-5) same_layout_fields [OF assms(2)] same_layout_block_ok [OF assms(2)]
  by (simp add: coherent_def geometry_def)

section \<open>Counters\<close>

lemma bgdt_set16_frame:
  assumes s: "layout s" and g: "unat g < unat (num_groups s)" and off: "off \<in> {12, 14, 16}"
  shows "h < unat (num_groups s) \<Longrightarrow> gdesc (bgdt_set16 g off v s) h = (if h = unat g then
      (if off = 12 then (gdesc s h)\<lparr>bg_free_blocks_count := v\<rparr>
       else if off = 14 then (gdesc s h)\<lparr>bg_free_inodes_count := v\<rparr>
       else (gdesc s h)\<lparr>bg_used_dirs_count := v\<rparr>) else gdesc s h)"
    and "same_layout s (bgdt_set16 g off v s)"
    and "disk_block (bgdt_set16 g off v s) = disk_block s"
    and "coherent s \<Longrightarrow> coherent (bgdt_set16 g off v s)"
proof -
  obtain b where b: "bgdt s = Some b" "32 * unat (num_groups s) \<le> length b" using s by (auto simp: layout_def)
  let ?s = "bgdt_set16 g off v s"
  have len: "32 * unat g + off + length (put16 v) \<le> length b" using g b(2) off by auto
  have bs: "bgdt ?s = Some (patch (32 * unat g + off) (put16 v) b)" by (simp add: bgdt_set16_def b)
  have desc: "gdesc ?s h = (if h = unat g then
      (if off = 12 then (gdesc s h)\<lparr>bg_free_blocks_count := v\<rparr>
       else if off = 14 then (gdesc s h)\<lparr>bg_free_inodes_count := v\<rparr>
       else (gdesc s h)\<lparr>bg_used_dirs_count := v\<rparr>) else gdesc s h)" if h: "h < unat (num_groups s)" for h
  proof (cases "h = unat g")
    case False
    then have "32 * h + 32 \<le> 32 * unat g + off \<or> 32 * unat g + off + length (put16 v) \<le> 32 * h" using off by auto
    then have "bslice (32 * h) 32 (patch (32 * unat g + off) (put16 v) b) = bslice (32 * h) 32 b"
      using len by (intro bslice_patch_other) auto
    then show ?thesis using False by (simp add: gdesc_def bs b(1))
  next
    case True
    have "bslice (32 * h) 32 (patch (32 * unat g + off) (put16 v) b) = patch off (put16 v) (bslice (32 * h) 32 b)"
      unfolding True using len off b(2) g
      by (intro nth_equalityI) (auto simp: nth_bslice nth_patch)
    moreover have "length (bslice (32 * h) 32 b) = 32" using h b(2) by simp
    ultimately show ?thesis
      using True off by (auto simp: gdesc_def bs b(1) bgdt_entry_of_def le_simps)
  qed
  then show "h < unat (num_groups s) \<Longrightarrow> gdesc ?s h = (if h = unat g then
      (if off = 12 then (gdesc s h)\<lparr>bg_free_blocks_count := v\<rparr>
       else if off = 14 then (gdesc s h)\<lparr>bg_free_inodes_count := v\<rparr>
       else (gdesc s h)\<lparr>bg_used_dirs_count := v\<rparr>) else gdesc s h)" .
  have e: "?s = s\<lparr>disk_of := (disk_of s)\<lparr>sectors := sectors (disk_of s)\<rparr>, g_cache := g_cache s,
      g_lru_seq := g_lru_seq s, bgdt := bgdt ?s\<rparr>" by (simp add: bgdt_set16_def)
  have len': "map_option length (bgdt ?s) = map_option length (bgdt s)" using len by (simp add: bs b(1))
  show l: "same_layout s ?s"
    unfolding same_layout_def by (intro conjI exI, rule e, rule len') (simp add: desc)
  show d: "disk_block ?s = disk_block s" by (simp add: bgdt_set16_def disk_block_def fun_eq_iff)
  show "coherent ?s" if "coherent s"
    by (rule coherent_cong [OF that l]) (use that in \<open>simp_all add: bgdt_set16_def coherent_def geometry_def disk_block_def\<close>)
qed

lemma block_sector_above:
  assumes "block_ok s c" and "i < unat (sectors_per_block s)"
  shows "c * sectors_per_block s + word_of_nat i \<notin> {2, 3}"
proof -
  have "c * sectors_per_block s + word_of_nat i = word_of_nat (unat c * unat (sectors_per_block s) + i)" by simp
  then have "unat (c * sectors_per_block s + word_of_nat i) = unat c * unat (sectors_per_block s) + i"
    using assms by (simp only: block_ok_def unat_of_nat) (simp add: take_bit_eq_mod)
  then have "3 < unat (c * sectors_per_block s + word_of_nat i)" using assms(1) by (simp add: block_ok_def)
  then show ?thesis by auto
qed

lemma ext2_super_adjust_free_frame:
  assumes "coherent s"
  shows "coherent (ext2_super_adjust_free x y s)" and "same_fs s (ext2_super_adjust_free x y s)"
    and "block_ok s c \<Longrightarrow> disk_block (ext2_super_adjust_free x y s) c = disk_block s c"
proof -
  let ?s = "ext2_super_adjust_free x y s"
  have g: "geometry s" using assms by (simp add: coherent_def)
  have w: "\<not> wr_fail (disk_of s) l" and l512: "length (sectors (disk_of s) l) = 512" for l
    using g by (simp_all add: geometry_def)
  have "\<exists>a b. length a = 512 \<and> length b = 512 \<and> ?s = s\<lparr>disk_of := (disk_of s)\<lparr>sectors := (sectors (disk_of s))(2 := a, 3 := b)\<rparr>\<rparr>"
  proof (cases "mounted s \<and> \<not> rd_fail (disk_of s) 2 \<and> \<not> rd_fail (disk_of s) 3")
    case True
    define raw where "raw = (let raw = sectors (disk_of s) 2 @ sectors (disk_of s) 3 in
      patch 16 (put32 (get32 raw 16 + y)) (patch 12 (put32 (get32 raw 12 + x)) raw))"
    have "length raw = 1024" by (simp add: raw_def Let_def l512)
    moreover have "?s = s\<lparr>disk_of := (disk_of s)\<lparr>sectors := (sectors (disk_of s))(2 := take 512 raw, 3 := drop 512 raw)\<rparr>\<rparr>"
      using True by (simp add: ext2_super_adjust_free_def raw_def disk_read_def disk_write_def w Let_def)
    ultimately show ?thesis by (intro exI [of _ "take 512 raw"] exI [of _ "drop 512 raw"]) simp
  next
    case False
    then have "?s = s" by (auto simp: ext2_super_adjust_free_def disk_read_def)
    then show ?thesis
      by (intro exI [of _ "sectors (disk_of s) 2"] exI [of _ "sectors (disk_of s) 3"]) (simp add: l512)
  qed
  then obtain a b where ab: "length a = 512" "length b = 512"
      "?s = s\<lparr>disk_of := (disk_of s)\<lparr>sectors := (sectors (disk_of s))(2 := a, 3 := b)\<rparr>\<rparr>" by blast
  show f: "same_fs s ?s"
    unfolding same_fs_def ab(3) by (rule exI, rule exI [of _ "g_cache s"], rule exI [of _ "g_lru_seq s"]) simp
  have blk: "disk_block ?s c = disk_block s c" if "block_ok s c" for c
    using block_sector_above [OF that] by (auto simp: disk_block_def ab(3) intro!: arg_cong [of _ _ concat] map_cong)
  show "coherent ?s"
    by (rule coherent_cong [OF assms same_fs_same_layout [OF f] _ _ blk]) (simp_all add: ab l512)
  show "block_ok s c \<Longrightarrow> disk_block ?s c = disk_block s c" by (rule blk)
qed

lemma bgdt_write_loop_frame:
  assumes "coherent s" and "length dat = n * unat (block_size s)"
    and "\<forall>k<n. block_ok s (bgdt_block s + b + word_of_nat k)"
  shows "coherent (bgdt_write_loop n b dat s) \<and> same_fs s (bgdt_write_loop n b dat s) \<and>
    (\<forall>c. block_ok s c \<and> (\<forall>k<n. c \<noteq> bgdt_block s + b + word_of_nat k) \<longrightarrow>
      disk_block (bgdt_write_loop n b dat s) c = disk_block s c)"
  using assms
proof (induction n arbitrary: b dat s)
  case (Suc n)
  let ?blk = "bgdt_block s + b"
  have ok: "block_ok s ?blk" using Suc.prems(3) [rule_format, of 0] by simp
  have "length (take (unat (block_size s)) dat) = unat (block_size s)" using Suc.prems(2) by simp
  then obtain t where t: "ext2_write_block ?blk (take (unat (block_size s)) dat) s = (Inr (), t)" "coherent t" "same_fs s t"
      "\<And>c. block_ok s c \<Longrightarrow> c \<noteq> ?blk \<Longrightarrow> disk_block t c = disk_block s c"
    using bdev.write_law [OF Suc.prems(1) ok, of "take (unat (block_size s)) dat"] by auto
  have k: "bgdt_block s + (b + 1) + word_of_nat k = bgdt_block s + b + word_of_nat (Suc k)" for k by simp
  have len: "length (drop (unat (block_size s)) dat) = n * unat (block_size t)"
    using Suc.prems(2) by (simp add: same_fs_fields [OF t(3)])
  have oks: "\<forall>k<n. block_ok t (bgdt_block t + (b + 1) + word_of_nat k)"
    using Suc.prems(3) unfolding same_fs_fields [OF t(3)] same_fs_block_ok [OF t(3)] k by blast
  note ih0 = Suc.IH [OF t(2) len oks, unfolded same_fs_fields [OF t(3)] same_fs_block_ok [OF t(3)] k]
  have ih: "coherent (bgdt_write_loop n (b + 1) (drop (unat (block_size s)) dat) t)"
      "same_fs t (bgdt_write_loop n (b + 1) (drop (unat (block_size s)) dat) t)"
      "\<And>c. block_ok s c \<Longrightarrow> \<forall>k<n. c \<noteq> bgdt_block s + b + word_of_nat (Suc k) \<Longrightarrow>
         disk_block (bgdt_write_loop n (b + 1) (drop (unat (block_size s)) dat) t) c = disk_block t c"
    using ih0 by (simp_all only: simp_thms)
  have e: "bgdt_write_loop (Suc n) b dat s = bgdt_write_loop n (b + 1) (drop (unat (block_size s)) dat) t"
    by (simp add: t(1) same_fs_fields [OF t(3)])
  have "disk_block (bgdt_write_loop (Suc n) b dat s) c = disk_block s c"
    if c: "block_ok s c" "\<forall>k<Suc n. c \<noteq> bgdt_block s + b + word_of_nat k" for c
  proof -
    have "c \<noteq> ?blk" using c(2) [rule_format, of 0] by simp
    moreover have "\<forall>k<n. c \<noteq> bgdt_block s + b + word_of_nat (Suc k)" using c(2) by blast
    ultimately show ?thesis unfolding e using ih(3) t(4) c(1) by simp
  qed
  moreover have "coherent (bgdt_write_loop (Suc n) b dat s)" unfolding e by (rule ih(1))
  moreover have "same_fs s (bgdt_write_loop (Suc n) b dat s)" unfolding e by (rule same_fs_trans [OF t(3) ih(2)])
  ultimately show ?case by blast
qed simp

lemma ext2_bgdt_write_back_frame:
  assumes "coherent s" and "layout s"
  shows "coherent (ext2_bgdt_write_back s)" and "same_fs s (ext2_bgdt_write_back s)"
    and "block_ok s c \<Longrightarrow> c \<notin> set (bgdt_region s) \<Longrightarrow> disk_block (ext2_bgdt_write_back s) c = disk_block s c"
proof -
  obtain b where b: "bgdt s = Some b" "length b = unat (bgdt_blocks s) * unat (block_size s)" and m: "mounted s"
    using assms(2) by (auto simp: layout_def)
  have "\<forall>k<unat (bgdt_blocks s). block_ok s (bgdt_block s + 0 + word_of_nat k)"
    using assms(2) by (auto simp: layout_def meta_blocks_def bgdt_region_def list_all_iff)
  from bgdt_write_loop_frame [OF assms(1) b(2) this]
  have f: "coherent (bgdt_write_loop (unat (bgdt_blocks s)) 0 b s)" "same_fs s (bgdt_write_loop (unat (bgdt_blocks s)) 0 b s)"
    "\<And>c. block_ok s c \<Longrightarrow> c \<notin> set (bgdt_region s) \<Longrightarrow> disk_block (bgdt_write_loop (unat (bgdt_blocks s)) 0 b s) c = disk_block s c"
    by (auto simp: bgdt_region_def)
  show "coherent (ext2_bgdt_write_back s)" "same_fs s (ext2_bgdt_write_back s)"
    using f(1,2) m by (simp_all add: ext2_bgdt_write_back_def b(1))
  show "block_ok s c \<Longrightarrow> c \<notin> set (bgdt_region s) \<Longrightarrow> disk_block (ext2_bgdt_write_back s) c = disk_block s c"
    using f(3) m by (simp add: ext2_bgdt_write_back_def b(1))
qed

lemma commit_frame:
  fixes x y :: u32
  assumes "coherent s" and "layout s"
  defines "t \<equiv> ext2_super_adjust_free x y (ext2_bgdt_write_back s)"
  shows "coherent t" and "same_fs s t"
    and "block_ok s c \<Longrightarrow> c \<notin> set (bgdt_region s) \<Longrightarrow> disk_block t c = disk_block s c"
proof -
  note w = ext2_bgdt_write_back_frame [OF assms(1,2)]
  note a = ext2_super_adjust_free_frame [OF w(1)]
  show "coherent t" unfolding t_def by (rule a(1))
  show "same_fs s t" unfolding t_def by (rule same_fs_trans [OF w(2) a(2)])
  show "block_ok s c \<Longrightarrow> c \<notin> set (bgdt_region s) \<Longrightarrow> disk_block t c = disk_block s c"
    unfolding t_def using a(3) [of c] w(3) by (simp add: same_fs_block_ok [OF w(2)])
qed

section \<open>Free blocks\<close>

lemma unat_u32: "n < 2 ^ 32 \<Longrightarrow> unat (word_of_nat n :: u32) = n"
  by (simp add: unat_of_nat)

definition blk_group :: "ext2 \<Rightarrow> u32 \<Rightarrow> nat" where
  "blk_group s b = (unat b - unat (first_data_block s)) div unat (blocks_per_group s)"

definition blk_index :: "ext2 \<Rightarrow> u32 \<Rightarrow> nat" where
  "blk_index s b = (unat b - unat (first_data_block s)) mod unat (blocks_per_group s)"

definition block_bit :: "ext2 \<Rightarrow> nat \<Rightarrow> nat \<Rightarrow> bool" where
  "block_bit s g i \<longleftrightarrow> bit_of (disk_block s (bg_block_bitmap (gdesc s g))) i"

definition block_free :: "ext2 \<Rightarrow> u32 \<Rightarrow> bool" where
  "block_free s b \<longleftrightarrow> first_data_block s \<le> b \<and> b < total_blocks s \<and> \<not> block_bit s (blk_group s b) (blk_index s b)"

definition blocks_wf :: "ext2 \<Rightarrow> bool" where
  "blocks_wf s \<longleftrightarrow> layout s \<and> coherent s \<and> no_faults s \<and>
     (\<forall>b. block_free s b \<longrightarrow> block_ok s b \<and> b \<notin> set (meta_blocks s)) \<and>
     (\<forall>g < unat (num_groups s). unat (bg_free_blocks_count (gdesc s g)) = card {b. block_free s b \<and> blk_group s b = g})"

definition bitmap_blocks :: "ext2 \<Rightarrow> u32 set" where
  "bitmap_blocks s = (\<lambda>g. bg_block_bitmap (gdesc s g)) ` {..<unat (num_groups s)}"

lemma same_fs_blocks:
  assumes "blocks_wf s" and "same_fs s t" and "coherent t" and "disk_block t = disk_block s"
  shows "block_free t = block_free s" and "blocks_wf t"
proof -
  note [simp] = same_fs_fields [OF assms(2)] same_fs_gdesc [OF assms(2)]
  show f: "block_free t = block_free s"
    by (simp add: fun_eq_iff block_free_def block_bit_def blk_group_def blk_index_def assms(4))
  have "blk_group t = blk_group s" by (simp add: fun_eq_iff blk_group_def)
  then show "blocks_wf t"
    using assms(1,3) same_fs_layout [OF assms(2)] same_fs_block_ok [OF assms(2)] by (simp add: blocks_wf_def f)
qed

lemma block_number:
  assumes "layout s" and "g < unat (num_groups s)" and "i < unat (blocks_per_group s)"
  defines "b \<equiv> first_data_block s + word_of_nat g * blocks_per_group s + word_of_nat i"
  shows "unat b = unat (first_data_block s) + g * unat (blocks_per_group s) + i"
    and "blk_group s b = g" and "blk_index s b = i" and "first_data_block s \<le> b"
proof -
  let ?n = "unat (first_data_block s) + g * unat (blocks_per_group s) + i"
  have "Suc g * unat (blocks_per_group s) \<le> unat (num_groups s) * unat (blocks_per_group s)"
    using assms(2) by (intro mult_le_mono1) simp
  then have "?n < 2 ^ 32" using assms(1,3) by (simp add: layout_def)
  moreover have "b = word_of_nat ?n" by (simp add: b_def)
  ultimately show u: "unat b = ?n" by (simp only: unat_u32)
  then show "blk_group s b = g" "blk_index s b = i" using assms(3) by (simp_all add: blk_group_def blk_index_def)
  show "first_data_block s \<le> b" using u by (simp add: word_le_nat_alt)
qed

lemma block_number_inv:
  assumes "layout s" and "first_data_block s \<le> b" and "b < total_blocks s"
  shows "blk_group s b < unat (num_groups s)" and "blk_index s b < unat (blocks_per_group s)"
    and "b = first_data_block s + word_of_nat (blk_group s b) * blocks_per_group s + word_of_nat (blk_index s b)"
proof -
  let ?p = "unat (blocks_per_group s)"
  have p: "0 < ?p" using assms(1) by (simp add: layout_def word_gt_0 unat_gt_0)
  have n: "unat (first_data_block s) \<le> unat b" "unat b < unat (total_blocks s)"
    using assms(2,3) by (simp_all add: word_le_nat_alt word_less_nat_alt)
  then have "unat b - unat (first_data_block s) < unat (num_groups s) * ?p" using assms(1) unfolding layout_def by linarith
  then show g: "blk_group s b < unat (num_groups s)" by (simp add: blk_group_def less_mult_imp_div_less)
  show i: "blk_index s b < ?p" using p by (simp add: blk_index_def)
  have "unat b = unat (first_data_block s) + blk_group s b * ?p + blk_index s b"
    using n by (simp add: blk_group_def blk_index_def)
  then show "b = first_data_block s + word_of_nat (blk_group s b) * blocks_per_group s + word_of_nat (blk_index s b)"
    using block_number(1) [OF assms(1) g i] word_unat_eq_iff by metis
qed

lemma unat_group: "g < unat (n :: u32) \<Longrightarrow> unat (word_of_nat g :: u32) = g"
proof -
  assume "g < unat n"
  moreover have "unat n < 2 ^ 32" by (rule order_less_le_trans [OF unsigned_less]) simp
  ultimately show ?thesis by (simp add: unat_of_nat)
qed

text \<open>What it means that a block has been taken.\<close>

definition taken :: "ext2 \<Rightarrow> u32 \<Rightarrow> ext2 \<Rightarrow> bool" where
  "taken s b t \<longleftrightarrow> blocks_wf t \<and> same_layout s t \<and> (\<forall>c. block_free t c \<longleftrightarrow> block_free s c \<and> c \<noteq> b) \<and>
     disk_block t b = replicate (unat (block_size s)) 0 \<and>
     (\<forall>c. block_ok s c \<and> c \<noteq> b \<and> c \<notin> set (bgdt_region s) \<union> bitmap_blocks s \<longrightarrow> disk_block t c = disk_block s c)"

lemma bitmap_in_meta:
  assumes "layout s" "g < unat (num_groups s)"
  shows "bg_block_bitmap (gdesc s g) \<in> set (meta_blocks s)" "block_ok s (bg_block_bitmap (gdesc s g))"
    "bg_block_bitmap (gdesc s g) \<notin> set (bgdt_region s)"
    "h < unat (num_groups s) \<Longrightarrow> bg_block_bitmap (gdesc s h) = bg_block_bitmap (gdesc s g) \<Longrightarrow> h = g"
proof -
  have m: "bg_block_bitmap (gdesc s g) \<in> set (group_meta s g)" for g by (simp add: group_meta_def)
  then have c: "bg_block_bitmap (gdesc s g) \<in> set (concat (map (group_meta s) [0..<unat (num_groups s)]))"
    using assms(2) m by force
  then show "bg_block_bitmap (gdesc s g) \<in> set (meta_blocks s)" by (simp add: meta_blocks_def)
  then show "block_ok s (bg_block_bitmap (gdesc s g))" using assms(1) by (auto simp: layout_def list_all_iff)
  have d: "distinct (meta_blocks s)" using assms(1) by (simp add: layout_def)
  then show "bg_block_bitmap (gdesc s g) \<notin> set (bgdt_region s)" using c by (auto simp: meta_blocks_def)
  show "h = g" if "h < unat (num_groups s)" "bg_block_bitmap (gdesc s h) = bg_block_bitmap (gdesc s g)"
    using distinct_concat_index [of "group_meta s" "unat (num_groups s)" h g "bg_block_bitmap (gdesc s g)"]
      d m [of g] m [of h] that assms(2) by (simp add: meta_blocks_def)
qed

text \<open>Changing one bit of a block bitmap together with the counters.\<close>

lemma flip_block:
  assumes s: "blocks_wf s" and g: "g < unat (num_groups s)" and i: "i < unat (blocks_per_group s)"
    and b: "b = first_data_block s + word_of_nat g * blocks_per_group s + word_of_nat i" "b < total_blocks s"
    and bm: "bm = (if fr then clear_bit_of else set_bit_of) (disk_block s (bg_block_bitmap (gdesc s g))) i"
    and w: "ext2_write_block (bg_block_bitmap (gdesc s g)) bm s = (Inr (), u)"
    and t: "t = ext2_super_adjust_free x y (ext2_bgdt_write_back (bgdt_set16 (word_of_nat g) 12 v u))"
  shows "coherent t \<and> same_layout s t \<and> (\<forall>c. block_free t c \<longleftrightarrow> (if c = b then fr else block_free s c)) \<and>
    (\<forall>h < unat (num_groups s). bg_free_blocks_count (gdesc t h) = (if h = g then v else bg_free_blocks_count (gdesc s h))) \<and>
    (\<forall>c. block_ok s c \<and> c \<notin> set (bgdt_region s) \<longrightarrow>
       disk_block t c = (if c = bg_block_bitmap (gdesc s g) then bm else disk_block s c))"
proof -
  let ?B = "bg_block_bitmap (gdesc s g)" and ?u = "bgdt_set16 (word_of_nat g) 12 v u"
  have l: "layout s" "coherent s" using s by (simp_all add: blocks_wf_def)
  have geo: "geometry s" using l(2) by (simp add: coherent_def)
  have B: "block_ok s ?B" "?B \<notin> set (bgdt_region s)" using bitmap_in_meta [OF l(1) g] by simp_all
  have len: "length (disk_block s ?B) = unat (block_size s)" by (rule length_disk_block [OF geo])
  have u: "coherent u" "same_fs s u" "\<And>c. block_ok s c \<Longrightarrow> disk_block u c = (if c = ?B then bm else disk_block s c)"
    using bdev.write_law [OF l(2) B(1), of bm] w by (auto simp: bm len)
  have lu: "layout u" using same_fs_layout(1) [OF u(2)] l(1) by simp
  have ng: "unat (word_of_nat g :: u32) = g" using g by (rule unat_group)
  have g': "unat (word_of_nat g :: u32) < unat (num_groups u)" using g ng by (simp add: same_fs_fields [OF u(2)])
  note f = bgdt_set16_frame [OF lu g', where off = 12 and v = v, simplified]
  have lay: "layout ?u" using same_layout_meta(4) [OF f(2)] lu by simp
  note c = commit_frame [OF f(4) [OF u(1)] lay, where x = x and y = y, folded t]
  have su: "same_layout s ?u" using same_layout_trans [OF same_fs_same_layout [OF u(2)] f(2)] .
  have st: "same_layout s t" using same_layout_trans [OF su same_fs_same_layout [OF c(2)]] .
  have blk: "disk_block t d = (if d = ?B then bm else disk_block s d)" if "block_ok s d" "d \<notin> set (bgdt_region s)" for d
    using c(3) [of d] u(3) [of d] that same_layout_block_ok [OF su] same_layout_meta(2) [OF su] by (simp add: f(3))
  have cnt: "bg_free_blocks_count (gdesc t h) = (if h = g then v else bg_free_blocks_count (gdesc s h))"
    if "h < unat (num_groups s)" for h
    using f(1) [of h] that by (simp add: same_fs_gdesc [OF c(2)] same_fs_gdesc [OF u(2)] same_fs_fields [OF u(2)] ng)
  have i8: "i div 8 < length (disk_block s ?B)"
    using i l(1) by (simp add: len layout_def less_mult_imp_div_less mult.commute)
  have free: "block_free t d \<longleftrightarrow> (if d = b then fr else block_free s d)" for d
  proof (cases "first_data_block s \<le> d \<and> d < total_blocks s")
    case True
    note n = block_number_inv [OF l(1) conjunct1 [OF True] conjunct2 [OF True]]
    note m = bitmap_in_meta [OF l(1) n(1)]
    have db: "d = b \<longleftrightarrow> blk_group s d = g \<and> blk_index s d = i"
      using n(3) block_number(2,3) [OF l(1) g i] b(1) by metis
    have "block_bit t (blk_group s d) (blk_index s d) \<longleftrightarrow>
        (if d = b then \<not> fr else block_bit s (blk_group s d) (blk_index s d))"
      using blk [OF m(2,3)] same_layout_desc(1) [OF st n(1)] bitmap_in_meta(4) [OF l(1) g n(1)]
      by (auto simp: block_bit_def bm db bit_of_set [OF i8] bit_of_clear [OF i8])
    then show ?thesis
      using True by (simp add: block_free_def same_layout_fields [OF st] blk_group_def blk_index_def)
  next
    case False
    then have "\<not> block_free s d" "\<not> block_free t d" by (auto simp: block_free_def same_layout_fields [OF st])
    moreover have "d \<noteq> b" using False b block_number(4) [OF l(1) g i] by auto
    ultimately show ?thesis by simp
  qed
  show ?thesis using c(1) st free cnt blk by blast
qed

lemma no_free_bit:
  assumes l: "layout s" and g: "g < unat (num_groups s)"
    and n: "scan_bits (disk_block s (bg_block_bitmap (gdesc s g))) (\<lambda>b. b \<ge> total_blocks s)
      (first_data_block s + word_of_nat g * blocks_per_group s) 0 (unat (blocks_per_group s)) = Scan_None"
    and f: "block_free s b"
  shows "blk_group s b \<noteq> g"
proof
  assume e: "blk_group s b = g"
  have r: "first_data_block s \<le> b" "b < total_blocks s" and nb: "\<not> block_bit s g (blk_index s b)"
    using f e by (auto simp: block_free_def)
  note b = block_number_inv [OF l r]
  obtain k where k: "k \<le> blk_index s b"
      "total_blocks s \<le> first_data_block s + word_of_nat g * blocks_per_group s + word_of_nat k"
    using scan_bits_None [OF n, of "blk_index s b"] b(2) nb by (auto simp: block_bit_def)
  have "unat (first_data_block s + word_of_nat g * blocks_per_group s + word_of_nat k) \<le> unat b"
    using block_number(1) [OF l g, of k] block_number(1) [OF l g b(2)] b(2,3) k(1) e by simp
  then show False using k(2) r(2) by (simp add: word_le_nat_alt word_less_nat_alt)
qed

lemma block_free_cong:
  assumes "layout s" and "same_layout s t"
    and "\<And>g. g < unat (num_groups s) \<Longrightarrow> disk_block t (bg_block_bitmap (gdesc s g)) = disk_block s (bg_block_bitmap (gdesc s g))"
  shows "block_free t = block_free s"
proof
  fix b
  have "block_bit t (blk_group s b) (blk_index s b) = block_bit s (blk_group s b) (blk_index s b)"
    if "first_data_block s \<le> b" "b < total_blocks s"
    using block_number_inv(1) [OF assms(1) that] assms(3) same_layout_desc(1) [OF assms(2)] by (simp add: block_bit_def)
  then show "block_free t b = block_free s b"
    by (auto simp: block_free_def same_layout_fields [OF assms(2)] blk_group_def blk_index_def)
qed

lemma blocks_wf_cong:
  assumes "blocks_wf s" and "same_layout s t" and "coherent t"
    and "\<And>g. g < unat (num_groups s) \<Longrightarrow> disk_block t (bg_block_bitmap (gdesc s g)) = disk_block s (bg_block_bitmap (gdesc s g))"
    and "\<And>g. g < unat (num_groups s) \<Longrightarrow> bg_free_blocks_count (gdesc t g) = bg_free_blocks_count (gdesc s g)"
  shows "blocks_wf t"
proof -
  have l: "layout s" using assms(1) by (simp add: blocks_wf_def)
  have g: "blk_group t = blk_group s" by (simp add: fun_eq_iff blk_group_def same_layout_fields [OF assms(2)])
  show ?thesis
    using assms(1,3,5) block_free_cong [OF l assms(2,4)] same_layout_meta(3,4) [OF assms(2)]
      same_layout_fields [OF assms(2)] same_layout_block_ok [OF assms(2)] by (simp add: blocks_wf_def g)
qed

lemma taken_cong:
  assumes "same_fs s t0" and "disk_block t0 = disk_block s" and "block_free t0 = block_free s" and "taken t0 b t"
  shows "taken s b t"
  using assms(4) same_layout_trans [OF same_fs_same_layout [OF assms(1)]] same_fs_block_ok [OF assms(1)]
  by (simp add: taken_def assms(2,3) same_fs_fields [OF assms(1)] bgdt_region_def bitmap_blocks_def
      same_fs_gdesc [OF assms(1)])

lemma card_minus_free:
  fixes v :: u16
  assumes "finite A" and "b \<in> A" and "unat v = card A"
  shows "unat (v - 1) = card (A - {b})"
proof -
  have "0 < card A" using assms(1,2) by (auto simp: card_gt_0_iff)
  then have "v \<noteq> 0" using assms(3) by auto
  then show ?thesis using assms by (simp add: unat_minus_one card_Diff_singleton)
qed

lemma take_block:
  assumes s: "blocks_wf s" and g: "g < unat (num_groups s)" and i: "i < unat (blocks_per_group s)"
    and b: "b = first_data_block s + word_of_nat g * blocks_per_group s + word_of_nat i" "b < total_blocks s"
    and nb: "\<not> block_bit s g i"
  shows "block_free s b \<and> (\<exists>u z. ext2_write_block (bg_block_bitmap (gdesc s g))
        (set_bit_of (disk_block s (bg_block_bitmap (gdesc s g))) i) s = (Inr (), u) \<and>
      ext2_write_block b (replicate (unat (block_size s)) 0) (ext2_super_adjust_free (-1) 0 (ext2_bgdt_write_back
        (bgdt_set16 (word_of_nat g) 12 (bg_free_blocks_count (gdesc s g) - 1) u))) = (Inr (), z) \<and> taken s b z)"
proof -
  let ?B = "bg_block_bitmap (gdesc s g)"
  let ?bm = "set_bit_of (disk_block s ?B) i"
  have l: "layout s" "coherent s" "no_faults s" using s by (simp_all add: blocks_wf_def)
  note n = block_number [OF l(1) g i, folded b(1)]
  have free: "block_free s b" using n nb b(2) by (simp add: block_free_def)
  then have ok: "block_ok s b" "b \<notin> set (meta_blocks s)" using s by (auto simp: blocks_wf_def)
  note B = bitmap_in_meta [OF l(1) g]
  have "length ?bm = unat (block_size s)" using l(2) by (simp add: coherent_def length_disk_block)
  then obtain u where u: "ext2_write_block ?B ?bm s = (Inr (), u)" using bdev.write_law [OF l(2) B(2)] by blast
  define t where "t = ext2_super_adjust_free (-1) 0 (ext2_bgdt_write_back
        (bgdt_set16 (word_of_nat g) 12 (bg_free_blocks_count (gdesc s g) - 1) u))"
  have f: "coherent t" "same_layout s t" "\<And>c. block_free t c \<longleftrightarrow> c \<noteq> b \<and> block_free s c"
      "\<And>h. h < unat (num_groups s) \<Longrightarrow> bg_free_blocks_count (gdesc t h) =
         (if h = g then bg_free_blocks_count (gdesc s g) - 1 else bg_free_blocks_count (gdesc s h))"
      "\<And>c. block_ok s c \<Longrightarrow> c \<notin> set (bgdt_region s) \<Longrightarrow> disk_block t c = (if c = ?B then ?bm else disk_block s c)"
    using flip_block [OF s g i b, where fr = False, OF _ u t_def] by auto
  note fl = same_layout_fields [OF f(2)]
  have okt: "block_ok t b" using ok(1) by (simp add: same_layout_block_ok [OF f(2)])
  obtain z where z: "ext2_write_block b (replicate (unat (block_size s)) 0) t = (Inr (), z)" "coherent z" "same_fs t z"
      "\<And>c. block_ok s c \<Longrightarrow> disk_block z c = (if c = b then replicate (unat (block_size s)) 0 else disk_block t c)"
    using bdev.write_law [OF f(1) okt, of "replicate (unat (block_size s)) 0"]
    by (auto simp: fl same_layout_block_ok [OF f(2)])
  have lz: "same_layout s z" using same_layout_trans [OF f(2) same_fs_same_layout [OF z(3)]] .
  have fz: "block_free z c \<longleftrightarrow> c \<noteq> b \<and> block_free s c" for c
  proof -
    have "layout t" using l(1) same_layout_meta(4) [OF f(2)] by simp
    moreover have "disk_block z (bg_block_bitmap (gdesc t h)) = disk_block t (bg_block_bitmap (gdesc t h))"
      if "h < unat (num_groups t)" for h
      using that bitmap_in_meta(1,2) [OF l(1), of h] ok(2) z(4) by (auto simp: fl same_layout_desc [OF f(2)])
    ultimately show ?thesis using block_free_cong [OF _ same_fs_same_layout [OF z(3)]] f(3) by simp
  qed
  have gz: "blk_group z = blk_group s" by (simp add: fun_eq_iff blk_group_def same_layout_fields [OF lz])
  have cnt: "unat (bg_free_blocks_count (gdesc z h)) = card {c. block_free z c \<and> blk_group z c = h}"
    if h: "h < unat (num_groups s)" for h
  proof -
    let ?A = "{c. block_free s c \<and> blk_group s c = h}"
    have "unat (bg_free_blocks_count (gdesc s h)) = card ?A" using s h by (simp add: blocks_wf_def)
    moreover have "{c. block_free z c \<and> blk_group z c = h} = (if h = g then ?A - {b} else ?A)"
      using n(2) by (auto simp: fz gz)
    ultimately show ?thesis
      using f(4) [OF h] card_minus_free [of ?A b "bg_free_blocks_count (gdesc s h)"] free n(2)
      by (cases "h = g") (simp_all add: same_fs_gdesc [OF z(3)])
  qed
  have wf: "blocks_wf z"
    using s z(2) cnt same_layout_meta(3,4) [OF lz] same_layout_fields [OF lz] same_layout_block_ok [OF lz] fz
    by (simp add: blocks_wf_def)
  have "taken s b z"
    unfolding taken_def using wf lz fz z(4) [OF ok(1)] z(4) f(5) g by (auto simp: bitmap_blocks_def)
  then show ?thesis using free u z(1) unfolding t_def by blast
qed

lemma alloc_block_groups_law:
  assumes "blocks_wf s" and "set gs \<subseteq> {..<unat (num_groups s)}"
  shows "(\<exists>b t. alloc_block_groups gs s = (Inr b, t) \<and> block_free s b \<and> taken s b t) \<or>
    (\<exists>t. alloc_block_groups gs s = (Inl io_error, t) \<and> (\<forall>b. block_free s b \<longrightarrow> blk_group s b \<notin> set gs) \<and>
       blocks_wf t \<and> same_fs s t \<and> disk_block t = disk_block s)"
  using assms
proof (induction gs arbitrary: s)
  case Nil
  then show ?case by (simp add: blocks_wf_def)
next
  case (Cons g gs)
  let ?e = "gdesc s g"
  have l: "layout s" "coherent s" "no_faults s" and g: "g < unat (num_groups s)"
    using Cons.prems by (auto simp: blocks_wf_def)
  have ng: "unat (word_of_nat g :: u32) = g" using g by (rule unat_group)
  have get: "bgdt_get (word_of_nat g) s = (Inr ?e, s)" using bgdt_get_layout [OF l(1), of "word_of_nat g"] g ng by simp
  have fin: "finite {b. block_free s b \<and> blk_group s b = g}" by simp
  show ?case
  proof (cases "bg_free_blocks_count ?e = 0")
    case True
    then have "card {b. block_free s b \<and> blk_group s b = g} = 0"
      using Cons.prems(1) g unfolding blocks_wf_def by (metis unat_0)
    then have "\<forall>b. block_free s b \<longrightarrow> blk_group s b \<noteq> g" using fin by (simp add: card_eq_0_iff)
    moreover have "alloc_block_groups (g # gs) s = alloc_block_groups gs s" by (simp add: bindE_def get True)
    ultimately show ?thesis using Cons.IH [of s] Cons.prems by auto
  next
    case False
    let ?B = "bg_block_bitmap ?e" and ?n = "unat (blocks_per_group s)"
    let ?base = "first_data_block s + word_of_nat g * blocks_per_group s"
    note B = bitmap_in_meta [OF l(1) g]
    obtain t0 where t0: "ext2_read_block ?B s = (Inr (disk_block s ?B), t0)" "coherent t0" "same_fs s t0"
        "disk_block t0 = disk_block s"
      using bdev.read_ok [OF l(2) B(2) l(3)] by blast
    have len: "length (disk_block s ?B) = unat (block_size s)" using l(2) by (simp add: coherent_def length_disk_block)
    note w0 = same_fs_blocks [OF Cons.prems(1) t0(3,2,4)]
    note fl = same_fs_fields [OF t0(3)]
    note gd = same_fs_gdesc [OF t0(3)]
    let ?scan = "scan_bits (disk_block s ?B) (\<lambda>b. b \<ge> total_blocks s) ?base 0 ?n"
    show ?thesis
    proof (cases ?scan)
      case Scan_Outside
      then show ?thesis using scan_bits_inside [of 0 ?n "disk_block s ?B"] l(1) by (simp add: len layout_def)
    next
      case Scan_None
      have "alloc_block_groups (g # gs) s = alloc_block_groups gs t0"
        using False Scan_None by (simp add: bindE_def get t0(1) fl)
      moreover have blk_group_same: "blk_group t0 = blk_group s" by (simp add: fun_eq_iff blk_group_def fl)
      moreover have "blk_group s b \<noteq> g" if "block_free s b" for b
        using no_free_bit [OF l(1) g Scan_None that] by blast
      ultimately show ?thesis
        using Cons.IH [OF w0(2)] Cons.prems(2) fl blk_group_same taken_cong [OF t0(3,4) w0(1)]
          same_fs_trans [OF t0(3)] by (auto simp: w0(1) t0(4))
    next
      case (Scan_Found i)
      then have i: "i < ?n" "\<not> block_bit s g i" "?base + word_of_nat i < total_blocks s"
        using scan_bits_Found [OF Scan_Found] by (auto simp: block_bit_def not_le)
      have tk: "block_free s (?base + word_of_nat i)"
        using take_block [OF Cons.prems(1) g i(1) refl i(3,2)] by blast
      obtain u z where uz: "ext2_write_block ?B (set_bit_of (disk_block s ?B) i) t0 = (Inr (), u)"
          "ext2_write_block (?base + word_of_nat i) (replicate (unat (block_size s)) 0) (ext2_super_adjust_free (-1) 0 (ext2_bgdt_write_back
            (bgdt_set16 (word_of_nat g) 12 (bg_free_blocks_count ?e - 1) u))) = (Inr (), z)" "taken t0 (?base + word_of_nat i) z"
        using take_block [OF w0(2), of g i] g i by (auto simp: fl gd t0(4) block_bit_def)
      have "alloc_block_groups (g # gs) s = (Inr (?base + word_of_nat i), z)"
        using False Scan_Found uz(1,2) by (simp add: bindE_def get t0(1) fl)
      then show ?thesis using tk taken_cong [OF t0(3,4) w0(1) uz(3)] by blast
    qed
  qed
qed

lemma ext2_alloc_block_law:
  assumes "blocks_wf s"
  shows "(\<exists>b t. ext2_alloc_block s = (Inr b, t) \<and> block_free s b \<and> taken s b t) \<or>
    (\<exists>t. ext2_alloc_block s = (Inl io_error, t) \<and> (\<forall>b. \<not> block_free s b) \<and>
       blocks_wf t \<and> same_fs s t \<and> disk_block t = disk_block s)"
proof -
  have l: "layout s" using assms by (simp add: blocks_wf_def)
  have "blk_group s b < unat (num_groups s)" if "block_free s b" for b
    using block_number_inv(1) [OF l] that by (simp add: block_free_def)
  then show ?thesis
    using alloc_block_groups_law [OF assms, of "[0..<unat (num_groups s)]"] by (fastforce simp: ext2_alloc_block_def)
qed

lemma card_group_le:
  assumes "blocks_wf s" and "g < unat (num_groups s)"
  shows "card {b. first_data_block s \<le> b \<and> b < total_blocks s \<and> blk_group s b = g} \<le> 32768"
proof -
  have l: "layout s" "geometry s" using assms(1) by (simp_all add: blocks_wf_def coherent_def)
  let ?A = "{b. first_data_block s \<le> b \<and> b < total_blocks s \<and> blk_group s b = g}"
  have "inj_on (blk_index s) ?A"
    using block_number_inv(3) [OF l(1)] by (intro inj_onI) (smt (verit) mem_Collect_eq)
  then have "card ?A = card (blk_index s ` ?A)" by (simp add: card_image)
  also have "\<dots> \<le> card {..<unat (blocks_per_group s)}"
    using block_number_inv(2) [OF l(1)] by (intro card_mono) auto
  also have "\<dots> \<le> 32768" using l by (auto simp: layout_def geometry_def)
  finally show ?thesis .
qed

lemma card_insert_free:
  fixes v :: u16
  assumes "finite A" and "b \<notin> A" and "unat v = card A" and "card (insert b A) \<le> 32768"
  shows "unat (v + 1) = card (insert b A)"
  using assms by (simp add: unat_word_ariths)

text \<open>What it means that a block in use has been given back.\<close>

definition given_back :: "ext2 \<Rightarrow> u32 \<Rightarrow> ext2 \<Rightarrow> bool" where
  "given_back s b t \<longleftrightarrow> blocks_wf t \<and> same_layout s t \<and> (\<forall>c. block_free t c \<longleftrightarrow> block_free s c \<or> c = b) \<and>
     (\<forall>c. block_ok s c \<and> c \<notin> set (bgdt_region s) \<union> bitmap_blocks s \<longrightarrow> disk_block t c = disk_block s c)"

lemma ext2_free_block_law:
  assumes s: "blocks_wf s" and b: "first_data_block s \<le> b" "b < total_blocks s" "\<not> block_free s b"
    and ok: "block_ok s b" "b \<notin> set (meta_blocks s)"
  shows "\<exists>t. ext2_free_block b s = (Inr (), t) \<and> given_back s b t"
proof -
  let ?g = "blk_group s b" and ?i = "blk_index s b"
  let ?e = "gdesc s ?g"
  let ?B = "bg_block_bitmap ?e"
  let ?bm = "clear_bit_of (disk_block s ?B) ?i"
  have l: "layout s" "coherent s" "no_faults s" using s by (simp_all add: blocks_wf_def)
  note n = block_number_inv [OF l(1) b(1,2)]
  note B = bitmap_in_meta [OF l(1) n(1)]
  have bit: "bit_of (disk_block s ?B) ?i" using b by (simp add: block_free_def block_bit_def)
  obtain t0 where t0: "ext2_read_block ?B s = (Inr (disk_block s ?B), t0)" "coherent t0" "same_fs s t0"
      "disk_block t0 = disk_block s"
    using bdev.read_ok [OF l(2) B(2) l(3)] by blast
  note w0 = same_fs_blocks [OF s t0(3,2,4)]
  note fl0 = same_fs_fields [OF t0(3)]
  note gd0 = same_fs_gdesc [OF t0(3)]
  have len: "length (disk_block s ?B) = unat (block_size s)" using l(2) by (simp add: coherent_def length_disk_block)
  have u: "\<exists>u. ext2_write_block ?B ?bm t0 = (Inr (), u)"
    using bdev.write_law [OF t0(2), of ?B ?bm] B(2) by (auto simp: same_fs_block_ok [OF t0(3)] fl0 len)
  then obtain u where u: "ext2_write_block ?B ?bm t0 = (Inr (), u)" ..
  define t where "t = ext2_super_adjust_free 1 0 (ext2_bgdt_write_back (bgdt_set16 (word_of_nat ?g) 12 (bg_free_blocks_count ?e + 1) u))"
  have f: "coherent t" "same_layout t0 t" "\<And>c. block_free t c \<longleftrightarrow> c = b \<or> block_free s c"
      "\<And>h. h < unat (num_groups s) \<Longrightarrow> bg_free_blocks_count (gdesc t h) =
         (if h = ?g then bg_free_blocks_count ?e + 1 else bg_free_blocks_count (gdesc s h))"
      "\<And>c. block_ok s c \<Longrightarrow> c \<notin> set (bgdt_region s) \<Longrightarrow> disk_block t c = (if c = ?B then ?bm else disk_block s c)"
    using flip_block [where s = t0 and g = ?g and i = ?i and b = b and fr = True and bm = ?bm and u = u and t = t, OF w0(2)]
      n b(2) u t_def same_fs_block_ok [OF t0(3)]
    by (auto simp: fl0 gd0 w0(1) t0(4) bgdt_region_def)
  have lt: "same_layout s t" using same_layout_trans [OF same_fs_same_layout [OF t0(3)] f(2)] .
  have gt: "blk_group t = blk_group s" by (simp add: fun_eq_iff blk_group_def same_layout_fields [OF lt])
  have cnt: "unat (bg_free_blocks_count (gdesc t h)) = card {c. block_free t c \<and> blk_group t c = h}"
    if h: "h < unat (num_groups s)" for h
  proof -
    let ?A = "{c. block_free s c \<and> blk_group s c = h}"
    have "unat (bg_free_blocks_count (gdesc s h)) = card ?A" using s h by (simp add: blocks_wf_def)
    moreover have "{c. block_free t c \<and> blk_group t c = h} = (if h = ?g then insert b ?A else ?A)"
      by (auto simp: f(3) gt)
    moreover have "card (insert b ?A) \<le> 32768" if "h = ?g"
    proof -
      have "insert b ?A \<subseteq> {c. first_data_block s \<le> c \<and> c < total_blocks s \<and> blk_group s c = h}"
        using that b by (auto simp: block_free_def)
      from card_mono [OF _ this] show ?thesis using card_group_le [OF s h] by simp
    qed
    ultimately show ?thesis
      using f(4) [OF h] card_insert_free [of ?A b "bg_free_blocks_count (gdesc s h)"] b(3)
      by (cases "h = ?g") simp_all
  qed
  have wf: "blocks_wf t"
    using s f(1) cnt same_layout_meta(3,4) [OF lt] same_layout_fields [OF lt] same_layout_block_ok [OF lt] f(3) ok
    by (auto simp: blocks_wf_def)
  have d: "unat (b - first_data_block s) = unat b - unat (first_data_block s)"
    using b(1) by (rule unat_sub)
  have gw: "unat ((b - first_data_block s) div blocks_per_group s) = ?g" and iw: "unat ((b - first_data_block s) mod blocks_per_group s) = ?i"
    by (simp_all add: unat_div_distrib unat_mod_distrib d blk_group_def blk_index_def)
  have wg: "(b - first_data_block s) div blocks_per_group s = word_of_nat ?g"
    unfolding gw [symmetric] by simp
  have "bgdt_get (word_of_nat ?g) s = (Inr ?e, s)"
    using bgdt_get_layout [OF l(1), of "word_of_nat ?g"] n(1) unat_group [OF n(1)] by simp
  moreover have "\<not> length (disk_block s ?B) \<le> ?i div 8"
    using n(2) l(1) by (simp add: len layout_def not_le less_mult_imp_div_less mult.commute)
  ultimately have "ext2_free_block b s = (Inr (), t)"
    using b(1) n(1) bit u unat_group [OF n(1)]
    by (simp add: ext2_free_block_def ignoreE_def ext2_free_block_op_def Let_def wg iw word_le_nat_alt word_less_nat_alt
        bindE_def t0(1) t_def)
  then show ?thesis
    using wf lt f(3,5) n(1) by (auto simp: given_back_def bitmap_blocks_def)
qed

section \<open>Properties\<close>

lemma small_bitmap_bit: "j < 15 \<Longrightarrow> block_bit small_fs 0 j \<longleftrightarrow> j < 7"
proof -
  assume j: "j < 15"
  have "disk_block small_fs 3 = small_sector 6 @ small_sector 7"
    by (simp add: disk_block_def small_fs_sel small_disk_def upt_rec)
  moreover have "j \<in> set [0..<15]" using j by simp
  ultimately show ?thesis
    by (auto simp: block_bit_def small_gdesc bit_of_def nth_append small_sector_def upt_rec)
qed

lemma small_free: "block_free small_fs b \<longleftrightarrow> 8 \<le> b \<and> b < 16"
proof (cases "1 \<le> b \<and> b < 16")
  case True
  then have n: "1 \<le> unat b" "unat b < 16" by (simp_all add: word_le_nat_alt word_less_nat_alt)
  then have "blk_group small_fs b = 0" "blk_index small_fs b = unat b - 1"
    by (simp_all add: blk_group_def blk_index_def small_fs_sel)
  then show ?thesis
    using True n small_bitmap_bit [of "unat b - 1"]
    by (auto simp: block_free_def small_fs_sel word_le_nat_alt word_less_nat_alt)
next
  case False
  then show ?thesis by (auto simp: block_free_def small_fs_sel word_le_nat_alt word_less_nat_alt)
qed

lemma small_blocks_wf: "blocks_wf small_fs"
proof -
  have "b \<in> {8, 9, 10, 11, 12, 13, 14, 15}" if "8 \<le> b" "b < 16" for b :: u32
  proof -
    have "unat b \<in> set [8..<16]" using that unfolding set_upt by (simp add: word_le_nat_alt word_less_nat_alt)
    then have "word_of_nat (unat b) \<in> (word_of_nat ` set [8..<16] :: u32 set)" by (rule imageI)
    then show ?thesis by (simp add: upt_rec)
  qed
  then have e: "{b :: u32. 8 \<le> b \<and> b < 16} = {8, 9, 10, 11, 12, 13, 14, 15}" by auto
  have "{b. block_free small_fs b \<and> blk_group small_fs b = 0} = {b. 8 \<le> b \<and> b < 16}"
    by (auto simp: small_free blk_group_def small_fs_sel word_le_nat_alt word_less_nat_alt)
  then have "card {b. block_free small_fs b \<and> blk_group small_fs b = 0} = 8" by (simp add: e)
  then show ?thesis
    using small_layout small_coherent small_no_faults
    by (auto simp: blocks_wf_def small_free small_meta small_gdesc small_fs_sel block_ok_def word_le_nat_alt word_less_nat_alt)
qed

text \<open>C30. Allocating a block. On a well-formed file system a block that is handed out was free, and is
  then no longer free while every other block keeps its status; it reads as zeros, every other
  block outside the descriptors and the bitmaps keeps its contents, and the file system stays
  well-formed. Allocation fails only when no block at all is free, and then changes nothing.\<close>

theorem ext2_alloc_block_fresh:
  assumes "blocks_wf s"
  shows "case ext2_alloc_block s of
      (Inr b, t) \<Rightarrow> block_free s b \<and> block_ok s b \<and> b \<notin> set (meta_blocks s) \<and> blocks_wf t \<and>
        (\<forall>c. block_free t c \<longleftrightarrow> block_free s c \<and> c \<noteq> b) \<and>
        disk_block t b = replicate (unat (block_size s)) 0 \<and>
        (\<forall>c. block_ok s c \<and> c \<noteq> b \<and> c \<notin> set (bgdt_region s) \<union> bitmap_blocks s \<longrightarrow> disk_block t c = disk_block s c)
    | (Inl e, t) \<Rightarrow> e = Errno (-1) \<and> (\<forall>b. \<not> block_free s b) \<and> blocks_wf t \<and> disk_block t = disk_block s"
  using ext2_alloc_block_law [OF assms] assms by (auto simp: taken_def blocks_wf_def)

theorem ext2_alloc_block_fresh_witness:
  "\<exists>b t. ext2_alloc_block small_fs = (Inr b, t) \<and> 8 \<le> b \<and> b < 16 \<and> \<not> block_free t b \<and>
     disk_block t b = replicate 1024 0"
proof -
  have "block_free small_fs 8" by (simp add: small_free)
  then show ?thesis
    using ext2_alloc_block_fresh [OF small_blocks_wf]
    by (auto simp: small_free small_fs_sel split: prod.splits sum.splits)
qed

text \<open>C31. Allocating and freeing. A block that is allocated and then freed leaves the same blocks free
  as before, the file system well-formed, and the contents of every other block outside the
  descriptors and the bitmaps unchanged.\<close>

theorem ext2_alloc_free_roundtrip:
  assumes "blocks_wf s" and "ext2_alloc_block s = (Inr b, t)"
  shows "\<exists>u. ext2_free_block b t = (Inr (), u) \<and> blocks_wf u \<and> block_free u = block_free s \<and>
    (\<forall>c. block_ok s c \<and> c \<noteq> b \<and> c \<notin> set (bgdt_region s) \<union> bitmap_blocks s \<longrightarrow> disk_block u c = disk_block s c)"
proof -
  have a: "block_free s b" "taken s b t" using ext2_alloc_block_law [OF assms(1)] assms(2) by auto
  then have t: "blocks_wf t" "same_layout s t" "\<not> block_free t b" by (simp_all add: taken_def)
  have ok: "block_ok s b" "b \<notin> set (meta_blocks s)" using assms(1) a(1) by (auto simp: blocks_wf_def)
  have bm: "bitmap_blocks t = bitmap_blocks s"
    using same_layout_desc(1) [OF t(2)] by (auto simp: bitmap_blocks_def same_layout_fields [OF t(2)])
  obtain u where "ext2_free_block b t = (Inr (), u)" "given_back t b u"
    using ext2_free_block_law [OF t(1) _ _ t(3)] a(1) ok
    by (auto simp: block_free_def same_layout_fields [OF t(2)] same_layout_block_ok [OF t(2)] same_layout_meta [OF t(2)])
  then show ?thesis
    using a by (auto simp: given_back_def taken_def fun_eq_iff bm same_layout_block_ok [OF t(2)] same_layout_meta [OF t(2)])
qed

theorem ext2_alloc_free_roundtrip_witness:
  "\<exists>b t u. ext2_alloc_block small_fs = (Inr b, t) \<and> ext2_free_block b t = (Inr (), u) \<and> block_free u = block_free small_fs"
proof -
  have "block_free small_fs 8" by (simp add: small_free)
  then obtain b t where "ext2_alloc_block small_fs = (Inr b, t)" using ext2_alloc_block_law [OF small_blocks_wf] by blast
  then show ?thesis using ext2_alloc_free_roundtrip [OF small_blocks_wf] by blast
qed

end
