(* ===== verification/Ext2_Write.thy ===== *)
theory Ext2_Write
  imports Ext2_Dir
begin

unbundle bit_operations_syntax

text \<open>
  Files of the EXT2 driver: reading (\<^verbatim>\<open>fs/ext2/file.c\<close>), the operations that change the
  file system (\<^verbatim>\<open>fs/ext2/write.c\<close>) and the driver's table of operations for the mount
  layer (\<^verbatim>\<open>fs/ext2/mount.c\<close>). File contents are lists of bytes; the buffers the driver
  allocates for them appear only as the question whether the heap can serve the request.
\<close>

section \<open>Reading files\<close>

definition copy_block :: "u32 \<Rightarrow> bytes \<times> u32 \<Rightarrow> ext2 \<Rightarrow> (int \<times> bytes \<times> u32) \<times> ext2" where
  "copy_block b x s =
     (case x of (dst, remaining) \<Rightarrow>
        let chunk = (if remaining < block_size s then remaining else block_size s) in
        if b = 0 then ((0, dst @ replicate (unat chunk) 0, remaining - chunk), s)
        else case ext2_read_block b s of
          (Inl _, s) \<Rightarrow> ((-1, dst, remaining), s)
        | (Inr blk, s) \<Rightarrow> ((0, dst @ take (unat chunk) blk, remaining - chunk), s))"

definition ext2_read_file_ino :: "u32 \<Rightarrow> (bytes, ext2) op" where
  "ext2_read_file_ino ino =
     bindE (ext2_read_inode ino) (\<lambda>inode.
     if i_mode inode AND EXT2_S_IFMT \<noteq> EXT2_S_IFREG then fail io_error
     else
       let sz = i_size inode in
       bindE (getE (\<lambda>s. heap_ok s (sz + 1))) (\<lambda>ok.
       if \<not> ok then fail io_error
       else if sz > 0 then (\<lambda>s.
         case ext2_iter_blocks inode sz copy_block ([], sz) s of
           ((r, dst, _), s) \<Rightarrow>
             if r < 0 then (Inl io_error, s)
             else (Inr (dst @ replicate (unat sz - length dst) 0), s))
       else ret []))"

section \<open>Writing\<close>

definition split_parent_leaf :: "path \<Rightarrow> nat \<Rightarrow> nat \<Rightarrow> (path \<times> path) option" where
  "split_parent_leaf p parent_size leaf_size =
     (if p = [] \<or> hd p \<noteq> SLASH \<or> p = ROOT then None
      else case strrchr_list SLASH p of
        None \<Rightarrow> None
      | Some i \<Rightarrow>
          let leaf = drop (i + 1) p in
          if leaf = [] \<or> length leaf \<ge> leaf_size then None
          else if i = 0 then Some (ROOT, leaf)
          else if i \<ge> parent_size then None
          else Some (take i p, leaf))"

text \<open>The loop over the data, with the number of blocks still to write; the inode changes even
  when it fails.\<close>

primrec write_data_loop :: "nat \<Rightarrow> ext2_inode \<Rightarrow> bytes \<Rightarrow> u32 \<Rightarrow> ext2 \<Rightarrow> ((err + unit) \<times> ext2_inode) \<times> ext2" where
  "write_data_loop 0 inode dat idx s = ((Inr (), inode), s)"
| "write_data_loop (Suc n) inode dat idx s =
     (let bs = unat (block_size s);
          buf = take bs dat @ replicate (bs - length (take bs dat)) 0
      in case bindE (as_errno (- ENOSPC) ext2_alloc_block) (\<lambda>blk.
              bindE (as_errno (- EIO) (ext2_write_block blk buf)) (\<lambda>_. ret blk)) s of
           (Inl e, s) \<Rightarrow> ((Inl e, inode), s)
         | (Inr blk, s) \<Rightarrow>
             (case ext2_inode_add_block inode idx blk s of
                ((Inl (Errno _), inode), s) \<Rightarrow> ((Inl (Errno (- ENOSPC)), inode), s)
              | ((Inl Overflow, inode), s) \<Rightarrow> ((Inl Overflow, inode), s)
              | ((Inr _, inode), s) \<Rightarrow> write_data_loop n inode (drop bs dat) (idx + 1) s))"

definition write_data_blocks :: "ext2_inode \<Rightarrow> bytes \<Rightarrow> ext2 \<Rightarrow> ((err + unit) \<times> ext2_inode) \<times> ext2" where
  "write_data_blocks inode dat s =
     write_data_loop ((length dat + unat (block_size s) - 1) div unat (block_size s)) inode dat 0 s"

definition check_mounted :: "(unit, ext2) op" where
  "check_mounted = bindE (getE mounted) (\<lambda>m. guardE m (Errno (- ENOENT)))"

definition split_or :: "path \<Rightarrow> (path \<times> path, ext2) op" where
  "split_or p = (case split_parent_leaf p MAX_PATH MAX_NAME of
       None \<Rightarrow> fail (Errno (- ENOENT)) | Some x \<Rightarrow> ret x)"

definition fresh_inode :: "u16 \<Rightarrow> u16 \<Rightarrow> ext2 \<Rightarrow> ext2_inode" where
  "fresh_inode mode links s =
     empty_inode\<lparr>i_mode := mode, i_uid := ucast (task_uid s), i_gid := ucast (task_gid s),
       i_atime := clock s, i_ctime := clock s, i_mtime := clock s, i_links_count := links\<rparr>"

definition new_dir_block :: "u32 \<Rightarrow> u32 \<Rightarrow> u32 \<Rightarrow> bytes" where
  "new_dir_block bs new_ino parent_ino =
     patch 12 (dirent_bytes parent_ino (ucast (bs - 12)) EXT2_FT_DIR DOTDOT)
       (patch 0 (dirent_bytes new_ino 12 EXT2_FT_DIR DOT) (replicate (unat bs) 0))"

definition undo_create :: "bool \<Rightarrow> bool \<Rightarrow> ext2_inode \<Rightarrow> u32 \<Rightarrow> int \<Rightarrow> (unit, ext2) op" where
  "undo_create has_blocks directory inode new_ino e =
     bindE (if has_blocks then bindE (ext2_inode_free_all_blocks inode) (\<lambda>_. ret ()) else ret ()) (\<lambda>_.
     bindE (ext2_free_inode new_ino directory) (\<lambda>_. fail (Errno e)))"

text \<open>The first block of a new directory.\<close>

definition create_dir_block :: "u32 \<Rightarrow> u32 \<Rightarrow> ext2_inode \<Rightarrow> (ext2_inode, ext2) op" where
  "create_dir_block new_ino parent_ino inode =
     bindE (testE ext2_alloc_block) (\<lambda>r.
     case r of
       None \<Rightarrow> bindE (ext2_free_inode new_ino True) (\<lambda>_. fail (Errno (- ENOSPC)))
     | Some blk \<Rightarrow>
         bindE (getE (\<lambda>s. (block_size s, sectors_per_block s))) (\<lambda>(bs, spb).
         bindE (testE (ext2_write_block blk (new_dir_block bs new_ino parent_ino))) (\<lambda>w.
         case w of
           None \<Rightarrow> bindE (ext2_free_block blk) (\<lambda>_.
             bindE (ext2_free_inode new_ino True) (\<lambda>_. fail (Errno (- EIO))))
         | Some _ \<Rightarrow> ret (inode\<lparr>i_block := (i_block inode)[0 := blk], i_blocks := spb, i_size := bs\<rparr>))))"

text \<open>Adjust the link count of a parent directory; a failure is not reported.\<close>

definition bump_links :: "u32 \<Rightarrow> (ext2_inode \<Rightarrow> ext2 \<Rightarrow> ext2_inode) \<Rightarrow> (unit, ext2) op" where
  "bump_links ino f =
     bindE (testE (ext2_read_inode ino)) (\<lambda>r.
     case r of
       None \<Rightarrow> ret ()
     | Some i \<Rightarrow> (\<lambda>s. ignoreE (ext2_write_inode ino (f i s)) s))"

definition ext2_create :: "path \<Rightarrow> bool \<Rightarrow> (unit, ext2) op" where
  "ext2_create p directory =
     bindE check_mounted (\<lambda>_.
     bindE (split_or p) (\<lambda>(parent, leaf).
     bindE (as_errno (- ENOENT) (ext2_path_to_inode parent)) (\<lambda>parent_ino.
     bindE (testE (ext2_dir_lookup parent_ino leaf)) (\<lambda>existing.
     if existing \<noteq> None then fail (Errno (- EEXIST))
     else
       bindE (as_errno (- ENOSPC) (ext2_alloc_inode directory)) (\<lambda>new_ino.
       bindE (getE (fresh_inode (if directory then 0x41ED else 0x81A4) (if directory then 2 else 1))) (\<lambda>inode.
       bindE (if directory then create_dir_block new_ino parent_ino inode else ret inode) (\<lambda>inode.
       bindE (testE (ext2_write_inode new_ino inode)) (\<lambda>w.
       if w = None then undo_create directory directory inode new_ino (- EIO)
       else
         bindE (testE (ext2_dir_insert parent_ino leaf new_ino (if directory then EXT2_FT_DIR else EXT2_FT_REG_FILE)))
           (\<lambda>w.
         if w = None then undo_create directory directory inode new_ino (- ENOSPC)
         else if directory then
           bump_links parent_ino (\<lambda>i s. i\<lparr>i_links_count := i_links_count i + 1, i_ctime := clock s, i_mtime := clock s\<rparr>)
         else ret ())))))))))"

definition drop_link :: "ext2_inode \<Rightarrow> ext2_inode" where
  "drop_link i = (if i_links_count i > 0 then i\<lparr>i_links_count := i_links_count i - 1\<rparr> else i)"

definition ext2_unlink :: "path \<Rightarrow> bool \<Rightarrow> (unit, ext2) op" where
  "ext2_unlink p directory =
     bindE check_mounted (\<lambda>_.
     bindE (split_or p) (\<lambda>(parent, leaf).
     bindE (as_errno (- ENOENT) (ext2_path_to_inode parent)) (\<lambda>parent_ino.
     bindE (as_errno (- ENOENT) (ext2_dir_lookup parent_ino leaf)) (\<lambda>ino.
     bindE (as_errno (- EIO) (ext2_read_inode ino)) (\<lambda>inode.
     let is_dir = is_dir_mode inode in
     if directory \<and> \<not> is_dir then fail (Errno (- ENOTDIR))
     else if \<not> directory \<and> is_dir then fail (Errno (- EISDIR))
     else
       bindE (\<lambda>s. if directory then (case ext2_dir_is_empty ino s of (e, s) \<Rightarrow> (Inr e, s)) else (Inr True, s)) (\<lambda>empty.
       if \<not> empty then fail (Errno (- ENOTEMPTY))
       else
         bindE (as_errno (- EIO) (ext2_dir_remove parent_ino leaf)) (\<lambda>_.
         if directory then
           bindE (ext2_inode_free_all_blocks inode) (\<lambda>_.
           bindE (ext2_free_inode ino True) (\<lambda>_.
           bump_links parent_ino (\<lambda>i s. (drop_link i)\<lparr>i_ctime := clock s, i_mtime := clock s\<rparr>)))
         else
           let inode = drop_link inode in
           if i_links_count inode = 0 then
             bindE (ext2_inode_free_all_blocks inode) (\<lambda>_. ext2_free_inode ino False)
           else (\<lambda>s. ignoreE (ext2_write_inode ino (inode\<lparr>i_ctime := clock s\<rparr>)) s))))))))"

text \<open>Renaming over an existing destination: it is checked and removed first.\<close>

definition replace_existing :: "u32 \<Rightarrow> bytes \<Rightarrow> u32 \<Rightarrow> bool \<Rightarrow> (unit, ext2) op" where
  "replace_existing new_parent_ino new_leaf existing_ino old_is_dir =
     bindE (as_errno (- EIO) (ext2_read_inode existing_ino)) (\<lambda>existing.
     let existing_is_dir = is_dir_mode existing in
     if existing_is_dir \<noteq> old_is_dir then fail (Errno (if existing_is_dir then - EISDIR else - ENOTDIR))
     else
       bindE (\<lambda>s. if existing_is_dir then (case ext2_dir_is_empty existing_ino s of (e, s) \<Rightarrow> (Inr e, s))
                  else (Inr True, s)) (\<lambda>empty.
       if \<not> empty then fail (Errno (- ENOTEMPTY))
       else
         bindE (as_errno (- EIO) (ext2_dir_remove new_parent_ino new_leaf)) (\<lambda>_.
         if existing_is_dir then
           bindE (ext2_inode_free_all_blocks existing) (\<lambda>_.
           bindE (ext2_free_inode existing_ino True) (\<lambda>_.
           bump_links new_parent_ino (\<lambda>i s. drop_link i)))
         else
           let existing = drop_link existing in
           if i_links_count existing = 0 then
             bindE (ext2_inode_free_all_blocks existing) (\<lambda>_. ext2_free_inode existing_ino False)
           else ignoreE (ext2_write_inode existing_ino existing))))"

definition is_link_mode :: "ext2_inode \<Rightarrow> bool" where
  "is_link_mode i \<longleftrightarrow> i_mode i AND EXT2_S_IFMT = EXT2_S_IFLNK"

definition ext2_rename :: "path \<Rightarrow> path \<Rightarrow> (unit, ext2) op" where
  "ext2_rename old_path new_path =
     bindE check_mounted (\<lambda>_.
     bindE (split_or old_path) (\<lambda>(old_parent, old_leaf).
     bindE (split_or new_path) (\<lambda>(new_parent, new_leaf).
     bindE (as_errno (- ENOENT) (ext2_path_to_inode old_parent)) (\<lambda>old_parent_ino.
     bindE (as_errno (- ENOENT) (ext2_path_to_inode new_parent)) (\<lambda>new_parent_ino.
     bindE (as_errno (- ENOENT) (ext2_dir_lookup old_parent_ino old_leaf)) (\<lambda>old_ino.
     bindE (as_errno (- EIO) (ext2_read_inode old_ino)) (\<lambda>old_inode.
     let old_is_dir = is_dir_mode old_inode in
     bindE (testE (ext2_dir_lookup new_parent_ino new_leaf)) (\<lambda>existing.
     if existing = Some old_ino then ret ()
     else
       bindE (case existing of
           Some e \<Rightarrow> replace_existing new_parent_ino new_leaf e old_is_dir
         | None \<Rightarrow> ret ()) (\<lambda>_.
       let ft = (if old_is_dir then EXT2_FT_DIR else if is_link_mode old_inode then EXT2_FT_SYMLINK else EXT2_FT_REG_FILE) in
       bindE (as_errno (- ENOSPC) (ext2_dir_insert new_parent_ino new_leaf old_ino ft)) (\<lambda>_.
       bindE (as_errno (- EIO) (ext2_dir_remove old_parent_ino old_leaf)) (\<lambda>_.
       if old_is_dir \<and> old_parent_ino \<noteq> new_parent_ino then
         bindE (ignoreE (ext2_dir_set_parent old_ino new_parent_ino)) (\<lambda>_.
         bindE (bump_links old_parent_ino (\<lambda>i s. drop_link i)) (\<lambda>_.
         bump_links new_parent_ino (\<lambda>i s. i\<lparr>i_links_count := i_links_count i + 1\<rparr>)))
       else ret ())))))))))))"

definition ext2_link :: "path \<Rightarrow> path \<Rightarrow> (unit, ext2) op" where
  "ext2_link old_path new_path =
     bindE check_mounted (\<lambda>_.
     bindE (as_errno (- ENOENT) (ext2_path_to_inode old_path)) (\<lambda>old_ino.
     bindE (as_errno (- EIO) (ext2_read_inode old_ino)) (\<lambda>inode.
     if is_dir_mode inode then fail (Errno (- EPERM))
     else
       bindE (split_or new_path) (\<lambda>(new_parent, new_leaf).
       bindE (as_errno (- ENOENT) (ext2_path_to_inode new_parent)) (\<lambda>new_parent_ino.
       bindE (testE (ext2_dir_lookup new_parent_ino new_leaf)) (\<lambda>existing.
       if existing \<noteq> None then fail (Errno (- EEXIST))
       else
         let ft = (if is_link_mode inode then EXT2_FT_SYMLINK else EXT2_FT_REG_FILE) in
         bindE (as_errno (- ENOSPC) (ext2_dir_insert new_parent_ino new_leaf old_ino ft)) (\<lambda>_ s.
         ext2_write_inode old_ino (inode\<lparr>i_links_count := i_links_count inode + 1, i_ctime := clock s\<rparr>) s)))))))"

text \<open>The bytes of the block pointers, where a short symlink keeps its target.\<close>

definition block_field :: "u32 list \<Rightarrow> bytes" where
  "block_field bs = concat (map put32 bs)"

definition ext2_symlink :: "bytes \<Rightarrow> path \<Rightarrow> (unit, ext2) op" where
  "ext2_symlink target p =
     bindE check_mounted (\<lambda>_.
     if target = [] then fail (Errno (- EINVAL))
     else if length target \<ge> MAX_PATH then fail (Errno (- ENAMETOOLONG))
     else
       bindE (split_or p) (\<lambda>(parent, leaf).
       bindE (as_errno (- ENOENT) (ext2_path_to_inode parent)) (\<lambda>parent_ino.
       bindE (testE (ext2_dir_lookup parent_ino leaf)) (\<lambda>existing.
       if existing \<noteq> None then fail (Errno (- EEXIST))
       else
         bindE (as_errno (- ENOSPC) (ext2_alloc_inode False)) (\<lambda>new_ino.
         bindE (getE (fresh_inode 0xA1FF 1)) (\<lambda>inode.
         let inode = inode\<lparr>i_size := word_of_nat (length target)\<rparr> in
         bindE (\<lambda>s.
             if length target \<le> 60 then
               (Inr (inode\<lparr>i_block := map (\<lambda>k. get32 (patch 0 target (block_field (i_block inode))) (4 * k)) [0..<15]\<rparr>), s)
             else case write_data_blocks inode target s of
               ((Inr _, inode), s) \<Rightarrow> (Inr inode, s)
             | ((Inl Overflow, inode), s) \<Rightarrow> (Inl Overflow, s)
             | ((Inl (Errno rc), inode), s) \<Rightarrow>
                 bindE (undo_create True False inode new_ino rc) (\<lambda>_. ret inode) s) (\<lambda>inode.
         bindE (testE (ext2_write_inode new_ino inode)) (\<lambda>w.
         if w = None then undo_create True False inode new_ino (- EIO)
         else
           bindE (testE (ext2_dir_insert parent_ino leaf new_ino EXT2_FT_SYMLINK)) (\<lambda>w.
           if w = None then undo_create True False inode new_ino (- ENOSPC) else ret ())))))))))"

text \<open>The bytes copied so far, \<open>None\<close> once a hole has left part of the caller's buffer unwritten.\<close>

definition link_copy_block :: "u32 \<Rightarrow> bytes option \<times> u32 \<Rightarrow> ext2 \<Rightarrow> (int \<times> bytes option \<times> u32) \<times> ext2" where
  "link_copy_block b x s =
     (case x of (dst, remaining) \<Rightarrow>
        let chunk = (if remaining < block_size s then remaining else block_size s) in
        if b = 0 then ((0, None, remaining - chunk), s)
        else case ext2_read_block b s of
          (Inl _, s) \<Rightarrow> ((-1, dst, remaining), s)
        | (Inr blk, s) \<Rightarrow> ((0, map_option (\<lambda>d. d @ take (unat chunk) blk) dst, remaining - chunk), s))"

text \<open>A target kept in the inode is copied from \<open>i_block\<close>, the offset 40 of the inode, to the end of
  the inode at most; a target whose blocks give fewer bytes than its size leaves the rest of the
  buffer unwritten.\<close>

definition ext2_readlink :: "path \<Rightarrow> nat \<Rightarrow> (bytes, ext2) op" where
  "ext2_readlink p bufsize =
     bindE check_mounted (\<lambda>_.
     bindE (as_errno (- ENOENT) (ext2_path_to_inode p)) (\<lambda>ino.
     bindE (as_errno (- EIO) (ext2_read_inode ino)) (\<lambda>inode.
     if \<not> is_link_mode inode then fail (Errno (- EINVAL))
     else
       let to_copy = (if unat (i_size inode) < bufsize then i_size inode else word_of_nat bufsize) in
       if i_blocks inode = 0 then
         (if unat to_copy \<le> 88 then ret (take (unat to_copy) (drop 40 (inode_bytes inode))) else fail Overflow)
       else (\<lambda>s.
         case ext2_iter_blocks inode to_copy link_copy_block (Some [], to_copy) s of
           ((r, dst, _), s) \<Rightarrow>
             if r < 0 then (Inl (Errno (- EIO)), s)
             else (case dst of
                 Some t \<Rightarrow> if length t = unat to_copy then (Inr t, s) else (Inl Overflow, s)
               | None \<Rightarrow> (Inl Overflow, s))))))"

text \<open>The inode a write goes to, created when the path names nothing.\<close>

definition write_target :: "path \<Rightarrow> (u32, ext2) op" where
  "write_target p =
     bindE (testE (ext2_path_to_inode p)) (\<lambda>r.
     case r of
       Some ino \<Rightarrow> ret ino
     | None \<Rightarrow> bindE (ext2_create p False) (\<lambda>_. as_errno (- ENOENT) (ext2_path_to_inode p)))"

text \<open>What an appending write stores: the old contents and the new, or the new ones alone when the
  old ones cannot be read.\<close>

definition append_data :: "u32 \<Rightarrow> bytes \<Rightarrow> (bytes, ext2) op" where
  "append_data ino dat =
     bindE (testE (ext2_read_file_ino ino)) (\<lambda>r.
     case r of
       None \<Rightarrow> ret dat
     | Some old \<Rightarrow>
         bindE (getE (\<lambda>s. heap_ok s (word_of_nat (length old + length dat)))) (\<lambda>ok.
         if \<not> ok then fail (Errno (- ENOSPC))
         else if length old + length dat \<ge> 2 ^ 32 then fail Overflow
         else ret (old @ dat)))"

definition ext2_write_file :: "path \<Rightarrow> bytes \<Rightarrow> u32 \<Rightarrow> (unit, ext2) op" where
  "ext2_write_file p dat flags =
     bindE check_mounted (\<lambda>_.
     bindE (write_target p) (\<lambda>ino.
     bindE (as_errno (- EIO) (ext2_read_inode ino)) (\<lambda>inode.
     if i_mode inode AND EXT2_S_IFMT \<noteq> EXT2_S_IFREG then fail (Errno (- EISDIR))
     else
       bindE (if flags AND VFS_O_APPEND \<noteq> 0 then append_data ino dat else ret dat) (\<lambda>final_data.
       bindE (ext2_inode_free_all_blocks inode) (\<lambda>inode s.
         case write_data_blocks inode final_data s of
           ((Inl Overflow, inode), s) \<Rightarrow> (Inl Overflow, s)
         | ((Inl (Errno rc), inode), s) \<Rightarrow>
             bindE (ext2_inode_free_all_blocks inode) (\<lambda>inode.
             bindE (ignoreE (ext2_write_inode ino inode)) (\<lambda>_. fail (Errno rc))) s
         | ((Inr _, inode), s) \<Rightarrow>
             ext2_write_inode ino (inode\<lparr>i_size := word_of_nat (length final_data),
               i_mtime := clock s, i_ctime := clock s\<rparr>) s)))))"

section \<open>The mounted file system\<close>

definition ext2_stat :: "path \<Rightarrow> (vfs_stat, ext2) op" where
  "ext2_stat p =
     bindE (getE mounted) (\<lambda>m.
     if \<not> m then fail io_error
     else
       bindE (as_errno (-1) (ext2_path_to_inode p)) (\<lambda>ino.
       bindE (as_errno (-1) (ext2_read_inode ino)) (\<lambda>inode.
       bindE (getE block_size) (\<lambda>bs.
       ret \<lparr> vtype = (if is_dir_mode inode then VFS_DIR else if is_link_mode inode then VFS_SYMLINK else VFS_FILE),
         vsize = i_size inode, vmode = i_mode inode AND 0x0FFF, st_mode = ucast (i_mode inode),
         st_uid = ucast (i_uid inode), st_gid = ucast (i_gid inode), st_nlink = ucast (i_links_count inode),
         st_ino = ino, st_atime = i_atime inode, st_mtime = i_mtime inode, st_ctime = i_ctime inode,
         st_blocks = i_blocks inode, st_blksize = bs \<rparr>))))"

definition ext2_read_file :: "path \<Rightarrow> (bytes, ext2) op" where
  "ext2_read_file p =
     bindE (getE mounted) (\<lambda>m.
     if \<not> m then fail io_error
     else
       bindE (as_errno (-1) (ext2_path_to_inode p)) (\<lambda>ino.
       bindE (as_errno (-1) (ext2_read_inode ino)) (\<lambda>inode.
       if i_mode inode AND EXT2_S_IFMT \<noteq> EXT2_S_IFREG then fail io_error
       else
         bindE (as_errno (-1) (ext2_read_file_ino ino)) (\<lambda>dat.
         bindE (\<lambda>s. ignoreE (ext2_write_inode ino (inode\<lparr>i_atime := clock s\<rparr>)) s) (\<lambda>_.
         ret dat)))))"

definition ext2_readdir ::
  "path \<Rightarrow> (vfs_dirent \<Rightarrow> 'c \<Rightarrow> int \<times> 'c) \<Rightarrow> 'c \<Rightarrow> ext2 \<Rightarrow> (int \<times> 'c) \<times> ext2" where
  "ext2_readdir p cb ctx s =
     (if \<not> mounted s then ((-1, ctx), s)
      else case ext2_path_to_inode p s of
        (Inl _, s) \<Rightarrow> ((-1, ctx), s)
      | (Inr ino, s) \<Rightarrow> ext2_readdir_ino ino cb ctx s)"

definition ext2_vfs_ops :: "(ext2, 'c) vfs_ops" where
  "ext2_vfs_ops = \<lparr>
     op_stat = Some ext2_stat,
     op_read_file = Some ext2_read_file,
     op_write_file = Some ext2_write_file,
     op_create = Some ext2_create,
     op_unlink = Some ext2_unlink,
     op_rename = Some ext2_rename,
     op_readdir = Some ext2_readdir,
     op_chmod = None,
     op_chown = None,
     op_readlink = Some ext2_readlink,
     op_link = Some ext2_link,
     op_symlink = Some ext2_symlink \<rparr>"

end
