(* ===== verification/Ext2_File.thy ===== *)
theory Ext2_File
  imports Ext2_Alloc Ext2_Write
begin

unbundle bit_operations_syntax

text \<open>
  Files of the EXT2 driver, \<^verbatim>\<open>fs/ext2/write.c\<close> and \<^verbatim>\<open>fs/ext2/file.c\<close>: what
  \<^const>\<open>write_data_blocks\<close> stores across newly allocated direct and indirect blocks is what
  \<^const>\<open>ext2_read_file_ino\<close> later returns. The proofs use the allocator through what it keeps:
  data blocks in use stay in use and keep their contents.
\<close>

section \<open>Data blocks\<close>

definition data_block :: "ext2 \<Rightarrow> u32 \<Rightarrow> bool" where
  "data_block s b \<longleftrightarrow> block_ok s b \<and> first_data_block s \<le> b \<and> b < total_blocks s \<and> \<not> block_free s b \<and>
     b \<notin> set (meta_blocks s)"

definition keeps :: "ext2 \<Rightarrow> ext2 \<Rightarrow> u32 set \<Rightarrow> bool" where
  "keeps s t X \<longleftrightarrow> blocks_wf t \<and> same_layout s t \<and>
     (\<forall>b. data_block s b \<longrightarrow> data_block t b \<and> (b \<notin> X \<longrightarrow> disk_block t b = disk_block s b))"

lemma keeps_refl: "blocks_wf s \<Longrightarrow> keeps s s X"
  by (simp add: keeps_def)

lemma keeps_trans: "keeps s t X \<Longrightarrow> keeps t u Y \<Longrightarrow> keeps s u (X \<union> Y)"
  unfolding keeps_def using same_layout_trans by (metis UnCI)

lemma keeps_mono: "keeps s t X \<Longrightarrow> X \<subseteq> Y \<Longrightarrow> keeps s t Y"
  by (auto simp: keeps_def)

lemma keeps_size: "keeps s t X \<Longrightarrow> block_size t = block_size s"
  by (simp add: keeps_def same_layout_fields)

lemma data_not_special: "data_block s b \<Longrightarrow> layout s \<Longrightarrow> b \<notin> set (bgdt_region s) \<union> bitmap_blocks s"
  using bitmap_in_meta(1) [of s] by (auto simp: data_block_def bitmap_blocks_def meta_blocks_def)

lemma data_same_layout:
  assumes "same_layout s t" and "\<And>c. block_free t c \<Longrightarrow> block_free s c" and "data_block s b"
  shows "data_block t b"
  using assms(2,3) by (auto simp: data_block_def same_layout_block_ok [OF assms(1)] same_layout_meta [OF assms(1)]
      same_layout_fields [OF assms(1)])

lemma alloc_keeps:
  assumes s: "blocks_wf s" and "ext2_alloc_block s = (Inr b, t)"
  shows "keeps s t {}" and "data_block t b" and "\<not> data_block s b"
    and "disk_block t b = replicate (unat (block_size s)) 0"
proof -
  have f: "block_free s b" "taken s b t" using ext2_alloc_block_law [OF s] assms(2) by auto
  then have t: "blocks_wf t" "same_layout s t" "\<And>c. block_free t c \<longleftrightarrow> block_free s c \<and> c \<noteq> b"
    by (simp_all add: taken_def)
  show "\<not> data_block s b" using f(1) by (simp add: data_block_def)
  show "disk_block t b = replicate (unat (block_size s)) 0" using f(2) by (simp add: taken_def)
  have "block_ok s b" "b \<notin> set (meta_blocks s)" using s f(1) by (auto simp: blocks_wf_def)
  moreover have "first_data_block s \<le> b" "b < total_blocks s" using f(1) by (simp_all add: block_free_def)
  ultimately show "data_block t b"
    using t(3) by (simp add: data_block_def same_layout_block_ok [OF t(2)] same_layout_meta [OF t(2)]
        same_layout_fields [OF t(2)])
  have "disk_block t c = disk_block s c" if "data_block s c" for c
    using that f data_not_special [OF that] s by (auto simp: taken_def data_block_def blocks_wf_def)
  then show "keeps s t {}" using t data_same_layout [OF t(2)] by (auto simp: keeps_def)
qed

lemma data_keeps_wf:
  assumes s: "blocks_wf s" and t: "same_fs s t" "coherent t" and b: "b \<notin> bitmap_blocks s"
    and d: "\<And>c. block_ok s c \<Longrightarrow> c \<noteq> b \<Longrightarrow> disk_block t c = disk_block s c"
  shows "keeps s t {b}"
proof -
  have l: "layout s" using s by (simp add: blocks_wf_def)
  note sl = same_fs_same_layout [OF t(1)]
  have bm: "disk_block t (bg_block_bitmap (gdesc s g)) = disk_block s (bg_block_bitmap (gdesc s g))"
    if "g < unat (num_groups s)" for g
    using bitmap_in_meta(2) [OF l that] b that d by (auto simp: bitmap_blocks_def)
  have "blocks_wf t" by (rule blocks_wf_cong [OF s sl t(2) bm]) (simp_all add: same_fs_gdesc [OF t(1)])
  moreover have "block_free t = block_free s" by (rule block_free_cong [OF l sl bm])
  ultimately show ?thesis
    using sl d data_same_layout [OF sl] by (auto simp: keeps_def data_block_def)
qed

lemma write_keeps:
  assumes "blocks_wf s" and "data_block s b" and "length dat = unat (block_size s)"
  shows "\<exists>t. ext2_write_block b dat s = (Inr (), t) \<and> keeps s t {b} \<and> disk_block t b = dat"
proof -
  have "coherent s" "block_ok s b" using assms by (simp_all add: blocks_wf_def data_block_def)
  from bdev.write_law [OF this assms(3)] obtain t where
    t: "ext2_write_block b dat s = (Inr (), t)" "coherent t" "same_fs s t"
      "\<And>c. block_ok s c \<Longrightarrow> disk_block t c = (if c = b then dat else disk_block s c)" by blast
  have "b \<notin> bitmap_blocks s" using data_not_special [OF assms(2)] assms(1) by (simp add: blocks_wf_def)
  then have "keeps s t {b}" by (rule data_keeps_wf [OF assms(1) t(3,2)]) (simp add: t(4))
  then show ?thesis using t \<open>block_ok s b\<close> by auto
qed

lemma read_keeps:
  assumes "blocks_wf s" and "data_block s b"
  shows "\<exists>t. ext2_read_block b s = (Inr (disk_block s b), t) \<and> keeps s t {} \<and> disk_block t = disk_block s"
proof -
  have "coherent s" "block_ok s b" "no_faults s" using assms by (simp_all add: blocks_wf_def data_block_def)
  from bdev.read_ok [OF this] obtain t where
    t: "ext2_read_block b s = (Inr (disk_block s b), t)" "coherent t" "same_fs s t" "disk_block t = disk_block s" by blast
  have "b \<notin> bitmap_blocks s" using data_not_special [OF assms(2)] assms(1) by (simp add: blocks_wf_def)
  then have "keeps s t {b}" by (rule data_keeps_wf [OF assms(1) t(3,2)]) (simp add: t(4))
  then show ?thesis using t by (auto simp: keeps_def)
qed

lemma rmw_keeps:
  assumes "blocks_wf s" and "data_block s b" and "length (f (disk_block s b)) = unat (block_size s)"
  shows "\<exists>t. bindE (ext2_read_block b) (\<lambda>d. ext2_write_block b (f d)) s = (Inr (), t) \<and> keeps s t {b} \<and>
    disk_block t b = f (disk_block s b)"
proof -
  obtain t where t: "ext2_read_block b s = (Inr (disk_block s b), t)" "keeps s t {}" using read_keeps [OF assms(1,2)] by blast
  then have "blocks_wf t" "data_block t b" using assms(2) by (simp_all add: keeps_def)
  from write_keeps [OF this, of "f (disk_block s b)"] assms(3) keeps_size [OF t(2)] obtain u where
    "ext2_write_block b (f (disk_block s b)) t = (Inr (), u)" "keeps t u {b}" "disk_block u b = f (disk_block s b)" by auto
  then show ?thesis using t keeps_trans [OF t(2)] by (fastforce simp: bindE_def)
qed

section \<open>The blocks of a file\<close>

definition fblock :: "ext2 \<Rightarrow> ext2_inode \<Rightarrow> nat \<Rightarrow> u32" where
  "fblock s inode k = (if k < 12 then i_block inode ! k else get32 (disk_block s (i_block inode ! 12)) (4 * (k - 12)))"

text \<open>The first \<open>k\<close> blocks of a file are in place with contents \<open>C\<close>.\<close>

definition file_core :: "ext2 \<Rightarrow> ext2_inode \<Rightarrow> nat \<Rightarrow> (nat \<Rightarrow> bytes) \<Rightarrow> bool" where
  "file_core s inode k C \<longleftrightarrow> length (i_block inode) = 15 \<and>
     (\<forall>j<k. data_block s (fblock s inode j) \<and> disk_block s (fblock s inode j) = C j) \<and>
     inj_on (fblock s inode) {..<k}"

definition file_inv :: "ext2 \<Rightarrow> ext2_inode \<Rightarrow> nat \<Rightarrow> (nat \<Rightarrow> bytes) \<Rightarrow> bool" where
  "file_inv s inode k C \<longleftrightarrow> file_core s inode k C \<and> (k \<le> 12 \<longrightarrow> i_block inode ! 12 = 0) \<and>
     (12 < k \<longrightarrow> data_block s (i_block inode ! 12) \<and> (\<forall>j<k. fblock s inode j \<noteq> i_block inode ! 12))"

lemma fblock_keeps:
  assumes "keeps s t X" and "12 < k \<Longrightarrow> data_block s (i_block inode ! 12) \<and> i_block inode ! 12 \<notin> X" and "j < k"
  shows "fblock t inode j = fblock s inode j"
  using assms by (cases "j < 12") (auto simp: fblock_def keeps_def)

lemma file_inv_keeps:
  assumes k: "keeps s t X" and f: "file_inv s inode k C"
    and x: "\<And>j. j < k \<Longrightarrow> fblock s inode j \<notin> X" and i: "12 < k \<Longrightarrow> i_block inode ! 12 \<notin> X"
  shows "file_inv t inode k C"
proof -
  have e: "fblock t inode j = fblock s inode j" if "j < k" for j
    by (rule fblock_keeps [OF k _ that]) (use f i in \<open>auto simp: file_inv_def\<close>)
  then have "inj_on (fblock t inode) {..<k}" using f by (auto simp: file_inv_def file_core_def inj_on_def)
  moreover have "data_block t b \<and> (b \<notin> X \<longrightarrow> disk_block t b = disk_block s b)" if "data_block s b" for b
    using k that by (auto simp: keeps_def)
  ultimately show ?thesis using f e x by (auto simp: file_inv_def file_core_def)
qed

lemma inj_extend:
  assumes "inj_on g {..<k :: nat}" and "\<And>j. j \<le> k \<Longrightarrow> h j = (if j = k then b else g j)" and "\<And>j. j < k \<Longrightarrow> g j \<noteq> b"
  shows "inj_on h {..<Suc k}"
proof -
  have "inj_on h {..<k}" using assms(1,2) by (auto simp: inj_on_def)
  moreover have "h k \<notin> h ` {..<k}" using assms(2,3) by force
  ultimately show ?thesis by (simp add: lessThan_Suc inj_on_insert)
qed

lemma get32_patch_block:
  assumes "length d = n" and "4 * a + 4 \<le> n" and "4 * c + 4 \<le> n"
  shows "get32 (patch (4 * a) (put32 v) d) (4 * c) = (if c = a then v else get32 d (4 * c))"
proof (cases "c = a")
  case False
  then have "get32 (patch (4 * a) (put32 v) d) (4 * c) = get32 d (4 * c)"
    using assms by (intro get32_patch_other) auto
  then show ?thesis using False by simp
qed (use assms in \<open>simp add: get32_patch_same\<close>)

text \<open>Linking a data block into a file whose indirect block exists if it is needed.\<close>

lemma link_indirect:
  assumes s: "blocks_wf s" and f: "file_core s inode k C" and k: "12 \<le> k" "k - 12 < unat (block_size s) div 4"
    and b: "data_block s b" "disk_block s b = D" "\<And>j. j < k \<Longrightarrow> fblock s inode j \<noteq> b"
    and i: "i_block inode ! 12 \<noteq> 0" "data_block s (i_block inode ! 12)" "i_block inode ! 12 \<noteq> b"
      "\<And>j. j < k \<Longrightarrow> fblock s inode j \<noteq> i_block inode ! 12"
  shows "\<exists>t. bindE (ext2_read_block (i_block inode ! 12)) (\<lambda>blk.
        ext2_write_block (i_block inode ! 12) (patch (4 * (k - 12)) (put32 b) blk)) s = (Inr (), t) \<and>
      keeps s t {i_block inode ! 12} \<and> file_inv t inode (Suc k) (C(k := D)) \<and>
      (\<forall>j \<le> k. fblock t inode j = (if j = k then b else fblock s inode j))"
proof -
  let ?i = "i_block inode ! 12" and ?n = "unat (block_size s)"
  let ?p = "patch (4 * (k - 12)) (put32 b)"
  have len: "length (disk_block s ?i) = ?n" using s by (simp add: blocks_wf_def coherent_def length_disk_block)
  have k4: "4 * (k - 12) + 4 \<le> ?n" using k(2) by linarith
  obtain t where t: "bindE (ext2_read_block ?i) (\<lambda>blk. ext2_write_block ?i (?p blk)) s = (Inr (), t)" "keeps s t {?i}"
      "disk_block t ?i = ?p (disk_block s ?i)"
    using rmw_keeps [OF s i(2), of ?p] len k4 by auto
  have fb: "fblock t inode j = (if j = k then b else fblock s inode j)" if "j \<le> k" for j
    using that k k4 get32_patch_block [OF len k4, of "j - 12" b] by (auto simp: fblock_def t(3))
  have dt: "data_block t c \<and> (c \<noteq> ?i \<longrightarrow> disk_block t c = disk_block s c)" if "data_block s c" for c
    using t(2) that by (auto simp: keeps_def)
  have "inj_on (fblock t inode) {..<Suc k}"
    using f by (intro inj_extend [OF _ fb b(3)]) (simp_all add: file_core_def)
  then have "file_inv t inode (Suc k) (C(k := D))"
    using f fb dt b i k(1) by (auto simp: file_inv_def file_core_def less_Suc_eq)
  then show ?thesis using t fb by blast
qed

text \<open>A file under construction: besides the invariant, none of its blocks was in use at the start,
  and every block that was keeps its contents.\<close>

definition file_new :: "ext2 \<Rightarrow> ext2 \<Rightarrow> ext2_inode \<Rightarrow> nat \<Rightarrow> (nat \<Rightarrow> bytes) \<Rightarrow> bool" where
  "file_new s0 s inode k C \<longleftrightarrow> keeps s0 s {} \<and> file_inv s inode k C \<and>
     (\<forall>j<k. \<not> data_block s0 (fblock s inode j)) \<and> (12 < k \<longrightarrow> \<not> data_block s0 (i_block inode ! 12))"

lemma keeps_start: "keeps s0 s {} \<Longrightarrow> keeps s t X \<Longrightarrow> (\<And>b. b \<in> X \<Longrightarrow> \<not> data_block s0 b) \<Longrightarrow> keeps s0 t {}"
  by (auto simp: keeps_def intro: same_layout_trans)

definition same_attrs :: "ext2_inode \<Rightarrow> ext2_inode \<Rightarrow> bool" where
  "same_attrs i j \<longleftrightarrow> (\<exists>x y. j = i\<lparr>i_block := x, i_blocks := y\<rparr> \<and> length x = length (i_block i))"

lemma same_attrs_refl: "same_attrs i i"
  unfolding same_attrs_def by (rule exI [of _ "i_block i"], rule exI [of _ "i_blocks i"]) simp

lemma same_attrs_trans: "same_attrs i j \<Longrightarrow> same_attrs j k \<Longrightarrow> same_attrs i k"
  unfolding same_attrs_def by force

lemma add_block_direct:
  assumes f: "file_new s0 s inode k C" and k: "k < 12"
    and b: "data_block s b" "disk_block s b = D" "\<not> data_block s0 b" "\<And>j. j < k \<Longrightarrow> fblock s inode j \<noteq> b"
  shows "file_new s0 s (inode\<lparr>i_block := (i_block inode)[k := b], i_blocks := x\<rparr>) (Suc k) (C(k := D))"
proof -
  let ?i = "inode\<lparr>i_block := (i_block inode)[k := b], i_blocks := x\<rparr>"
  have c: "file_core s inode k C" "length (i_block inode) = 15" "i_block inode ! 12 = 0" and n: "\<forall>j<k. \<not> data_block s0 (fblock s inode j)"
    using f k by (auto simp: file_new_def file_inv_def file_core_def)
  have fb: "fblock s ?i j = (if j = k then b else fblock s inode j)" if "j \<le> k" for j
    using that k c(2) by (simp add: fblock_def)
  have "inj_on (fblock s ?i) {..<Suc k}" using c(1) by (intro inj_extend [OF _ fb b(4)]) (simp_all add: file_core_def)
  then show ?thesis
    using f c n fb b k by (auto simp: file_new_def file_inv_def file_core_def less_Suc_eq)
qed

lemma file_new_blocks:
  "file_new s0 s (inode\<lparr>i_blocks := x\<rparr>) k C = file_new s0 s inode k C"
proof -
  have "fblock s (inode\<lparr>i_blocks := x\<rparr>) = fblock s inode" by (simp add: fun_eq_iff fblock_def)
  then show ?thesis by (simp add: file_new_def file_inv_def file_core_def)
qed

lemma add_block_linked:
  assumes s: "blocks_wf s" and ks: "keeps s0 s {}" and f: "file_core s inode k C" and k: "12 \<le> k" "k - 12 < unat (block_size s) div 4"
    and n: "\<And>j. j < k \<Longrightarrow> \<not> data_block s0 (fblock s inode j)"
    and b: "data_block s b" "disk_block s b = D" "\<not> data_block s0 b" "\<And>j. j < k \<Longrightarrow> fblock s inode j \<noteq> b"
    and i: "data_block s (i_block inode ! 12)" "\<not> data_block s0 (i_block inode ! 12)" "i_block inode ! 12 \<noteq> b"
      "\<And>j. j < k \<Longrightarrow> fblock s inode j \<noteq> i_block inode ! 12"
  shows "\<exists>t. bindE (ext2_read_block (i_block inode ! 12)) (\<lambda>blk.
        ext2_write_block (i_block inode ! 12) (patch (4 * (k - 12)) (put32 b) blk)) s = (Inr (), t) \<and>
      blocks_wf t \<and> file_new s0 t inode (Suc k) (C(k := D))"
proof -
  have i0: "i_block inode ! 12 \<noteq> 0" using i(1) by (simp add: data_block_def block_ok_def)
  obtain t where t: "bindE (ext2_read_block (i_block inode ! 12)) (\<lambda>blk.
        ext2_write_block (i_block inode ! 12) (patch (4 * (k - 12)) (put32 b) blk)) s = (Inr (), t)"
      "keeps s t {i_block inode ! 12}" "file_inv t inode (Suc k) (C(k := D))"
      "\<And>j. j \<le> k \<Longrightarrow> fblock t inode j = (if j = k then b else fblock s inode j)"
    using link_indirect [OF s f k b(1,2,4) i0 i(1,3,4)] by blast
  have "keeps s0 t {}" by (rule keeps_start [OF ks t(2)]) (use i(2) in simp)
  then have "file_new s0 t inode (Suc k) (C(k := D))"
    using t(3,4) n b(3) i(2) by (auto simp: file_new_def less_Suc_eq)
  then show ?thesis using t(1,2) by (auto simp: keeps_def)
qed

lemma add_block_law:
  assumes s: "blocks_wf s" and f: "file_new s0 s inode k C" and k: "k < 12 + unat (block_size s) div 4"
    and b: "data_block s b" "disk_block s b = D" "\<not> data_block s0 b" "\<And>j. j < k \<Longrightarrow> fblock s inode j \<noteq> b"
      "12 < k \<Longrightarrow> i_block inode ! 12 \<noteq> b"
  shows "\<exists>r inode' t. ext2_inode_add_block inode (word_of_nat k) b s = ((r, inode'), t) \<and> blocks_wf t \<and> same_attrs inode inode' \<and>
    (r = Inr () \<and> file_new s0 t inode' (Suc k) (C(k := D)) \<or> r = Inl io_error \<and> (\<forall>c. \<not> block_free t c))"
proof -
  have bs: "unat (block_size s) \<le> 4096" and dv: "unat (block_size s div 4) = unat (block_size s) div 4"
    using s by (auto simp: blocks_wf_def coherent_def geometry_def unat_div_distrib)
  have ku: "unat (word_of_nat k :: u32) = k" using k div_le_mono [OF bs, of 4] by (intro unat_u32) simp
  have len: "length (i_block inode) = 15" using f by (simp add: file_new_def file_inv_def file_core_def)
  show ?thesis
  proof (cases "k < 12")
    case True
    then have "word_of_nat k < (12 :: u32)" using ku by (simp add: word_less_nat_alt)
    then show ?thesis
      using add_block_direct [OF f True b(1-4)] s len unfolding same_attrs_def
      by (auto simp: ext2_inode_add_block_def ku)
  next
    case False
    then have k12: "12 \<le> k" "k - 12 < unat (block_size s) div 4" using k by auto
    have idx: "unat (word_of_nat k - 12 :: u32) = k - 12" "\<not> word_of_nat k < (12 :: u32)" "\<not> block_size s div 4 \<le> word_of_nat k - 12"
      using k12 ku dv by (simp_all add: word_less_nat_alt word_le_nat_alt unat_sub)
    have core: "file_core s inode k C" and ks: "keeps s0 s {}" and n: "\<And>j. j < k \<Longrightarrow> \<not> data_block s0 (fblock s inode j)"
      using f by (auto simp: file_new_def file_inv_def)
    show ?thesis
    proof (cases "k = 12")
      case 12: True
      then have i0: "i_block inode ! 12 = 0" using f by (simp add: file_new_def file_inv_def)
      from ext2_alloc_block_law [OF s] show ?thesis
      proof (elim disjE exE conjE)
        fix t assume t: "ext2_alloc_block s = (Inl io_error, t)" "\<forall>b. \<not> block_free s b" "blocks_wf t" "same_fs s t" "disk_block t = disk_block s"
        then have "block_free t = block_free s" using same_fs_blocks(1) [OF s t(4) _ t(5)] by (simp add: blocks_wf_def)
        then show ?thesis
          using t(1-3) idx i0 by (simp add: ext2_inode_add_block_def same_attrs_refl)
      next
        fix ind s1 assume a: "ext2_alloc_block s = (Inr ind, s1)"
        note al = alloc_keeps [OF s a]
        let ?i = "inode\<lparr>i_block := (i_block inode)[12 := ind], i_blocks := i_blocks inode + sectors_per_block s1\<rparr>"
        have k1: "keeps s0 s1 {}" by (rule keeps_start [OF ks al(1)]) simp
        have fb: "fblock s1 ?i j = fblock s inode j" if "j < k" for j using that 12 by (simp add: fblock_def)
        have d1: "data_block s1 c \<and> disk_block s1 c = disk_block s c" if "data_block s c" for c
          using al(1) that by (auto simp: keeps_def)
        have "inj_on (fblock s1 ?i) {..<k}" using core fb by (auto simp: file_core_def inj_on_def)
        then have c1: "file_core s1 ?i k C" using core fb d1 len by (simp add: file_core_def)
        have "blocks_wf s1" using al(1) by (simp add: keeps_def)
        moreover have "\<not> data_block s0 ind" using ks al(3) by (auto simp: keeps_def)
        moreover have "fblock s inode j \<noteq> ind" if "j < k" for j using core that al(3) by (auto simp: file_core_def)
        moreover have "ind \<noteq> b" using b(1) al(3) by auto
        ultimately obtain t where t: "bindE (ext2_read_block ind) (\<lambda>blk. ext2_write_block ind
              (patch (4 * (k - 12)) (put32 b) blk)) s1 = (Inr (), t)" "blocks_wf t" "file_new s0 t ?i (Suc k) (C(k := D))"
          using add_block_linked [OF _ k1 c1 k12(1), of b D] k12(2) n b al(2) d1 fb keeps_size [OF al(1)]
          by (auto simp: len)
        have "ext2_inode_add_block inode (word_of_nat k) b s = ((Inr (), ?i\<lparr>i_blocks := i_blocks ?i + sectors_per_block t\<rparr>), t)"
          using t(1) idx i0 a by (simp add: ext2_inode_add_block_def len)
        moreover have "same_attrs inode (?i\<lparr>i_blocks := i_blocks ?i + sectors_per_block t\<rparr>)"
          by (auto simp: same_attrs_def)
        ultimately show ?thesis using t(2,3) file_new_blocks by blast
      qed
    next
      case False
      then have k13: "12 < k" using k12(1) by simp
      then have i: "data_block s (i_block inode ! 12)" "\<not> data_block s0 (i_block inode ! 12)"
          "\<And>j. j < k \<Longrightarrow> fblock s inode j \<noteq> i_block inode ! 12"
        using f by (auto simp: file_new_def file_inv_def)
      then have i0: "i_block inode ! 12 \<noteq> 0" by (simp add: data_block_def block_ok_def)
      obtain t where t: "bindE (ext2_read_block (i_block inode ! 12)) (\<lambda>blk. ext2_write_block (i_block inode ! 12)
            (patch (4 * (k - 12)) (put32 b) blk)) s = (Inr (), t)" "blocks_wf t" "file_new s0 t inode (Suc k) (C(k := D))"
        using add_block_linked [OF s ks core k12 n b(1-4) i(1,2) b(5) [OF k13] i(3)] by blast
      have "ext2_inode_add_block inode (word_of_nat k) b s = ((Inr (), inode\<lparr>i_blocks := i_blocks inode + sectors_per_block t\<rparr>), t)"
        using t(1) idx i0 by (simp add: ext2_inode_add_block_def)
      moreover have "same_attrs inode (inode\<lparr>i_blocks := i_blocks inode + sectors_per_block t\<rparr>)"
        unfolding same_attrs_def by (rule exI [of _ "i_block inode"], rule exI [of _ "i_blocks inode + sectors_per_block t"]) simp
      ultimately show ?thesis using t(2,3) file_new_blocks by blast
    qed
  qed
qed

section \<open>Writing\<close>

definition chunk :: "nat \<Rightarrow> bytes \<Rightarrow> nat \<Rightarrow> bytes" where
  "chunk n dat j = (let x = bslice (j * n) n dat in x @ replicate (n - length x) 0)"

lemma length_chunk [simp]: "length (chunk n dat j) = n"
  by (simp add: chunk_def Let_def)

lemma chunk_drop: "chunk n (drop n dat) j = chunk n dat (Suc j)"
  by (simp add: chunk_def bslice_def add.commute)

lemma file_new_cong: "(\<And>j. j < k \<Longrightarrow> C j = C' j) \<Longrightarrow> file_new s0 s inode k C = file_new s0 s inode k C'"
  by (simp add: file_new_def file_inv_def file_core_def)

text \<open>One turn of the loop: a new block with the next piece of the data, not yet linked.\<close>

abbreviation (input) store_block :: "bytes \<Rightarrow> (u32, ext2) op" where
  "store_block buf \<equiv> bindE (as_errno (- ENOSPC) ext2_alloc_block) (\<lambda>blk.
     bindE (as_errno (- EIO) (ext2_write_block blk buf)) (\<lambda>_. ret blk))"

lemma store_block_law:
  assumes s: "blocks_wf s" and f: "file_new s0 s inode k C" and buf: "length buf = unat (block_size s)"
  shows "(\<exists>t. store_block buf s = (Inl (Errno (- ENOSPC)), t) \<and> blocks_wf t \<and> (\<forall>c. \<not> block_free t c)) \<or>
    (\<exists>b t. store_block buf s = (Inr b, t) \<and> blocks_wf t \<and> file_new s0 t inode k C \<and> block_size t = block_size s \<and>
       data_block t b \<and> disk_block t b = buf \<and> \<not> data_block s0 b \<and> (\<forall>j<k. fblock t inode j \<noteq> b) \<and>
       (12 < k \<longrightarrow> i_block inode ! 12 \<noteq> b))"
  using ext2_alloc_block_law [OF s]
proof (elim disjE exE conjE)
  fix t assume t: "ext2_alloc_block s = (Inl io_error, t)" "\<forall>b. \<not> block_free s b" "blocks_wf t" "same_fs s t" "disk_block t = disk_block s"
  then have "block_free t = block_free s" using same_fs_blocks(1) [OF s t(4) _ t(5)] by (simp add: blocks_wf_def)
  then show ?thesis using t(1-3) by (simp add: bindE_def as_errno_def)
next
  fix b s1 assume a: "ext2_alloc_block s = (Inr b, s1)"
  note al = alloc_keeps [OF s a]
  have w1: "blocks_wf s1" using al(1) by (simp add: keeps_def)
  obtain s2 where s2: "ext2_write_block b buf s1 = (Inr (), s2)" "keeps s1 s2 {b}" "disk_block s2 b = buf"
    using write_keeps [OF w1 al(2), of buf] keeps_size [OF al(1)] buf by auto
  have w2: "blocks_wf s2" "data_block s2 b" using s2(2) al(2) by (simp_all add: keeps_def)
  have k2: "keeps s s2 {b}" using keeps_trans [OF al(1) s2(2)] by simp
  have fb: "fblock s inode j \<noteq> b" if "j < k" for j
    using f that al(3) by (auto simp: file_new_def file_inv_def file_core_def)
  have ib: "i_block inode ! 12 \<noteq> b" if "12 < k"
    using f that al(3) by (auto simp: file_new_def file_inv_def)
  have nb: "\<not> data_block s0 b" using f al(3) by (auto simp: file_new_def keeps_def)
  have fb2: "fblock s2 inode j = fblock s inode j" if "j < k" for j
    by (rule fblock_keeps [OF k2 _ that]) (use f ib in \<open>auto simp: file_new_def file_inv_def\<close>)
  have "keeps s0 s2 {}" by (rule keeps_start [OF _ k2]) (use f nb in \<open>auto simp: file_new_def\<close>)
  moreover have "file_inv s2 inode k C"
    by (rule file_inv_keeps [OF k2]) (use f fb ib in \<open>auto simp: file_new_def\<close>)
  ultimately have "file_new s0 s2 inode k C" using f fb2 by (auto simp: file_new_def)
  moreover have "store_block buf s = (Inr b, s2)" using a s2(1) by (simp add: bindE_def as_errno_def)
  ultimately show ?thesis using w2 s2(3) nb fb fb2 ib keeps_size [OF k2] by auto
qed

lemma write_data_loop_law:
  assumes "blocks_wf s" and "file_new s0 s inode k C" and "k + n \<le> 12 + unat (block_size s) div 4"
  shows "\<exists>r inode' t. write_data_loop n inode dat (word_of_nat k) s = ((r, inode'), t) \<and> blocks_wf t \<and> same_attrs inode inode' \<and>
    (r = Inr () \<and> file_new s0 t inode' (k + n) (\<lambda>j. if j < k then C j else chunk (unat (block_size s)) dat (j - k)) \<or>
     r = Inl (Errno (- ENOSPC)) \<and> (\<forall>c. \<not> block_free t c))"
  using assms
proof (induction n arbitrary: s inode k C dat)
  case 0
  then show ?case
    using file_new_cong [of k C "\<lambda>j. if j < k then C j else chunk (unat (block_size s)) dat (j - k)"]
    by (simp add: same_attrs_refl)
next
  case (Suc n)
  let ?bs = "unat (block_size s)" and ?buf = "chunk (unat (block_size s)) dat 0"
  have buf: "take ?bs dat @ replicate (?bs - min (length dat) ?bs) 0 = ?buf" by (simp add: chunk_def bslice_def Let_def)
  from store_block_law [OF Suc.prems(1,2), of ?buf, OF length_chunk] show ?case
  proof (elim disjE exE conjE)
    fix t assume "store_block ?buf s = (Inl (Errno (- ENOSPC)), t)" "blocks_wf t" "\<forall>c. \<not> block_free t c"
    then show ?thesis by (simp add: buf Let_def same_attrs_refl)
  next
    fix b s2 assume step: "store_block ?buf s = (Inr b, s2)" and w2: "blocks_wf s2" and f2: "file_new s0 s2 inode k C"
      and bs2: "block_size s2 = block_size s" and b: "data_block s2 b" "disk_block s2 b = ?buf" "\<not> data_block s0 b"
        "\<forall>j<k. fblock s2 inode j \<noteq> b" "12 < k \<longrightarrow> i_block inode ! 12 \<noteq> b"
    have "k < 12 + unat (block_size s2) div 4" using Suc.prems(3) by (simp add: bs2)
    from add_block_law [OF w2 f2 this b(1-3)] b(4,5)
    obtain r i3 s3 where s3: "ext2_inode_add_block inode (word_of_nat k) b s2 = ((r, i3), s3)" "blocks_wf s3" "same_attrs inode i3"
        "r = Inr () \<and> file_new s0 s3 i3 (Suc k) (C(k := ?buf)) \<or> r = Inl io_error \<and> (\<forall>c. \<not> block_free s3 c)"
      by auto
    from s3(4) show ?thesis
    proof (elim disjE conjE)
      assume "r = Inl io_error" "\<forall>c. \<not> block_free s3 c"
      then show ?thesis using step s3(1-3) by (simp add: buf Let_def)
    next
      assume r: "r = Inr ()" "file_new s0 s3 i3 (Suc k) (C(k := ?buf))"
      then have bs3: "block_size s3 = block_size s"
        using Suc.prems(2) keeps_size [of s0 s3] keeps_size [of s0 s] by (auto simp: file_new_def)
      from Suc.IH [OF s3(2) r(2), unfolded bs3, of "drop ?bs dat"] Suc.prems(3)
      obtain r' i4 t where t: "write_data_loop n i3 (drop ?bs dat) (word_of_nat (Suc k)) s3 = ((r', i4), t)" "blocks_wf t" "same_attrs i3 i4"
          "r' = Inr () \<and> file_new s0 t i4 (Suc k + n) (\<lambda>j. if j < Suc k then (C(k := ?buf)) j else chunk ?bs (drop ?bs dat) (j - Suc k)) \<or>
           r' = Inl (Errno (- ENOSPC)) \<and> (\<forall>c. \<not> block_free t c)"
        by auto
      have e: "write_data_loop (Suc n) inode dat (word_of_nat k) s = ((r', i4), t)"
        using step s3(1) t(1) r(1) by (simp add: buf Let_def add.commute)
      have "file_new s0 t i4 (Suc k + n) (\<lambda>j. if j < Suc k then (C(k := ?buf)) j else chunk ?bs (drop ?bs dat) (j - Suc k)) =
          file_new s0 t i4 (k + Suc n) (\<lambda>j. if j < k then C j else chunk ?bs dat (j - k))"
        unfolding add_Suc_shift by (rule file_new_cong) (auto simp: chunk_drop less_Suc_eq intro!: arg_cong [of _ _ "chunk ?bs dat"])
      then show ?thesis using e t(2,4) same_attrs_trans [OF s3(3) t(3)] by auto
    qed
  qed
qed

section \<open>Reading\<close>

lemma visit_copy:
  assumes "blocks_wf s" and "\<And>j. j < length L \<Longrightarrow> j * unat (block_size s) < unat r \<Longrightarrow> data_block s (L ! j)"
  shows "\<exists>t r'. visit copy_block L r (dst, r) s =
      ((0, r', (dst @ take (unat r) (concat (map (disk_block s) L)), r')), t) \<and>
    unat r' = unat r - length L * unat (block_size s) \<and> keeps s t {} \<and> disk_block t = disk_block s"
  using assms
proof (induction L arbitrary: r dst s)
  case Nil
  then show ?case by (simp add: keeps_refl)
next
  case (Cons b L)
  let ?bs = "unat (block_size s)"
  have len: "length (disk_block s b) = ?bs" for b using Cons.prems(1) by (simp add: blocks_wf_def coherent_def length_disk_block)
  show ?case
  proof (cases "r = 0")
    case True
    then show ?thesis using Cons.prems(1) by (simp add: keeps_refl)
  next
    case False
    then have r: "0 < unat r" by (simp add: unat_gt_0)
    let ?c = "if r < block_size s then r else block_size s"
    have c: "unat ?c = min (unat r) ?bs" "unat (r - ?c) = unat r - min (unat r) ?bs"
      by (auto simp: word_less_nat_alt min_def not_less unat_sub word_le_nat_alt)
    have b: "data_block s b" using Cons.prems(2) [of 0] r by simp
    then have b0: "b \<noteq> 0" by (simp add: data_block_def block_ok_def)
    obtain s1 where s1: "ext2_read_block b s = (Inr (disk_block s b), s1)" "keeps s s1 {}" "disk_block s1 = disk_block s"
      using read_keeps [OF Cons.prems(1) b] by blast
    have bs1: "block_size s1 = block_size s" using keeps_size [OF s1(2)] .
    have w1: "blocks_wf s1" using s1(2) by (simp add: keeps_def)
    have "data_block s1 (L ! j)" if "j < length L" "j * unat (block_size s1) < unat (r - ?c)" for j
    proof -
      have "data_block s ((b # L) ! Suc j)" using that c by (intro Cons.prems(2)) (auto simp: bs1 min_def split: if_splits)
      then show ?thesis using s1(2) by (simp add: keeps_def)
    qed
    from Cons.IH [where s = s1 and r = "r - ?c" and dst = "dst @ take (unat ?c) (disk_block s b)", OF w1 this]
    obtain t r' where t: "visit copy_block L (r - ?c) (dst @ take (unat ?c) (disk_block s b), r - ?c) s1 =
          ((0, r', ((dst @ take (unat ?c) (disk_block s b)) @ take (unat (r - ?c)) (concat (map (disk_block s1) L)), r')), t)"
        "unat r' = unat (r - ?c) - length L * unat (block_size s1)" "keeps s1 t {}" "disk_block t = disk_block s1" by blast
    have "copy_block b (dst, r) s = ((0, dst @ take (unat ?c) (disk_block s b), r - ?c), s1)"
      using s1(1) b0 by (simp add: copy_block_def Let_def)
    then have e: "visit copy_block (b # L) r (dst, r) s = visit copy_block L (r - ?c) (dst @ take (unat ?c) (disk_block s b), r - ?c) s1"
      using False by (simp add: Let_def)
    have "take (unat ?c) (disk_block s b) @ take (unat (r - ?c)) (concat (map (disk_block s) L)) =
        take (unat r) (concat (map (disk_block s) (b # L)))"
      using c len by (auto simp: min_def)
    moreover have "keeps s t {}" using keeps_trans [OF s1(2) t(3)] by simp
    ultimately show ?thesis
      unfolding e t(1) using t(2,4) c s1(3) bs1 by (auto simp: min_def)
  qed
qed

lemma take_concat_prefix:
  assumes "\<And>j. j < m \<Longrightarrow> f (L ! j) = C j" and "\<And>x. length (f x) = n" and "m \<le> length L" and "z \<le> m * n"
  shows "take z (concat (map f L)) = take z (concat (map C [0..<m]))"
proof -
  have "map f (take m L) = map C [0..<m]" using assms(1,3) by (intro nth_equalityI) auto
  moreover have "concat (map f L) = concat (map f (take m L)) @ concat (map f (drop m L))"
    by (metis append_take_drop_id concat_append map_append)
  moreover have "length (concat (map f (take m L))) = m * n"
    using assms(2,3) by (simp add: length_concat comp_def sum_list_triv min_absorb2)
  ultimately show ?thesis using assms(4) by simp
qed

lemma concat_chunks:
  "length dat \<le> m * n \<Longrightarrow> concat (map (chunk n dat) [0..<m]) = dat @ replicate (m * n - length dat) 0"
proof (induction m arbitrary: dat)
  case (Suc m)
  have "concat (map (chunk n (drop n dat)) [0..<m]) = drop n dat @ replicate (m * n - length (drop n dat)) 0"
    using Suc.prems by (intro Suc.IH) simp
  moreover have "chunk n dat 0 = take n dat @ replicate (n - length dat) 0"
    by (auto simp: chunk_def bslice_def min_def)
  moreover have "drop n dat = []" "replicate (n - length dat) 0 @ replicate (m * n) 0 = replicate (n + m * n - length dat) (0 :: u8)"
    if "length dat \<le> n"
    using that by (simp_all add: replicate_add [symmetric])
  ultimately show ?case
    by (cases "length dat \<le> n")
      (simp_all add: concat_map_Suc_shift chunk_drop [symmetric] del: upt_Suc, simp add: algebra_simps)
qed simp

lemma take_concat_split:
  assumes "\<And>j. j < m \<Longrightarrow> length (C j) = n" and "k \<le> m" and "k * n \<le> z"
  shows "take z (concat (map C [0..<m])) =
    concat (map C [0..<k]) @ take (z - k * n) (concat (map (\<lambda>j. C (k + j)) [0..<m - k]))"
proof -
  have "map (\<lambda>j. length (C j)) [0..<k] = replicate k n" using assms(1,2) by - (rule nth_equalityI, simp_all)
  then have "length (concat (map C [0..<k])) = k * n" by (simp add: length_concat comp_def sum_list_replicate)
  moreover have "[0..<m] = [0..<k] @ map (\<lambda>j. j + k) [0..<m - k]"
    using assms(2) upt_add_eq_append [of 0 k "m - k"] by (simp add: map_add_upt)
  ultimately show ?thesis using assms(3) by (simp add: comp_def add.commute)
qed

lemma file_contents:
  assumes "blocks_wf s" and "file_inv s inode m C" and "j < m"
  shows "data_block s (fblock s inode j)" "disk_block s (fblock s inode j) = C j" "length (C j) = unat (block_size s)"
proof -
  show "data_block s (fblock s inode j)" and c: "disk_block s (fblock s inode j) = C j"
    using assms(2,3) by (auto simp: file_inv_def file_core_def)
  show "length (C j) = unat (block_size s)"
    unfolding c [symmetric] using assms(1) by (simp add: blocks_wf_def coherent_def length_disk_block)
qed

text \<open>The part of a file behind its indirect block, of which at most 256 pointers are followed.\<close>

lemma visit_indirect:
  assumes s: "blocks_wf s" and f: "file_inv s inode m C" and m: "12 < m" "m \<le> 268"
    and r: "unat r \<le> (m - 12) * unat (block_size s)"
  shows "\<exists>t. visit copy_block (indirect_ptrs (disk_block s (i_block inode ! 12)) 256) r (dst, r) s =
      ((0, 0, (dst @ take (unat r) (concat (map (\<lambda>j. C (12 + j)) [0..<m - 12])), 0)), t) \<and>
    keeps s t {} \<and> disk_block t = disk_block s"
proof -
  let ?bs = "unat (block_size s)" and ?P = "indirect_ptrs (disk_block s (i_block inode ! 12)) 256"
  have P: "length ?P = 256" "\<And>j. j < 256 \<Longrightarrow> ?P ! j = fblock s inode (12 + j)"
    by (simp_all add: indirect_ptrs_def fblock_def)
  have "data_block s (?P ! j)" if "j < length ?P" "j * ?bs < unat r" for j
  proof -
    have "j * ?bs < (m - 12) * ?bs" using that(2) r by (rule less_le_trans)
    then have "12 + j < m" by (simp only: mult_less_cancel2) linarith
    then show ?thesis using file_contents(1) [OF s f] P that(1) by simp
  qed
  from visit_copy [where L = ?P and r = r and dst = dst, OF s this] obtain t r' where
    t: "visit copy_block ?P r (dst, r) s = ((0, r', (dst @ take (unat r) (concat (map (disk_block s) ?P)), r')), t)"
      "unat r' = unat r - 256 * ?bs" "keeps s t {}" "disk_block t = disk_block s" using P(1) by auto
  have "(m - 12) * ?bs \<le> 256 * ?bs" using m(2) by (intro mult_le_mono1) simp
  then have "unat r' = 0" using t(2) r by linarith
  moreover have "take (unat r) (concat (map (disk_block s) ?P)) = take (unat r) (concat (map (\<lambda>j. C (12 + j)) [0..<m - 12]))"
    using file_contents [OF s f] m r P s by (intro take_concat_prefix [where n = ?bs])
      (auto simp: blocks_wf_def coherent_def length_disk_block)
  ultimately show ?thesis using t by (simp add: unat_eq_0)
qed

lemma iter_copy:
  assumes s: "blocks_wf s" and f: "file_inv s inode m C" and z: "unat z \<le> m * unat (block_size s)"
    "m = 0 \<or> (m - 1) * unat (block_size s) < unat z" and m: "m \<le> 268"
  shows "\<exists>t. ext2_iter_blocks inode z copy_block ([], z) s = ((0, take (unat z) (concat (map C [0..<m])), 0), t) \<and>
    keeps s t {} \<and> disk_block t = disk_block s"
proof -
  let ?bs = "unat (block_size s)" and ?L = "take 12 (i_block inode)"
  have len: "length (disk_block s b) = ?bs" for b using s by (simp add: blocks_wf_def coherent_def length_disk_block)
  have bs: "1024 \<le> ?bs" "unat (block_size s div 4) = ?bs div 4"
    using s by (auto simp: blocks_wf_def coherent_def geometry_def unat_div_distrib)
  have L: "length (i_block inode) = 15" using f by (simp add: file_inv_def file_core_def)
  note fb = file_contents [OF s f]
  have dir: "data_block s (?L ! j)" "disk_block s (?L ! j) = C j" if "j < 12" "j < m" for j
    using fb(1,2) [OF that(2)] that(1) L by (simp_all add: fblock_def)
  have lt: "j < m" if "j * ?bs < unat z" for j
    using that z(1) by (metis less_le_trans mult_less_cancel2)
  from visit_copy [where L = ?L and r = z and dst = "[]", OF s] dir(1) lt L
  obtain s1 r where s1: "visit copy_block ?L z ([], z) s = ((0, r, (take (unat z) (concat (map (disk_block s) ?L)), r)), s1)"
      "unat r = unat z - 12 * ?bs" "keeps s s1 {}" "disk_block s1 = disk_block s" by auto
  show ?thesis
  proof (cases "r = 0")
    case True
    then have z12: "unat z \<le> 12 * ?bs" using s1(2) by simp
    have m12: "m \<le> 12"
    proof (cases m)
      case (Suc k)
      then have "k * ?bs < unat z" using z(2) by simp
      then have "k * ?bs < 12 * ?bs" using z12 by (rule less_le_trans)
      then show ?thesis using Suc by (simp only: mult_less_cancel2) simp
    qed simp
    have "take (unat z) (concat (map (disk_block s) ?L)) = take (unat z) (concat (map C [0..<m]))"
      using dir(2) m12 L z(1) by (intro take_concat_prefix [OF _ len]) auto
    then show ?thesis using s1 True by (simp add: ext2_iter_blocks_def)
  next
    case False
    then have big: "12 * ?bs < unat z" using s1(2) by (metis unat_gt_0 zero_less_diff)
    have m12: "12 < m" by (rule lt [OF big])
    let ?i = "i_block inode ! 12"
    have i: "data_block s ?i" using f m12 by (simp add: file_inv_def)
    then have i0: "?i \<noteq> 0" by (simp add: data_block_def block_ok_def)
    have w1: "blocks_wf s1" "data_block s1 ?i" using s1(3) i by (simp_all add: keeps_def)
    obtain s2 where s2: "ext2_read_block ?i s1 = (Inr (disk_block s ?i), s2)" "keeps s1 s2 {}" "disk_block s2 = disk_block s"
      using read_keeps [OF w1] s1(4) by auto
    have k2: "keeps s s2 {}" using keeps_trans [OF s1(3) s2(2)] by simp
    have f2: "file_inv s2 inode m C" by (rule file_inv_keeps [OF k2 f]) simp_all
    have r: "unat r \<le> (m - 12) * unat (block_size s2)"
      using z(1) s1(2) by (simp add: keeps_size [OF k2] diff_mult_distrib)
    from visit_indirect [OF _ f2 m12 m r] k2 s2(3) obtain t where
      t: "visit copy_block (indirect_ptrs (disk_block s ?i) 256) r (concat (map C [0..<12]), r) s2 =
          ((0, 0, (concat (map C [0..<12]) @ take (unat r) (concat (map (\<lambda>j. C (12 + j)) [0..<m - 12])), 0)), t)"
        "keeps s2 t {}" "disk_block t = disk_block s" by (fastforce simp: keeps_def)
    have "map (disk_block s) ?L = map C [0..<12]" using dir(2) m12 by - (rule nth_equalityI, simp_all add: L)
    moreover have "length (concat (map (disk_block s) ?L)) \<le> unat z"
      using L len big by (simp add: length_concat comp_def sum_list_triv)
    ultimately have e: "take (unat z) (concat (map (disk_block s) ?L)) = concat (map C [0..<12])" by simp
    show ?thesis
      using s1 False i0 s2(1) t keeps_trans [OF k2 t(2)] bs m12 big
        take_concat_split [where C = C and k = 12 and m = m and z = "unat z", OF fb(3)]
      by (simp add: ext2_iter_blocks_def e keeps_size [OF k2])
  qed
qed

section \<open>Files\<close>

lemma inode_block_not_bitmap:
  assumes "layout s" "coherent s" "inode_valid s ino"
  shows "inode_block s ino \<notin> bitmap_blocks s"
proof
  assume "inode_block s ino \<in> bitmap_blocks s"
  then obtain g where g: "g < unat (num_groups s)" "inode_block s ino = bg_block_bitmap (gdesc s g)"
    by (auto simp: bitmap_blocks_def)
  have t: "inode_block s ino \<in> set (map (\<lambda>k. bg_inode_table (gdesc s (inode_group s ino)) + word_of_nat k) [0..<table_blocks s])"
    using layout_inode(6) [OF assms] by (auto simp: inode_block_def)
  have d: "distinct (concat (map (group_meta s) [0..<unat (num_groups s)]))"
    using assms(1) by (simp add: layout_def meta_blocks_def)
  have "g = inode_group s ino"
    using distinct_concat_index [OF d g(1) layout_inode(1) [OF assms], of "inode_block s ino"] g(2) layout_inode(3) [OF assms]
    by (simp add: group_meta_def)
  moreover have "distinct (group_meta s g)" using d g(1) by (auto simp: distinct_concat_iff)
  ultimately show False using t g(2) by (auto simp: group_meta_def)
qed

lemma write_inode_keeps:
  assumes s: "blocks_wf s" and v: "inode_valid s ino" "inode_wf i"
  shows "\<exists>t. ext2_write_inode ino i s = (Inr (), t) \<and> keeps s t {} \<and> disk_inode t ino = i"
proof -
  have l: "layout s" "coherent s" "no_faults s" using s by (simp_all add: blocks_wf_def)
  let ?b = "inode_block s ino"
  obtain t where t: "ext2_write_inode ino i s = (Inr (), t)" "coherent t" "same_fs s t"
      "\<And>c. block_ok s c \<Longrightarrow> disk_block t c = (if c = ?b then patch (inode_off s ino) (inode_bytes i) (disk_block s c) else disk_block s c)"
    using write_inode_ok [OF l(1,2) v(1) l(3) v(2)] by (metis (no_types, lifting))
  have k: "keeps s t {?b}"
    by (rule data_keeps_wf [OF s t(3,2) inode_block_not_bitmap [OF l(1,2) v(1)]]) (simp add: t(4))
  have "?b \<in> set (meta_blocks s)" using layout_inode(1,3) [OF l(1,2) v(1)] by (force simp: meta_blocks_def)
  then have "keeps s t {}" using k by (auto simp: keeps_def data_block_def)
  moreover have "length (disk_block s ?b) = unat (block_size s)" using l(2) by (simp add: coherent_def length_disk_block)
  then have "disk_inode t ino = i"
    using layout_inode(4,5) [OF l(1,2) v(1)] length_inode_bytes [OF v(2)] inode_of_bytes [OF v(2)]
    by (simp add: disk_inode_def t(4) same_fs_inode [OF t(3)] bslice_patch_same)
  ultimately show ?thesis using t(1) by blast
qed

lemma read_inode_keeps:
  assumes s: "blocks_wf s" and v: "inode_valid s ino"
  shows "\<exists>t. ext2_read_inode ino s = (Inr (disk_inode s ino), t) \<and> keeps s t {} \<and> disk_block t = disk_block s"
proof -
  have l: "layout s" "coherent s" "no_faults s" using s by (simp_all add: blocks_wf_def)
  obtain t where t: "ext2_read_inode ino s = (Inr (disk_inode s ino), t)" "coherent t" "same_fs s t" "disk_block t = disk_block s"
    using read_inode_ok [OF l(1,2) v l(3)] by blast
  have "keeps s t {inode_block s ino}"
    by (rule data_keeps_wf [OF s t(3,2) inode_block_not_bitmap [OF l(1,2) v]]) (simp add: t(4))
  then show ?thesis using t by (auto simp: keeps_def)
qed

lemma ceil_bounds:
  fixes n k :: nat
  assumes "0 < k" and "m = (n + k - 1) div k"
  shows "n \<le> m * k" and "m = 0 \<or> (m - 1) * k < n" and "n \<le> c * k \<Longrightarrow> m \<le> c"
proof -
  have d: "m * k + (n + k - 1) mod k = n + k - 1" unfolding assms(2) by simp
  have r: "(n + k - 1) mod k \<le> k - 1" using assms(1) by (simp add: less_Suc_eq_le [symmetric])
  show "n \<le> m * k" using d r assms(1) by linarith
  show "m = 0 \<or> (m - 1) * k < n"
  proof (cases m)
    case (Suc q)
    then have "q * k + k \<le> n + k - 1" using d by simp
    then show ?thesis using Suc assms(1) by simp
  qed simp
  show "m \<le> c" if "n \<le> c * k"
  proof -
    have "n + k - 1 < Suc c * k" using that assms(1) by simp
    then show ?thesis unfolding assms(2) by (metis less_Suc_eq_le less_mult_imp_div_less)
  qed
qed

lemma read_file_law:
  assumes s: "blocks_wf s" and v: "inode_valid s ino" and i: "disk_inode s ino = i"
    and mode: "i_mode i AND EXT2_S_IFMT = EXT2_S_IFREG" and sz: "i_size i = word_of_nat (length dat)"
    and len: "length dat \<le> 268 * unat (block_size s)" and h: "heap_ok s (word_of_nat (length dat) + 1)"
    and f: "file_inv s i ((length dat + unat (block_size s) - 1) div unat (block_size s)) (chunk (unat (block_size s)) dat)"
  shows "fst (ext2_read_file_ino ino s) = Inr dat"
proof -
  let ?bs = "unat (block_size s)"
  let ?m = "(length dat + ?bs - 1) div ?bs"
  have bs: "0 < ?bs" "?bs \<le> 4096" using s by (auto simp: blocks_wf_def coherent_def geometry_def)
  obtain t where t: "ext2_read_inode ino s = (Inr i, t)" "keeps s t {}" using read_inode_keeps [OF s v] i by blast
  have bst: "block_size t = block_size s" by (rule keeps_size [OF t(2)])
  have wt: "blocks_wf t" and ht: "heap_ok t = heap_ok s" using t(2) by (simp_all add: keeps_def same_layout_fields)
  have ft: "file_inv t i ?m (chunk ?bs dat)" by (rule file_inv_keeps [OF t(2) f]) simp_all
  have "268 * ?bs \<le> 268 * 4096" using bs(2) by (rule mult_le_mono2)
  then have u: "unat (i_size i) = length dat" using len unfolding sz by (intro unat_u32) simp
  note c = ceil_bounds [OF bs(1) refl, of "length dat"]
  obtain t' where t': "ext2_iter_blocks i (i_size i) copy_block ([], i_size i) t =
      ((0, take (length dat) (concat (map (chunk ?bs dat) [0..<?m])), 0), t')"
    using iter_copy [OF wt ft, of "i_size i"] c(1,2) c(3) [OF len] by (auto simp: u bst)
  have "take (length dat) (concat (map (chunk ?bs dat) [0..<?m])) = dat" using concat_chunks [OF c(1)] by simp
  then show ?thesis
    using t(1) t' mode h sz u by (auto simp: ext2_read_file_ino_def bindE_def Let_def ht word_gt_0)
qed

text \<open>C29. Files keep their data. Let a regular file own no blocks. Writing any contents of at most
  twelve direct and 256 indirect blocks to it either fails with \<open>ENOSPC\<close>, and then no free block is
  left, or else, once its inode is stored with the new size, reading the file returns exactly these
  contents. No block that was in use before changes in the second case.\<close>

theorem ext2_file_roundtrip:
  assumes "blocks_wf s" and "inode_valid s ino" and "inode_wf i" and "take 13 (i_block i) = replicate 13 0"
    and "i_mode i AND EXT2_S_IFMT = EXT2_S_IFREG"
    and "length dat \<le> 268 * unat (block_size s)" and "heap_ok s (word_of_nat (length dat) + 1)"
  shows "case write_data_blocks i dat s of
      ((Inr _, i'), t) \<Rightarrow>
        \<exists>u. ext2_write_inode ino (i'\<lparr>i_size := word_of_nat (length dat)\<rparr>) t = (Inr (), u) \<and> blocks_wf u \<and>
          fst (ext2_read_file_ino ino u) = Inr dat \<and> (\<forall>b. data_block s b \<longrightarrow> disk_block u b = disk_block s b)
    | ((Inl e, _), t) \<Rightarrow> e = Errno (- ENOSPC) \<and> (\<forall>b. \<not> block_free t b)"
proof -
  let ?bs = "unat (block_size s)"
  let ?m = "(length dat + ?bs - 1) div ?bs"
  have l: "layout s" "coherent s" "no_faults s" using assms(1) by (simp_all add: blocks_wf_def)
  have bs: "0 < ?bs" "256 \<le> ?bs div 4" using l(2) by (auto simp: coherent_def geometry_def)
  have m: "?m \<le> 268" by (rule ceil_bounds(3) [OF bs(1) refl assms(6)])
  have "length (i_block i) = 15" "i_block i ! 12 = 0"
    using assms(3) arg_cong [OF assms(4), of "\<lambda>x. x ! 12"] by (simp_all add: inode_wf_def)
  then have f0: "file_new s s i 0 (\<lambda>_. [])"
    using keeps_refl [OF assms(1)] by (simp add: file_new_def file_inv_def file_core_def)
  have m0: "0 + ?m \<le> 12 + ?bs div 4" using m bs(2) by linarith
  from write_data_loop_law [OF assms(1) f0 m0, where dat = dat]
  obtain r i' t where w: "write_data_blocks i dat s = ((r, i'), t)" "blocks_wf t" "same_attrs i i'"
      "r = Inr () \<and> file_new s t i' ?m (chunk ?bs dat) \<or> r = Inl (Errno (- ENOSPC)) \<and> (\<forall>c. \<not> block_free t c)"
    by (auto simp: write_data_blocks_def)
  from w(4) show ?thesis
  proof (elim disjE conjE)
    assume r: "r = Inr ()" "file_new s t i' ?m (chunk ?bs dat)"
    let ?i = "i'\<lparr>i_size := word_of_nat (length dat)\<rparr>"
    have k: "keeps s t {}" and f: "file_inv t i' ?m (chunk ?bs dat)" using r(2) by (simp_all add: file_new_def)
    have wf: "inode_wf ?i" and mode: "i_mode ?i = i_mode i" using w(3) assms(3) by (auto simp: same_attrs_def inode_wf_def)
    have v: "inode_valid t ino" using same_layout_inode(1) [OF _ l(1,2) assms(2)] k by (simp add: keeps_def)
    obtain u where u: "ext2_write_inode ino ?i t = (Inr (), u)" "keeps t u {}" "disk_inode u ino = ?i"
      using write_inode_keeps [OF w(2) v wf] by blast
    have ku: "keeps s u {}" using keeps_trans [OF k u(2)] by simp
    have "fblock u ?i = fblock u i'" by (simp add: fun_eq_iff fblock_def)
    then have fu: "file_inv u ?i ?m (chunk ?bs dat)"
      using file_inv_keeps [OF u(2) f] by (simp add: file_inv_def file_core_def)
    have su: "same_layout s u" "blocks_wf u" using ku by (simp_all add: keeps_def)
    have "fst (ext2_read_file_ino ino u) = Inr dat"
      using assms(5-7) mode fu
      by (intro read_file_law [OF su(2) same_layout_inode(1) [OF su(1) l(1,2) assms(2)] u(3)])
        (simp_all add: same_layout_fields [OF su(1)])
    then show ?thesis using w(1) r(1) u(1) ku by (auto simp: keeps_def)
  qed (use w(1) in simp)
qed

theorem ext2_file_roundtrip_witness:
  "\<exists>i t u. write_data_blocks (empty_inode\<lparr>i_mode := 0x81A4\<rparr>) (lit ''hello'') small_fs = ((Inr (), i), t) \<and>
     ext2_write_inode 3 (i\<lparr>i_size := 5\<rparr>) t = (Inr (), u) \<and> fst (ext2_read_file_ino 3 u) = Inr (lit ''hello'')"
proof -
  let ?i = "empty_inode\<lparr>i_mode := 0x81A4\<rparr>"
  have i: "inode_wf ?i" "take 13 (i_block ?i) = replicate 13 0" "i_mode ?i AND EXT2_S_IFMT = EXT2_S_IFREG"
    by (simp_all add: inode_wf_def empty_inode_def inode_of_def get32_def numeral_eq_Suc)
  have v: "inode_valid small_fs 3" by (simp add: inode_valid_def small_fs_sel)
  note r = ext2_file_roundtrip [OF small_blocks_wf v i, of "lit ''hello''"]
  have "fst (fst (write_data_blocks ?i (lit ''hello'') small_fs)) = Inr ()"
  proof -
    obtain b t where a: "ext2_alloc_block small_fs = (Inr b, t)"
      using ext2_alloc_block_law [OF small_blocks_wf] small_free [of 8] by auto
    note k = alloc_keeps [OF small_blocks_wf a]
    let ?d = "lit ''hello'' @ replicate 1019 0"
    obtain u where u: "ext2_write_block b ?d t = (Inr (), u)"
      using write_keeps [of t b ?d] k keeps_size [OF k(1)] by (auto simp: keeps_def small_fs_sel lit_def)
    have n: "length (lit ''hello'') = 5" by (simp add: lit_def)
    then show ?thesis
      using a u by (simp add: write_data_blocks_def small_fs_sel Let_def bindE_def as_errno_def ext2_inode_add_block_def)
  qed
  then show ?thesis using r by (auto simp: small_fs_sel lit_def split: prod.splits sum.splits)
qed

end
