(* ===== verification/Ext2_Dirs.thy ===== *)
theory Ext2_Dirs
  imports Ext2_Entries Ext2_File
begin

unbundle bit_operations_syntax

text \<open>
  Directories on the disk as finite maps from names to inode numbers: the contract of
  \<^const>\<open>ext2_dir_lookup\<close>, \<^const>\<open>ext2_dir_insert\<close> and \<^const>\<open>ext2_dir_remove\<close>, for directories
  that use direct blocks only. The proofs combine the laws of one directory block with those of
  the allocator, the inode table and the block cache.
\<close>

section \<open>Directories and their entries\<close>

abbreviation (input) bsz :: "ext2 \<Rightarrow> nat" where
  "bsz s \<equiv> unat (block_size s)"

definition dir_blocks :: "ext2 \<Rightarrow> u32 \<Rightarrow> u32 list" where
  "dir_blocks s ino = take (unat (i_size (disk_inode s ino)) div bsz s) (i_block (disk_inode s ino))"

definition dir_lists :: "ext2 \<Rightarrow> u32 \<Rightarrow> (bytes \<times> u32) list list" where
  "dir_lists s ino = map (\<lambda>b. dir_list (disk_block s b) (bsz s) 0) (dir_blocks s ino)"

definition dir_entries :: "ext2 \<Rightarrow> u32 \<Rightarrow> (bytes \<times> u32) list" where
  "dir_entries s ino = concat (dir_lists s ino)"

definition dir_shape :: "ext2 \<Rightarrow> u32 \<Rightarrow> bool" where
  "dir_shape s ino \<longleftrightarrow> blocks_wf s \<and> inode_valid s ino \<and> is_dir_mode (disk_inode s ino) \<and>
     unat (i_size (disk_inode s ino)) \<le> 12 * bsz s \<and> bsz s dvd unat (i_size (disk_inode s ino)) \<and>
     distinct (dir_blocks s ino) \<and>
     list_all (\<lambda>b. data_block s b \<and> dir_wf (disk_block s b) (bsz s) 0) (dir_blocks s ino)"

definition directory :: "ext2 \<Rightarrow> u32 \<Rightarrow> bool" where
  "directory s ino \<longleftrightarrow> dir_shape s ino \<and> distinct (map fst (dir_entries s ino))"

lemma blocks_wf_size:
  assumes "blocks_wf s"
  shows "bsz s \<in> {1024, 2048, 4096}" and "length (disk_block s b) = bsz s"
proof -
  have "geometry s" using assms by (simp add: blocks_wf_def coherent_def)
  then show "bsz s \<in> {1024, 2048, 4096}" "length (disk_block s b) = bsz s"
    by (auto simp: length_disk_block geometry_def)
qed

lemma disk_inode_wf:
  assumes "blocks_wf s" and "inode_valid s ino"
  shows "inode_wf (disk_inode s ino)"
proof -
  have l: "layout s" "coherent s" using assms(1) by (simp_all add: blocks_wf_def)
  show ?thesis
    using layout_inode(5) [OF l assms(2)] blocks_wf_size(2) [OF assms(1)]
    unfolding disk_inode_def by (intro inode_of_wf) simp
qed

lemma dir_shape_blocks:
  assumes "dir_shape s ino"
  shows "length (dir_blocks s ino) \<le> 12" and "length (i_block (disk_inode s ino)) = 15"
    and "unat (i_size (disk_inode s ino)) = length (dir_blocks s ino) * bsz s"
    and "unat (i_size (disk_inode s ino) div block_size s) = length (dir_blocks s ino)"
    and "j < length (dir_blocks s ino) \<Longrightarrow> i_block (disk_inode s ino) ! j = dir_blocks s ino ! j"
proof -
  have s: "blocks_wf s" "inode_valid s ino" using assms by (simp_all add: dir_shape_def)
  show len: "length (i_block (disk_inode s ino)) = 15" using disk_inode_wf [OF s] by (simp add: inode_wf_def)
  have n: "unat (i_size (disk_inode s ino)) div bsz s \<le> 12"
    using assms blocks_wf_size(1) [OF s(1)] by (auto simp: dir_shape_def)
  then show "length (dir_blocks s ino) \<le> 12" using len by (simp add: dir_blocks_def)
  have l: "length (dir_blocks s ino) = unat (i_size (disk_inode s ino)) div bsz s" using n len by (simp add: dir_blocks_def)
  show "unat (i_size (disk_inode s ino)) = length (dir_blocks s ino) * bsz s"
    using assms by (simp add: l dir_shape_def)
  show "unat (i_size (disk_inode s ino) div block_size s) = length (dir_blocks s ino)" by (simp add: l unat_div)
  show "j < length (dir_blocks s ino) \<Longrightarrow> i_block (disk_inode s ino) ! j = dir_blocks s ino ! j"
    by (simp add: dir_blocks_def)
qed

lemma dir_shape_same:
  assumes "dir_shape s ino" and k: "keeps s t {}" and d: "disk_block t = disk_block s"
  shows "dir_shape t ino" and "dir_lists t ino = dir_lists s ino" and "disk_inode t ino = disk_inode s ino"
    and "dir_blocks t ino = dir_blocks s ino"
proof -
  have s: "blocks_wf s" "inode_valid s ino" using assms(1) by (simp_all add: dir_shape_def)
  then have l: "layout s" "coherent s" by (simp_all add: blocks_wf_def)
  have sl: "same_layout s t" and t: "blocks_wf t" using k by (simp_all add: keeps_def)
  note i = same_layout_inode [OF sl l s(2)]
  show di: "disk_inode t ino = disk_inode s ino" by (simp add: disk_inode_def i d)
  show db: "dir_blocks t ino = dir_blocks s ino" by (simp add: dir_blocks_def di keeps_size [OF k])
  show "dir_lists t ino = dir_lists s ino" by (simp add: dir_lists_def db d keeps_size [OF k])
  have "data_block t b" if "data_block s b" for b using k that by (simp add: keeps_def)
  then show "dir_shape t ino"
    using assms(1) t i(1) by (auto simp: dir_shape_def di db d keeps_size [OF k] list_all_iff)
qed

section \<open>Lookup\<close>

lemma lookup_block:
  assumes s: "blocks_wf s" and b: "data_block s b" "dir_wf (disk_block s b) (bsz s) 0" and n: "length name < 256"
  shows "\<exists>t. lookup_in_block name b x s =
      ((case map_of (dir_list (disk_block s b) (bsz s) 0) name of Some i \<Rightarrow> (1, i) | None \<Rightarrow> (0, x)), t) \<and>
    keeps s t {} \<and> disk_block t = disk_block s"
proof -
  obtain t where t: "ext2_read_block b s = (Inr (disk_block s b), t)" "keeps s t {}" "disk_block t = disk_block s"
    using read_keeps [OF s b(1)] by blast
  have "b \<noteq> 0" using b(1) by (simp add: data_block_def block_ok_def)
  then show ?thesis
    using t lookup_scan_map [OF b(2) blocks_wf_size(2) [OF s] n]
    by (auto simp: lookup_in_block_def keeps_size [OF t(2)] split: option.split)
qed

lemma visit_lookup:
  assumes "blocks_wf s" and "unat r = k * bsz s" and "k \<le> length L"
    and "list_all (\<lambda>b. data_block s b \<and> dir_wf (disk_block s b) (bsz s) 0) (take k L)" and "length name < 256"
  shows "\<exists>t r'. visit (lookup_in_block name) L r x s =
      ((case map_of (concat (map (\<lambda>b. dir_list (disk_block s b) (bsz s) 0) (take k L))) name of
          Some i \<Rightarrow> (1, r', i) | None \<Rightarrow> (0, 0, x)), t) \<and>
    keeps s t {} \<and> disk_block t = disk_block s"
  using assms
proof (induction L arbitrary: r s k)
  case (Cons b L)
  show ?case
  proof (cases k)
    case 0
    then show ?thesis using Cons.prems by (simp add: keeps_refl unat_eq_0)
  next
    case (Suc k')
    have pos: "0 < bsz s" using blocks_wf_size(1) [OF Cons.prems(1)] by auto
    then have r: "r \<noteq> 0" "\<not> r < block_size s" "unat (r - block_size s) = k' * bsz s"
      using Cons.prems(2) by (auto simp: Suc word_less_nat_alt unat_sub word_le_nat_alt unat_eq_0 [symmetric])
    obtain t where t: "lookup_in_block name b x s =
        ((case map_of (dir_list (disk_block s b) (bsz s) 0) name of Some i \<Rightarrow> (1, i) | None \<Rightarrow> (0, x)), t)"
        "keeps s t {}" "disk_block t = disk_block s"
      using lookup_block [OF Cons.prems(1) _ _ Cons.prems(5), of b x] Cons.prems(4) by (auto simp: Suc)
    have sz: "block_size t = block_size s" by (rule keeps_size [OF t(2)])
    have w: "blocks_wf t" and db: "\<And>c. data_block s c \<Longrightarrow> data_block t c" using t(2) by (simp_all add: keeps_def)
    obtain u r' where u: "visit (lookup_in_block name) L (r - block_size s) x t =
      ((case map_of (concat (map (\<lambda>b. dir_list (disk_block s b) (bsz s) 0) (take k' L))) name of
          Some i \<Rightarrow> (1, r', i) | None \<Rightarrow> (0, 0, x)), u)" "keeps t u {}" "disk_block u = disk_block s"
      using Cons.IH [OF w, of "r - block_size s" k'] Cons.prems(3-5) r(3) db by (auto simp: Suc sz t(3) list_all_iff)
    show ?thesis
    proof (cases "map_of (dir_list (disk_block s b) (bsz s) 0) name")
      case None
      have "keeps s u {}" using keeps_trans [OF t(2) u(2)] by simp
      then show ?thesis using None r t(1) u(1,3) by (simp add: Suc map_add_def) blast
    next
      case (Some i)
      then show ?thesis using r t by (simp add: Suc map_add_Some_iff map_add_def split: option.split)
    qed
  qed
qed (simp add: keeps_refl unat_eq_0)

abbreviation (input) found :: "u32 option \<Rightarrow> err + u32" where
  "found r \<equiv> (case r of Some i \<Rightarrow> Inr i | None \<Rightarrow> Inl io_error)"

lemma dir_list_nonzero: "(n, i) \<in> set (dir_list buf bs off) \<Longrightarrow> i \<noteq> 0"
proof (induction buf bs off rule: dir_list.induct)
  case (1 buf bs off)
  then show ?case by (subst (asm) (2) dir_list.simps) (auto split: if_splits)
qed

lemma dir_lookup_law:
  assumes d: "dir_shape s ino" and n: "length name < 256"
  shows "\<exists>t. ext2_dir_lookup ino name s = (found (map_of (dir_entries s ino) name), t) \<and>
    keeps s t {} \<and> disk_block t = disk_block s"
proof -
  have s: "blocks_wf s" "inode_valid s ino" using d by (simp_all add: dir_shape_def)
  let ?i = "disk_inode s ino" and ?k = "length (dir_blocks s ino)"
  obtain s1 where s1: "ext2_read_inode ino s = (Inr ?i, s1)" "keeps s s1 {}" "disk_block s1 = disk_block s"
    using read_inode_keeps [OF s] by blast
  note d1 = dir_shape_same [OF d s1(2,3)] and b = dir_shape_blocks [OF d]
  have tk: "take ?k (take 12 (i_block ?i)) = dir_blocks s ino" using b(1,2) by (simp add: dir_blocks_def)
  obtain t r' where t: "visit (lookup_in_block name) (take 12 (i_block ?i)) (i_size ?i) 0 s1 =
      ((case map_of (dir_entries s ino) name of Some i \<Rightarrow> (1, r', i) | None \<Rightarrow> (0, 0, 0)), t)"
      "keeps s1 t {}" "disk_block t = disk_block s"
    using visit_lookup [of s1 "i_size ?i" ?k "take 12 (i_block ?i)" name 0] d1 b n
    unfolding tk by (auto simp: dir_shape_def keeps_size [OF s1(2)] s1(3) dir_entries_def dir_lists_def)
  have "i \<noteq> 0" if "map_of (dir_entries s ino) name = Some i" for i
    using map_of_SomeD [OF that] by (auto simp: dir_entries_def dir_lists_def dest: dir_list_nonzero)
  moreover have "keeps s t {}" using keeps_trans [OF s1(2) t(2)] by simp
  ultimately show ?thesis
    using s1(1) t(1,3) d
    by (auto simp: ext2_dir_lookup_def bindE_def ext2_iter_blocks_def dir_shape_def fail_def split: option.split)
qed

lemma dir_lookup_result:
  "dir_shape s ino \<Longrightarrow> length name < 256 \<Longrightarrow> fst (ext2_dir_lookup ino name s) = found (map_of (dir_entries s ino) name)"
  using dir_lookup_law by fastforce

section \<open>Changing one block\<close>

lemma find_dir_block_law:
  assumes "blocks_wf s" and "\<forall>j\<in>set js. j < 12 \<and> data_block s (i_block i ! j)"
  shows "\<exists>t r. find_dir_block i f js s = (Inr r, t) \<and> keeps s t {} \<and> disk_block t = disk_block s \<and>
    (case r of
       None \<Rightarrow> \<forall>j\<in>set js. f (disk_block s (i_block i ! j)) (bsz s) = None
     | Some (b, x) \<Rightarrow> \<exists>us j vs. js = us @ j # vs \<and> b = i_block i ! j \<and> f (disk_block s b) (bsz s) = Some x \<and>
         (\<forall>j\<in>set us. f (disk_block s (i_block i ! j)) (bsz s) = None))"
  using assms
proof (induction js arbitrary: s)
  case Nil
  then show ?case by (simp add: ret_def keeps_refl)
next
  case (Cons j js)
  let ?b = "i_block i ! j"
  have j: "j < 12" "data_block s ?b" using Cons.prems(2) by simp_all
  then have "?b \<noteq> 0" and "inode_block_at i (word_of_nat j) s = (?b, s)"
    by (simp_all add: data_block_def block_ok_def inode_block_at_def word_less_nat_alt unat_u32)
  moreover obtain t where t: "ext2_read_block ?b s = (Inr (disk_block s ?b), t)" "keeps s t {}" "disk_block t = disk_block s"
    using read_keeps [OF Cons.prems(1) j(2)] by blast
  ultimately have e: "find_dir_block i f (j # js) s = (case f (disk_block s ?b) (bsz s) of
      Some r \<Rightarrow> (Inr (Some (?b, r)), t) | None \<Rightarrow> find_dir_block i f js t)"
    by (simp add: bindE_def keeps_size [OF t(2)])
  show ?case
  proof (cases "f (disk_block s ?b) (bsz s)")
    case None
    have w: "blocks_wf t" "\<forall>j\<in>set js. j < 12 \<and> data_block t (i_block i ! j)"
      using t(2) Cons.prems(2) by (auto simp: keeps_def)
    obtain u r where u: "find_dir_block i f js t = (Inr r, u)" "keeps t u {}" "disk_block u = disk_block s"
       "case r of None \<Rightarrow> \<forall>j\<in>set js. f (disk_block s (i_block i ! j)) (bsz s) = None
       | Some (b, x) \<Rightarrow> \<exists>us j vs. js = us @ j # vs \<and> b = i_block i ! j \<and> f (disk_block s b) (bsz s) = Some x \<and>
         (\<forall>j\<in>set us. f (disk_block s (i_block i ! j)) (bsz s) = None)"
      using Cons.IH [OF w] unfolding t(3) keeps_size [OF t(2)] by auto
    have k: "keeps s u {}" using keeps_trans [OF t(2) u(2)] by simp
    show ?thesis
    proof (cases r)
      case N: None
      then show ?thesis unfolding e using u k None by simp
    next
      case (Some p)
      then obtain b x us j' vs where p: "r = Some (b, x)" "js = us @ j' # vs" "b = i_block i ! j'" "f (disk_block s b) (bsz s) = Some x"
          "\<forall>j\<in>set us. f (disk_block s (i_block i ! j)) (bsz s) = None"
        using u(4) by (cases p) auto
      then have "\<exists>us j'' vs. j # js = us @ j'' # vs \<and> b = i_block i ! j'' \<and> f (disk_block s b) (bsz s) = Some x \<and>
          (\<forall>j\<in>set us. f (disk_block s (i_block i ! j)) (bsz s) = None)"
        using None by (intro exI [of _ "j # us"] exI [of _ j'] exI [of _ vs]) simp
      then show ?thesis unfolding e using u(1,3) k None p(1) by simp
    qed
  next
    case (Some x)
    then have "\<exists>us j' vs. j # js = us @ j' # vs \<and> ?b = i_block i ! j' \<and> f (disk_block s ?b) (bsz s) = Some x \<and>
        (\<forall>j\<in>set us. f (disk_block s (i_block i ! j)) (bsz s) = None)"
      by (intro exI [of _ "[]"] exI [of _ j] exI [of _ js]) simp
    then show ?thesis unfolding e using t(2,3) Some by simp
  qed
qed

text \<open>The inode with new times is still the inode of the directory.\<close>

lemma touch_dir_sel [simp]:
  "i_size (touch_dir i s) = i_size i" "i_block (touch_dir i s) = i_block i" "i_mode (touch_dir i s) = i_mode i"
  "inode_wf (touch_dir i s) = inode_wf i"
  by (simp_all add: touch_dir_def inode_wf_def)

lemma commit_inode:
  assumes s: "blocks_wf s" "inode_valid s ino" and i: "inode_wf i" "is_dir_mode i"
    and k: "k \<le> 12" "unat (i_size i) = k * bsz s" and d: "distinct (take k (i_block i))"
    and w: "list_all (\<lambda>b. data_block s b \<and> dir_wf (disk_block s b) (bsz s) 0) (take k (i_block i))"
  shows "\<exists>t. ext2_write_inode ino (touch_dir i s) s = (Inr (), t) \<and> dir_shape t ino \<and>
    dir_lists t ino = map (\<lambda>b. dir_list (disk_block s b) (bsz s) 0) (take k (i_block i)) \<and> keeps s t {}"
proof -
  obtain t where t: "ext2_write_inode ino (touch_dir i s) s = (Inr (), t)" "keeps s t {}" "disk_inode t ino = touch_dir i s"
    using write_inode_keeps [OF s, of "touch_dir i s"] i(1) by auto
  have pos: "0 < bsz s" using blocks_wf_size(1) [OF s(1)] by auto
  have sz: "block_size t = block_size s" by (rule keeps_size [OF t(2)])
  have db: "dir_blocks t ino = take k (i_block i)" using k(2) pos by (simp add: dir_blocks_def t(3) sz)
  have kb: "data_block t b" "disk_block t b = disk_block s b" if "b \<in> set (take k (i_block i))" for b
    using t(2) w that by (simp_all add: keeps_def list_all_iff)
  have "same_layout s t" "blocks_wf t" using t(2) by (simp_all add: keeps_def)
  then have v: "inode_valid t ino" using same_layout_inode(1) s by (simp add: blocks_wf_def)
  have "dir_shape t ino"
    using \<open>blocks_wf t\<close> v i(2) k d w kb
    by (auto simp: dir_shape_def t(3) sz db list_all_iff is_dir_mode_def)
  moreover have "dir_lists t ino = map (\<lambda>b. dir_list (disk_block s b) (bsz s) 0) (take k (i_block i))"
    using kb(2) by (simp add: dir_lists_def db sz)
  ultimately show ?thesis using t(1,2) by blast
qed

lemma commit_block:
  assumes d: "dir_shape s ino" and j: "j < length (dir_blocks s ino)" and b: "b = dir_blocks s ino ! j"
    and x: "length x = bsz s" "dir_wf x (bsz s) 0"
  shows "\<exists>t. bindE (ext2_write_block b x) (\<lambda>_ t. ext2_write_inode ino (touch_dir (disk_inode s ino) t) t) s = (Inr (), t) \<and>
    dir_shape t ino \<and> dir_lists t ino = (dir_lists s ino)[j := dir_list x (bsz s) 0]"
proof -
  let ?i = "disk_inode s ino" and ?B = "dir_blocks s ino"
  have s: "blocks_wf s" "inode_valid s ino" using d by (simp_all add: dir_shape_def)
  note sb = dir_shape_blocks [OF d]
  have B: "take (length ?B) (i_block ?i) = ?B" by (simp add: dir_blocks_def min_def)
  have db: "data_block s b" using d j by (simp add: dir_shape_def list_all_length b)
  obtain u where u: "ext2_write_block b x s = (Inr (), u)" "keeps s u {b}" "disk_block u b = x"
    using write_keeps [OF s(1) db x(1)] by blast
  have sz: "block_size u = block_size s" by (rule keeps_size [OF u(2)])
  have wu: "blocks_wf u" "same_layout s u" using u(2) by (simp_all add: keeps_def)
  have vu: "inode_valid u ino" using same_layout_inode(1) [OF wu(2)] s by (simp add: blocks_wf_def)
  have du: "data_block u c" "disk_block u c = (if c = b then x else disk_block s c)" if "c \<in> set ?B" for c
    using u(2,3) that d by (auto simp: keeps_def dir_shape_def list_all_iff)
  have w: "list_all (\<lambda>b. data_block u b \<and> dir_wf (disk_block u b) (bsz u) 0) (take (length ?B) (i_block ?i))"
    using du d x(2) unfolding B by (auto simp: list_all_iff sz dir_shape_def)
  obtain t where t: "ext2_write_inode ino (touch_dir ?i u) u = (Inr (), t)" "dir_shape t ino"
      "dir_lists t ino = map (\<lambda>b. dir_list (disk_block u b) (bsz s) 0) ?B"
    using commit_inode [OF wu(1) vu disk_inode_wf [OF s] _ sb(1) _ _ w] d sb(3) unfolding B
    by (auto simp: dir_shape_def sz)
  have "distinct ?B" using d by (simp add: dir_shape_def)
  then have "map (\<lambda>b. dir_list (disk_block u b) (bsz s) 0) ?B = (dir_lists s ino)[j := dir_list x (bsz s) 0]"
    using du(2) j by (intro nth_equalityI) (auto simp: dir_lists_def b nth_list_update nth_eq_iff_index_eq)
  then show ?thesis using u(1) t by (simp add: bindE_def)
qed

section \<open>Removal\<close>

lemma concat_update:
  assumes "j < length ls"
  shows "concat (ls[j := z]) = concat (take j ls) @ z @ concat (drop (Suc j) ls)"
    and "concat ls = concat (take j ls) @ ls ! j @ concat (drop (Suc j) ls)"
proof -
  show "concat (ls[j := z]) = concat (take j ls) @ z @ concat (drop (Suc j) ls)"
    using assms by (simp add: upd_conv_take_nth_drop)
  show "concat ls = concat (take j ls) @ ls ! j @ concat (drop (Suc j) ls)"
    using id_take_nth_drop [OF assms] by (metis concat.simps(2) concat_append)
qed

lemma map_of_split:
  assumes "n \<notin> fst ` set (A @ B)"
  shows "map_of (A @ (n, i) # B) = (map_of (A @ B))(n \<mapsto> i)" and "map_of (A @ B) = (map_of (A @ (n, i) # B))(n := None)"
proof -
  have "map_of A n = None" "map_of B n = None" using assms by (auto simp: map_of_eq_None_iff)
  then show "map_of (A @ (n, i) # B) = (map_of (A @ B))(n \<mapsto> i)" "map_of (A @ B) = (map_of (A @ (n, i) # B))(n := None)"
    by (auto simp: fun_eq_iff map_add_def split: option.split)
qed

lemma dir_entries_nth:
  "name \<in> fst ` set (dir_entries s ino) \<longleftrightarrow> (\<exists>j < length (dir_blocks s ino). name \<in> fst ` set (dir_lists s ino ! j))"
proof -
  have "set (dir_lists s ino) = (\<lambda>j. dir_lists s ino ! j) ` {..<length (dir_blocks s ino)}"
    using set_conv_nth [of "dir_lists s ino"] by (auto simp: dir_lists_def)
  then show ?thesis by (auto simp: dir_entries_def image_UN)
qed

lemma dir_find:
  assumes d: "dir_shape s ino"
  shows "\<exists>t r. find_dir_block (disk_inode s ino) f [0..<length (dir_blocks s ino)] s = (Inr r, t) \<and> keeps s t {} \<and> disk_block t = disk_block s \<and>
    (case r of
       None \<Rightarrow> \<forall>j < length (dir_blocks s ino). f (disk_block s (dir_blocks s ino ! j)) (bsz s) = None
     | Some (b, x) \<Rightarrow> \<exists>j < length (dir_blocks s ino). b = dir_blocks s ino ! j \<and> f (disk_block s b) (bsz s) = Some x)"
proof -
  let ?i = "disk_inode s ino" and ?B = "dir_blocks s ino"
  note sb = dir_shape_blocks [OF d]
  have s: "blocks_wf s" using d by (simp add: dir_shape_def)
  have js: "\<forall>j\<in>set [0..<length ?B]. j < 12 \<and> data_block s (i_block ?i ! j)"
    using d sb(1) by (auto simp: sb(5) dir_shape_def list_all_length)
  obtain t r where t: "find_dir_block ?i f [0..<length ?B] s = (Inr r, t)" "keeps s t {}" "disk_block t = disk_block s"
    and r: "case r of None \<Rightarrow> \<forall>j\<in>set [0..<length ?B]. f (disk_block s (i_block ?i ! j)) (bsz s) = None
       | Some (b, x) \<Rightarrow> \<exists>us j vs. [0..<length ?B] = us @ j # vs \<and> b = i_block ?i ! j \<and> f (disk_block s b) (bsz s) = Some x \<and>
         (\<forall>j\<in>set us. f (disk_block s (i_block ?i ! j)) (bsz s) = None)"
    using find_dir_block_law [OF s js, of f] by (elim exE conjE)
  have j: "j < length ?B" if "[0..<length ?B] = us @ j # vs" for us j vs
    using arg_cong [OF that, of set] by auto
  have "case r of None \<Rightarrow> \<forall>j < length ?B. f (disk_block s (?B ! j)) (bsz s) = None
     | Some (b, x) \<Rightarrow> \<exists>j < length ?B. b = ?B ! j \<and> f (disk_block s b) (bsz s) = Some x"
  proof (cases r)
    case None
    then show ?thesis using r by (simp add: sb(5))
  next
    case (Some p)
    obtain b x where p: "p = (b, x)" by (cases p)
    from r obtain us j vs where "[0..<length ?B] = us @ j # vs" "b = i_block ?i ! j" "f (disk_block s b) (bsz s) = Some x"
      unfolding Some p option.case prod.case by blast
    then show ?thesis using j sb(5) unfolding Some p option.case prod.case by metis
  qed
  then show ?thesis using t by blast
qed

lemma dir_remove_law:
  assumes d: "directory s ino" and n: "length name < 256"
  shows "\<exists>r t. ext2_dir_remove ino name s = (r, t) \<and> directory t ino \<and>
    (r = (if name \<in> fst ` set (dir_entries s ino) then Inr () else Inl io_error)) \<and>
    map_of (dir_entries t ino) = (map_of (dir_entries s ino))(name := None)"
proof -
  let ?i = "disk_inode s ino" and ?B = "dir_blocks s ino"
  have ds: "dir_shape s ino" using d by (simp add: directory_def)
  then have s: "blocks_wf s" "inode_valid s ino" by (simp_all add: dir_shape_def)
  obtain s1 where s1: "ext2_read_inode ino s = (Inr ?i, s1)" "keeps s s1 {}" "disk_block s1 = disk_block s"
    using read_inode_keeps [OF s] by blast
  note d1 = dir_shape_same [OF ds s1(2,3)]
  obtain t r where t: "find_dir_block ?i (remove_scan name None 0) [0..<length ?B] s1 = (Inr r, t)" "keeps s1 t {}" "disk_block t = disk_block s"
    and r: "case r of None \<Rightarrow> \<forall>j < length ?B. remove_scan name None 0 (disk_block s (?B ! j)) (bsz s) = None
     | Some (b, x) \<Rightarrow> \<exists>j < length ?B. b = ?B ! j \<and> remove_scan name None 0 (disk_block s b) (bsz s) = Some x"
    using dir_find [OF d1(1), of "remove_scan name None 0"] unfolding d1 s1(3) keeps_size [OF s1(2)] by blast
  have k: "keeps s t {}" using keeps_trans [OF s1(2) t(2)] by simp
  note dt = dir_shape_same [OF ds k t(3)]
  have run: "ext2_dir_remove ino name s = (case r of
       Some (blk, buf) \<Rightarrow> bindE (ext2_write_block blk buf) (\<lambda>_ s. ext2_write_inode ino (touch_dir ?i s) s) t
     | None \<Rightarrow> (Inl io_error, t))"
    using s1(1) t(1) dir_shape_blocks(4) [OF ds]
    by (simp add: ext2_dir_remove_def bindE_def getE_def keeps_size [OF s1(2)] fail_def split: option.split)
  have blk: "dir_wf (disk_block s (?B ! j)) (bsz s) 0" "length (disk_block s (?B ! j)) = bsz s" "bsz s \<le> 4096"
      "dir_lists s ino ! j = dir_list (disk_block s (?B ! j)) (bsz s) 0" if "j < length ?B" for j
    using ds that blocks_wf_size [OF s(1)] by (auto simp: dir_shape_def list_all_length dir_lists_def)
  show ?thesis
  proof (cases r)
    case None
    then have "name \<notin> fst ` set (dir_lists s ino ! j)" if "j < length ?B" for j
      using remove_scan_law [OF blk(1-3) [OF that] n] r that blk(4) [OF that] by auto
    then have "name \<notin> fst ` set (dir_entries s ino)"
      by (simp add: dir_entries_nth)
    moreover from this have "map_of (dir_entries s ino) name = None" by (simp add: map_of_eq_None_iff)
    ultimately show ?thesis
      using run None d dt(1,2) by (simp add: directory_def dir_entries_def fun_upd_idem)
  next
    case (Some p)
    then obtain x j where p: "r = Some (?B ! j, x)" "j < length ?B" "remove_scan name None 0 (disk_block s (?B ! j)) (bsz s) = Some x"
      using r by (cases p) auto
    obtain xs i ys where x: "length x = bsz s" "dir_wf x (bsz s) 0" "dir_list x (bsz s) 0 = xs @ ys"
        "dir_lists s ino ! j = xs @ (name, i) # ys"
      using remove_scan_law [OF blk(1-3) [OF p(2)] n] p(3) blk(4) [OF p(2)] by auto
    obtain u where u: "bindE (ext2_write_block (?B ! j) x) (\<lambda>_ t. ext2_write_inode ino (touch_dir ?i t) t) t = (Inr (), u)"
        "dir_shape u ino" "dir_lists u ino = (dir_lists s ino)[j := xs @ ys]"
      using commit_block [OF dt(1), of j "?B ! j" x] p(2) x(1-3) by (auto simp: dt keeps_size [OF k])
    have "j < length (dir_lists s ino)" using p(2) by (simp add: dir_lists_def)
    note cu = concat_update [OF this]
    define A where "A = concat (take j (dir_lists s ino)) @ xs"
    define C where "C = ys @ concat (drop (Suc j) (dir_lists s ino))"
    have es: "dir_entries s ino = A @ (name, i) # C" "dir_entries u ino = A @ C"
      using cu(2) cu(1) [of "xs @ ys"] u(3) x(4) by (simp_all add: dir_entries_def A_def C_def)
    then have "name \<notin> fst ` set (A @ C)" "distinct (map fst (A @ C))" using d by (auto simp: directory_def)
    then show ?thesis using run p(1) u(1,2) es map_of_split(2) [of name A C i] by (simp add: directory_def)
  qed
qed

section \<open>Insertion\<close>

text \<open>A new block holds one entry, which fills it.\<close>

lemma fresh_dir_block:
  fixes sz :: u32 and ft :: u8
  assumes "unat sz \<in> {1024, 2048, 4096}" and "length name < 256" and "ino \<noteq> 0"
  defines "b \<equiv> patch 0 (dirent_bytes ino (ucast sz) ft name) (replicate (unat sz) 0)"
  shows "length b = unat sz" "dir_wf b (unat sz) 0" "dir_list b (unat sz) 0 = [(name, ino)]"
proof -
  have fit: "0 + 8 + length name \<le> length (replicate (unat sz) (0 :: u8))" using assms(1,2) by auto
  note f = dirent_fields [OF fit assms(2), of ino "ucast sz" ft, folded b_def]
  have sz: "unat (ucast sz :: u16) = unat sz" using assms(1) by (auto simp: unsigned_ucast_eq take_bit_nat_def)
  have "al4 (8 + length name) \<le> unat sz" using al4_le(2) [of "8 + length name"] assms(1,2) by auto
  then have ok: "entry_ok b (unat sz) 0" using f sz assms(1) by (auto simp: entry_ok_def)
  show "length b = unat sz" using fit by (simp add: b_def)
  show "dir_wf b (unat sz) 0" "dir_list b (unat sz) 0 = [(name, ino)]"
    using dir_step [OF ok] f sz assms(3) by simp_all
qed

text \<open>A directory grows by a block.\<close>

lemma grow_dir:
  assumes d: "dir_shape s ino" and lt: "length (dir_blocks s ino) < 12" and n: "length name < 256" "new \<noteq> 0"
  shows "case bindE ext2_alloc_block (\<lambda>new_blk s1.
             case ext2_inode_add_block (disk_inode s ino) (i_size (disk_inode s ino) div block_size s) new_blk s1 of
               ((Inl e, dir), s2) \<Rightarrow> (Inl e, s2)
             | ((Inr _, dir), s2) \<Rightarrow>
                 bindE (ext2_write_block new_blk
                          (patch 0 (dirent_bytes new (ucast (block_size s)) ft name) (replicate (bsz s) 0))) (\<lambda>_ s3.
                 ext2_write_inode ino (touch_dir (dir\<lparr>i_size := i_size dir + block_size s\<rparr>) s3) s3) s2) s of
      (Inr _, t) \<Rightarrow> dir_shape t ino \<and> dir_lists t ino = dir_lists s ino @ [[(name, new)]]
    | (Inl e, t) \<Rightarrow> e = io_error \<and> (\<forall>b. \<not> block_free s b) \<and> dir_shape t ino \<and> dir_lists t ino = dir_lists s ino"
proof -
  let ?i = "disk_inode s ino" and ?B = "dir_blocks s ino"
  let ?k = "length ?B" and ?d = "patch 0 (dirent_bytes new (ucast (block_size s)) ft name) (replicate (bsz s) 0)"
  have s: "blocks_wf s" "inode_valid s ino" using d by (simp_all add: dir_shape_def)
  note sb = dir_shape_blocks [OF d] and fd = fresh_dir_block [OF blocks_wf_size(1) [OF s(1)] n, of ft]
  from ext2_alloc_block_law [OF s(1)] show ?thesis
  proof (elim disjE exE conjE)
    fix t assume t: "ext2_alloc_block s = (Inl io_error, t)" "\<forall>b. \<not> block_free s b" "blocks_wf t" "same_fs s t" "disk_block t = disk_block s"
    have "keeps s t {}"
      using t(2-5) by (auto simp: keeps_def same_fs_same_layout same_fs_blocks [OF s(1)] blocks_wf_def data_block_def
          same_fs_layout [OF t(4)] same_fs_block_ok [OF t(4)] same_fs_fields [OF t(4)])
    then show ?thesis using t(1,2) dir_shape_same [OF d _ t(5)] by (simp add: bindE_def)
  next
    fix b t assume a: "ext2_alloc_block s = (Inr b, t)"
    note ak = alloc_keeps [OF s(1) a]
    let ?i' = "?i\<lparr>i_block := (i_block ?i)[?k := b], i_blocks := i_blocks ?i + sectors_per_block t, i_size := i_size ?i + block_size s\<rparr>"
    have add: "ext2_inode_add_block ?i (i_size ?i div block_size s) b t =
        ((Inr (), ?i\<lparr>i_block := (i_block ?i)[?k := b], i_blocks := i_blocks ?i + sectors_per_block t\<rparr>), t)"
      using lt sb(4) by (simp add: ext2_inode_add_block_def word_less_nat_alt)
    have sz: "block_size t = block_size s" by (rule keeps_size [OF ak(1)])
    obtain u where u: "ext2_write_block b ?d t = (Inr (), u)" "keeps t u {b}" "disk_block u b = ?d"
      using write_keeps [of t b ?d] ak(1,2) fd(1) by (auto simp: keeps_def sz)
    have su: "block_size u = block_size s" using keeps_size [OF u(2)] sz by simp
    have ku: "keeps s u {b}" using keeps_trans [OF ak(1) u(2)] by simp
    then have wu: "blocks_wf u" "same_layout s u" by (simp_all add: keeps_def)
    have vu: "inode_valid u ino" using same_layout_inode(1) [OF wu(2)] s by (simp add: blocks_wf_def)
    have tk: "take (Suc ?k) (i_block ?i') = ?B @ [b]"
      using lt sb(2) by (auto simp: take_Suc_conv_app_nth dir_blocks_def)
    have nb: "b \<notin> set ?B" using ak(3) d by (auto simp: dir_shape_def list_all_iff)
    have du: "data_block u c \<and> disk_block u c = disk_block s c" if "c \<in> set ?B" for c
      using ku that d nb by (auto simp: keeps_def dir_shape_def list_all_iff)
    have w: "list_all (\<lambda>b. data_block u b \<and> dir_wf (disk_block u b) (bsz u) 0) (take (Suc ?k) (i_block ?i'))"
      unfolding tk using du d u(2,3) ak(2) fd(2) by (auto simp: list_all_iff su dir_shape_def keeps_def)
    have iz: "unat (i_size ?i') = Suc ?k * bsz u"
      using sb(3) lt blocks_wf_size(1) [OF s(1)] by (auto simp: su unat_word_ariths)
    have iw: "inode_wf ?i'" "is_dir_mode ?i'" "distinct (take (Suc ?k) (i_block ?i'))"
      using disk_inode_wf [OF s] d nb unfolding tk by (auto simp: inode_wf_def is_dir_mode_def dir_shape_def)
    obtain v where v: "ext2_write_inode ino (touch_dir ?i' u) u = (Inr (), v)" "dir_shape v ino"
        "dir_lists v ino = map (\<lambda>b. dir_list (disk_block u b) (bsz u) 0) (?B @ [b])"
      using commit_inode [OF wu(1) vu iw(1,2) _ iz iw(3) w] lt unfolding tk by auto
    have "dir_lists v ino = dir_lists s ino @ [[(name, new)]]" unfolding v(3) using du u(3) fd(3) by (simp add: su dir_lists_def)
    then show ?thesis using a add u(1) v(1,2) sz by (simp add: bindE_def)
  qed
qed

lemma dir_insert_law:
  assumes d: "directory s ino" and n: "name \<noteq> []" "length name < 256" "new \<noteq> 0"
    and f: "name \<notin> fst ` set (dir_entries s ino)" and lt: "length (dir_blocks s ino) < 12"
  shows "case ext2_dir_insert ino name new ft s of
      (Inr _, t) \<Rightarrow> directory t ino \<and> map_of (dir_entries t ino) = (map_of (dir_entries s ino))(name \<mapsto> new)
    | (Inl e, t) \<Rightarrow> e = io_error \<and> (\<forall>b. \<not> block_free s b) \<and> directory t ino \<and> dir_entries t ino = dir_entries s ino"
proof -
  let ?i = "disk_inode s ino" and ?B = "dir_blocks s ino" and ?need = "align4 (8 + word_of_nat (length name))"
  let ?f = "place_scan ?need name new ft 0"
  have ds: "dir_shape s ino" using d by (simp add: directory_def)
  then have s: "blocks_wf s" "inode_valid s ino" by (simp_all add: dir_shape_def)
  obtain s1 where s1: "ext2_read_inode ino s = (Inr ?i, s1)" "keeps s s1 {}" "disk_block s1 = disk_block s"
    using read_inode_keeps [OF s] by blast
  note d1 = dir_shape_same [OF ds s1(2,3)]
  obtain t r where t: "find_dir_block ?i ?f [0..<length ?B] s1 = (Inr r, t)" "keeps s1 t {}" "disk_block t = disk_block s"
    and r: "case r of None \<Rightarrow> \<forall>j < length ?B. ?f (disk_block s (?B ! j)) (bsz s) = None
     | Some (b, x) \<Rightarrow> \<exists>j < length ?B. b = ?B ! j \<and> ?f (disk_block s b) (bsz s) = Some x"
    using dir_find [OF d1(1), of ?f] unfolding d1 s1(3) keeps_size [OF s1(2)] by blast
  have k: "keeps s t {}" using keeps_trans [OF s1(2) t(2)] by simp
  note dt = dir_shape_same [OF ds k t(3)] and sz = keeps_size [OF k]
  note run = s1(1) t(1) dir_shape_blocks(4) [OF ds, folded keeps_size [OF s1(2)]] n(1,2)
  have mode: "is_dir_mode ?i" using ds by (simp add: dir_shape_def)
  have place: "\<exists>x xs ys. y = Some x \<and> length x = bsz s \<and> dir_wf x (bsz s) 0 \<and>
      dir_lists s ino ! j = xs @ ys \<and> dir_list x (bsz s) 0 = xs @ (name, new) # ys"
    if "j < length ?B" "?f (disk_block s (?B ! j)) (bsz s) = Some y" for j y
    using place_scan_law [of "disk_block s (?B ! j)" "bsz s" 0 name new ft] that n(2,3) ds blocks_wf_size [OF s(1)]
    by (auto simp: dir_shape_def list_all_length dir_lists_def)
  show ?thesis
  proof (cases r)
    case None
    have "block_free t = block_free s" using k s(1) t(3) unfolding keeps_def
      by (intro block_free_cong) (auto simp: blocks_wf_def)
    moreover have "case ext2_dir_insert ino name new ft s of
        (Inr _, u) \<Rightarrow> dir_shape u ino \<and> dir_lists u ino = dir_lists s ino @ [[(name, new)]]
      | (Inl e, u) \<Rightarrow> e = io_error \<and> (\<forall>b. \<not> block_free t b) \<and> dir_shape u ino \<and> dir_lists u ino = dir_lists s ino"
      using grow_dir [OF dt(1) _ n(2,3), where ft = ft, unfolded dt keeps_size [OF t(2)]] lt run mode None
      by (simp add: ext2_dir_insert_def bindE_def [of "ext2_read_inode ino"] bindE_def [of "find_dir_block _ _ _"]
          bindE_def [of "getE _"] getE_def Let_def)
    ultimately show ?thesis using d f map_of_split(1) [of name "dir_entries s ino" "[]" new]
      by (auto simp: directory_def dir_entries_def split: prod.splits sum.splits)
  next
    case (Some p)
    then obtain y j where p: "r = Some (?B ! j, y)" "j < length ?B" "?f (disk_block s (?B ! j)) (bsz s) = Some y"
      using r by (cases p) auto
    obtain x xs ys where x: "y = Some x" "length x = bsz s" "dir_wf x (bsz s) 0" "dir_lists s ino ! j = xs @ ys"
        "dir_list x (bsz s) 0 = xs @ (name, new) # ys"
      using place [OF p(2,3)] by blast
    obtain u where u: "bindE (ext2_write_block (?B ! j) x) (\<lambda>_ t. ext2_write_inode ino (touch_dir ?i t) t) t = (Inr (), u)"
        "dir_shape u ino" "dir_lists u ino = (dir_lists s ino)[j := xs @ (name, new) # ys]"
      using commit_block [OF dt(1), of j "?B ! j" x] p(2) x by (auto simp: dt sz)
    have "j < length (dir_lists s ino)" using p(2) by (simp add: dir_lists_def)
    note cu = concat_update [OF this]
    define A where "A = concat (take j (dir_lists s ino)) @ xs"
    define C where "C = ys @ concat (drop (Suc j) (dir_lists s ino))"
    have es: "dir_entries s ino = A @ C" "dir_entries u ino = A @ (name, new) # C"
      using cu(2) cu(1) [of "xs @ (name, new) # ys"] u(3) x(4) by (simp_all add: dir_entries_def A_def C_def)
    have "ext2_dir_insert ino name new ft s = (Inr (), u)"
      using run mode u(1) p(1) x(1)
      by (simp add: ext2_dir_insert_def bindE_def [of "ext2_read_inode ino"] bindE_def [of "find_dir_block _ _ _"]
          bindE_def [of "getE _"] getE_def Let_def)
    moreover have "directory u ino" using u(2) es d f by (auto simp: directory_def)
    ultimately show ?thesis using es f map_of_split(1) [of name A C new] by simp
  qed
qed

section \<open>Directories as maps\<close>

lemma small_root_inode:
  "i_size (disk_inode small_fs 2) = 1024" "is_dir_mode (disk_inode small_fs 2)" "take 1 (i_block (disk_inode small_fs 2)) = [7]"
proof -
  have "disk_block small_fs 5 = small_sector 10 @ small_sector 11"
    by (simp add: disk_block_def small_fs_sel small_disk_def upt_rec)
  then have "disk_inode small_fs 2 = inode_of (bslice 128 128 (small_sector 10))"
    by (simp add: disk_inode_def inode_off_def inode_index_def inode_block_def inode_group_def small_gdesc small_fs_sel)
      (simp add: bslice_def)
  then show "i_size (disk_inode small_fs 2) = 1024" "is_dir_mode (disk_inode small_fs 2)" "take 1 (i_block (disk_inode small_fs 2)) = [7]"
    by (simp_all add: is_dir_mode_def inode_of_def get32_def get16_def nth_bslice small_sector_def upt_rec)
qed

lemma bslice_map: "off + n \<le> length b \<Longrightarrow> bslice off n b = map (\<lambda>k. b ! (off + k)) [0..<n]"
  by (rule nth_equalityI) (simp_all add: nth_bslice)

lemma small_root_block:
  "dir_wf (disk_block small_fs 7) 1024 0 \<and> dir_list (disk_block small_fs 7) 1024 0 = [([46], 2), ([46, 46], 2)]"
proof -
  let ?b = "disk_block small_fs 7"
  have b: "?b = small_sector 14 @ small_sector 15"
    by (simp add: disk_block_def small_fs_sel small_disk_def upt_rec)
  have f: "de_inode ?b 0 = 2" "de_rec_len ?b 0 = 12" "de_name_len ?b 0 = 1" "de_name ?b 0 1 = [46]"
      "de_inode ?b 12 = 2" "de_rec_len ?b 12 = 1012" "de_name_len ?b 12 = 2" "de_name ?b 12 2 = [46, 46]"
    unfolding b by (simp_all add: de_inode_def de_rec_len_def de_name_len_def de_name_def get32_def get16_def nth_append
        small_sector_def bslice_map upt_rec)
  have "entry_ok ?b 1024 0" "entry_ok ?b 1024 12" using f by (simp_all add: entry_ok_def al4_def)
  from dir_step [OF this(1)] dir_step [OF this(2)] show ?thesis using f by simp
qed

lemma small_root: "directory small_fs 2" "dir_entries small_fs 2 = [([46], 2), ([46, 46], 2)]" "dir_blocks small_fs 2 = [7]"
proof -
  show b: "dir_blocks small_fs 2 = [7]" using small_root_inode by (simp add: dir_blocks_def small_fs_sel)
  show e: "dir_entries small_fs 2 = [([46], 2), ([46, 46], 2)]"
    using small_root_block by (simp add: dir_entries_def dir_lists_def b small_fs_sel)
  have "data_block small_fs 7" by (simp add: data_block_def small_free small_meta block_ok_def small_fs_sel)
  then show "directory small_fs 2"
    using small_blocks_wf small_root_block small_root_inode e
    by (simp add: directory_def dir_shape_def b small_fs_sel inode_valid_def)
qed

text \<open>C27. Directories are maps: insertion. In a well-formed directory of fewer than twelve blocks that
  has no entry for a name, inserting one for it makes the lookup of that name return the inserted
  inode number and leaves the lookup of every other name as it was, wherever the entry found room,
  in an unused entry, in the slack of another one or in a new block. The directory stays
  well-formed. The insertion fails only if no block of the disk is free, and then no lookup changes.\<close>

theorem ext2_dir_insert_updates:
  assumes "directory s ino" and "name \<noteq> []" and "length name < 256" and "new \<noteq> 0"
    and "fst (ext2_dir_lookup ino name s) = Inl (Errno (-1))" and "length (dir_blocks s ino) < 12"
  shows "case ext2_dir_insert ino name new ft s of
      (Inr _, t) \<Rightarrow> directory t ino \<and> (\<forall>n. length n < 256 \<longrightarrow>
        fst (ext2_dir_lookup ino n t) = (if n = name then Inr new else fst (ext2_dir_lookup ino n s)))
    | (Inl e, t) \<Rightarrow> e = Errno (-1) \<and> (\<forall>b. \<not> block_free s b) \<and> directory t ino \<and>
        (\<forall>n. length n < 256 \<longrightarrow> fst (ext2_dir_lookup ino n t) = fst (ext2_dir_lookup ino n s))"
proof -
  have "map_of (dir_entries s ino) name = None"
    using assms(1,3,5) by (simp add: directory_def dir_lookup_result split: option.splits)
  then have "name \<notin> fst ` set (dir_entries s ino)" by (simp add: map_of_eq_None_iff)
  from dir_insert_law [OF assms(1-4) this assms(6), of ft] assms(1) show ?thesis
    by (auto simp: directory_def dir_lookup_result split: prod.splits sum.splits)
qed

theorem ext2_dir_insert_updates_witness:
  "\<exists>t. ext2_dir_insert 2 (lit ''etc'') 11 2 small_fs = (Inr (), t) \<and> fst (ext2_dir_lookup 2 (lit ''etc'') t) = Inr 11 \<and>
     fst (ext2_dir_lookup 2 (lit ''..'') t) = Inr 2"
proof -
  have d: "dir_shape small_fs 2" using small_root(1) by (simp add: directory_def)
  have l: "lit ''etc'' = [101, 116, 99]" "lit ''..'' = [46, 46]" by (simp_all add: lit_def)
  have lk: "fst (ext2_dir_lookup 2 (lit ''etc'') small_fs) = Inl (Errno (-1))" "fst (ext2_dir_lookup 2 (lit ''..'') small_fs) = Inr 2"
    using dir_lookup_result [OF d] by (simp_all add: l small_root)
  have "block_free small_fs 8" by (simp add: small_free)
  then show ?thesis
    using ext2_dir_insert_updates [OF small_root(1) _ _ _ lk(1), of 11 2] lk
    by (auto simp: l small_root split: prod.splits sum.splits)
qed

text \<open>C28. Directories are maps: removal. Removing a name from a well-formed directory succeeds exactly if
  the name can be looked up, makes its lookup fail, leaves the lookup of every other name as it was,
  and keeps the directory well-formed.\<close>

theorem ext2_dir_remove_updates:
  assumes "directory s ino" and "length name < 256"
  shows "\<exists>r t. ext2_dir_remove ino name s = (r, t) \<and> directory t ino \<and>
    (r = Inr () \<longleftrightarrow> fst (ext2_dir_lookup ino name s) \<noteq> Inl (Errno (-1))) \<and>
    (\<forall>n. length n < 256 \<longrightarrow>
       fst (ext2_dir_lookup ino n t) = (if n = name then Inl (Errno (-1)) else fst (ext2_dir_lookup ino n s)))"
proof -
  obtain r t where t: "ext2_dir_remove ino name s = (r, t)" "directory t ino"
      "r = (if name \<in> fst ` set (dir_entries s ino) then Inr () else Inl io_error)"
      "map_of (dir_entries t ino) = (map_of (dir_entries s ino))(name := None)"
    using dir_remove_law [OF assms] by blast
  have "fst (ext2_dir_lookup ino name s) \<noteq> Inl (Errno (-1)) \<longleftrightarrow> name \<in> fst ` set (dir_entries s ino)"
    using assms map_of_eq_None_iff [of "dir_entries s ino" name]
    by (cases "map_of (dir_entries s ino) name") (simp_all add: directory_def dir_lookup_result)
  then show ?thesis using t assms by (auto simp: directory_def dir_lookup_result)
qed

theorem ext2_dir_remove_updates_witness:
  "\<exists>t. ext2_dir_remove 2 (lit ''..'') small_fs = (Inr (), t) \<and> fst (ext2_dir_lookup 2 (lit ''..'') t) = Inl (Errno (-1)) \<and>
     fst (ext2_dir_lookup 2 (lit ''.'') t) = Inr 2"
proof -
  have d: "dir_shape small_fs 2" using small_root(1) by (simp add: directory_def)
  have l: "lit ''..'' = [46, 46]" "lit ''.'' = [46]" by (simp_all add: lit_def)
  have lk: "fst (ext2_dir_lookup 2 (lit ''..'') small_fs) = Inr 2" "fst (ext2_dir_lookup 2 (lit ''.'') small_fs) = Inr 2"
    using dir_lookup_result [OF d] by (simp_all add: l small_root)
  show ?thesis
    using ext2_dir_remove_updates [OF small_root(1), of "lit ''..''"] lk by (auto simp: l)
qed

end
