(* ===== verification/Keyboard.thy ===== *)
theory Keyboard
  imports Prelude
begin

unbundle bit_operations_syntax

text \<open>
  The keyboard driver, \<^verbatim>\<open>drivers/keyboard.c\<close>. Scan codes arrive one per interrupt; they move
  the modifier state or put a key into a ring buffer of 128 slots, from which the rest of the
  system takes keys. Reading the data port is an argument of the interrupt handler. Waiting for
  a key consumes the interrupts that arrive meanwhile, and not returning is \<^const>\<open>None\<close>.
\<close>

section \<open>Keys\<close>

abbreviation "KEY_NONE \<equiv> 0 :: int"
abbreviation "KEY_BACKSPACE \<equiv> 8 :: int"
abbreviation "KEY_TAB \<equiv> 9 :: int"
abbreviation "KEY_ENTER \<equiv> 10 :: int"
abbreviation "KEY_ESCAPE \<equiv> 27 :: int"
abbreviation "KEY_UP \<equiv> 0x101 :: int"
abbreviation "KEY_DOWN \<equiv> 0x102 :: int"
abbreviation "KEY_LEFT \<equiv> 0x103 :: int"
abbreviation "KEY_RIGHT \<equiv> 0x104 :: int"
abbreviation "KEY_HOME \<equiv> 0x105 :: int"
abbreviation "KEY_END \<equiv> 0x106 :: int"
abbreviation "KEY_PAGE_UP \<equiv> 0x107 :: int"
abbreviation "KEY_PAGE_DOWN \<equiv> 0x108 :: int"
abbreviation "KEY_DELETE \<equiv> 0x109 :: int"
abbreviation "KEY_CTRL_S \<equiv> 0x10A :: int"
abbreviation "KEY_CTRL_Q \<equiv> 0x10B :: int"
abbreviation "KEY_CTRL_F \<equiv> 0x10C :: int"
abbreviation "KEY_CTRL_C \<equiv> 0x10D :: int"

abbreviation (input) keys :: "string \<Rightarrow> int list" where
  "keys s \<equiv> map of_char s"

definition normal_map :: "int list" where
  "normal_map = [0, KEY_ESCAPE] @ keys ''1234567890-='' @ [KEY_BACKSPACE, KEY_TAB] @ keys ''qwertyuiop[]'' @ [KEY_ENTER, 0] @
     keys ''asdfghjkl;'' @ [0x27, 0x60, 0, 0x5C] @ keys ''zxcvbnm,./'' @ [0, 0, 0, 32] @ replicate 70 0"

definition shift_map :: "int list" where
  "shift_map = [0, KEY_ESCAPE] @ keys ''!@#$%^&*()_+'' @ [KEY_BACKSPACE, KEY_TAB] @ keys ''QWERTYUIOP{}'' @ [KEY_ENTER, 0] @
     keys ''ASDFGHJKL:'' @ [0x22, 0x7E, 0, 0x7C] @ keys ''ZXCVBNM<>?'' @ [0, 0, 0, 32] @ replicate 70 0"

definition extended_key :: "u8 \<Rightarrow> int" where
  "extended_key scancode =
     (if scancode = 0x48 then KEY_UP
      else if scancode = 0x50 then KEY_DOWN
      else if scancode = 0x4B then KEY_LEFT
      else if scancode = 0x4D then KEY_RIGHT
      else if scancode = 0x47 then KEY_HOME
      else if scancode = 0x4F then KEY_END
      else if scancode = 0x49 then KEY_PAGE_UP
      else if scancode = 0x51 then KEY_PAGE_DOWN
      else if scancode = 0x53 then KEY_DELETE
      else KEY_NONE)"

section \<open>State and operations\<close>

record keyboard =
  keybuf :: "int list"
  key_head :: u32
  key_tail :: u32
  shift_down :: bool
  ctrl_down :: bool
  alt_down :: bool
  caps_lock :: bool
  extended :: bool

definition push_key :: "int \<Rightarrow> keyboard \<Rightarrow> keyboard" where
  "push_key key k =
     (let nxt = (key_head k + 1) mod 128 in
      if nxt \<noteq> key_tail k then k\<lparr>keybuf := (keybuf k)[unat (key_head k) := key], key_head := nxt\<rparr> else k)"

definition apply_caps :: "int \<Rightarrow> keyboard \<Rightarrow> int" where
  "apply_caps ch k =
     (if of_char CHR ''a'' \<le> ch \<and> ch \<le> of_char CHR ''z'' \<and> caps_lock k then ch - 32
      else if of_char CHR ''A'' \<le> ch \<and> ch \<le> of_char CHR ''Z'' \<and> caps_lock k \<and> \<not> shift_down k then ch + 32
      else ch)"

definition apply_ctrl :: "int \<Rightarrow> keyboard \<Rightarrow> int" where
  "apply_ctrl ch k =
     (if ctrl_down k then
        if ch = of_char CHR ''s'' \<or> ch = of_char CHR ''S'' then KEY_CTRL_S
        else if ch = of_char CHR ''q'' \<or> ch = of_char CHR ''Q'' then KEY_CTRL_Q
        else if ch = of_char CHR ''f'' \<or> ch = of_char CHR ''F'' then KEY_CTRL_F
        else if ch = of_char CHR ''c'' \<or> ch = of_char CHR ''C'' then KEY_CTRL_C
        else ch
      else ch)"

definition keyboard_irq :: "u8 \<Rightarrow> keyboard \<Rightarrow> keyboard" where
  "keyboard_irq inb k =
     (if inb = 0xE0 then k\<lparr>extended := True\<rparr>
      else
        let released = inb AND 0x80 \<noteq> 0; sc = inb AND 0x7F in
        if extended k then (if \<not> released then push_key (extended_key sc) k else k)\<lparr>extended := False\<rparr>
        else if sc = 0x2A \<or> sc = 0x36 then k\<lparr>shift_down := \<not> released\<rparr>
        else if sc = 0x1D then k\<lparr>ctrl_down := \<not> released\<rparr>
        else if sc = 0x38 then k\<lparr>alt_down := \<not> released\<rparr>
        else if released then k
        else if sc = 0x3A then k\<lparr>caps_lock := \<not> caps_lock k\<rparr>
        else
          let ch = (if shift_down k then shift_map else normal_map) ! unat sc;
              ch = apply_ctrl (apply_caps ch k) k
          in if ch \<noteq> 0 then push_key ch k else k)"

definition keyboard_try_getkey :: "keyboard \<Rightarrow> int \<times> keyboard" where
  "keyboard_try_getkey k =
     (if key_head k = key_tail k then (KEY_NONE, k)
      else (keybuf k ! unat (key_tail k), k\<lparr>key_tail := (key_tail k + 1) mod 128\<rparr>))"

text \<open>The processor halts until an interrupt: a scan code, or one of another device.\<close>

datatype irq = Scan u8 | Other_irq

fun keyboard_getkey :: "irq list \<Rightarrow> keyboard \<Rightarrow> (int \<times> irq list \<times> keyboard) option" where
  "keyboard_getkey irqs k =
     (case keyboard_try_getkey k of
        (key, k) \<Rightarrow>
          if key \<noteq> KEY_NONE then Some (key, irqs, k)
          else case irqs of
            [] \<Rightarrow> None
          | Scan sc # irqs' \<Rightarrow> keyboard_getkey irqs' (keyboard_irq sc k)
          | Other_irq # irqs' \<Rightarrow> keyboard_getkey irqs' k)"

declare keyboard_getkey.simps [simp del]

definition keyboard_ctrl_down :: "keyboard \<Rightarrow> bool" where
  "keyboard_ctrl_down k = ctrl_down k"

text \<open>The state at start.\<close>

definition keyboard_zero :: keyboard where
  "keyboard_zero = \<lparr>keybuf = replicate 128 0, key_head = 0, key_tail = 0, shift_down = False, ctrl_down = False,
     alt_down = False, caps_lock = False, extended = False\<rparr>"

section \<open>The ring buffer is a bounded queue\<close>

definition ring_ok :: "keyboard \<Rightarrow> bool" where
  "ring_ok k \<longleftrightarrow> length (keybuf k) = 128 \<and> key_head k < 128 \<and> key_tail k < 128"

definition held :: "keyboard \<Rightarrow> nat" where
  "held k = (unat (key_head k) + 128 - unat (key_tail k)) mod 128"

definition queued :: "keyboard \<Rightarrow> int list" where
  "queued k = map (\<lambda>i. keybuf k ! ((unat (key_tail k) + i) mod 128)) [0..<held k]"

text \<open>Sequences of operations on a queue, and what a list of bounded length makes of them.\<close>

datatype 'k queue_op = Put 'k | Get

fun queue_run :: "('k \<Rightarrow> 's \<Rightarrow> 's) \<Rightarrow> ('s \<Rightarrow> 'k \<times> 's) \<Rightarrow> 'k queue_op list \<Rightarrow> 's \<Rightarrow> 'k list" where
  "queue_run put get [] s = []"
| "queue_run put get (Put x # ops) s = queue_run put get ops (put x s)"
| "queue_run put get (Get # ops) s = (case get s of (x, s) \<Rightarrow> x # queue_run put get ops s)"

fun queue_spec :: "nat \<Rightarrow> 'k \<Rightarrow> 'k queue_op list \<Rightarrow> 'k list \<Rightarrow> 'k list" where
  "queue_spec capacity none [] q = []"
| "queue_spec capacity none (Put x # ops) q = queue_spec capacity none ops (if length q < capacity then q @ [x] else q)"
| "queue_spec capacity none (Get # ops) [] = none # queue_spec capacity none ops []"
| "queue_spec capacity none (Get # ops) (y # q) = y # queue_spec capacity none ops q"

locale bounded_queue =
  fixes put :: "'k \<Rightarrow> 's \<Rightarrow> 's" and get :: "'s \<Rightarrow> 'k \<times> 's" and ok :: "'s \<Rightarrow> bool" and contents :: "'s \<Rightarrow> 'k list"
    and capacity :: nat and none :: 'k
  assumes put_law: "ok s \<Longrightarrow> ok (put x s) \<and> contents (put x s) = (if length (contents s) < capacity then contents s @ [x] else contents s)"
    and get_law: "ok s \<Longrightarrow> ok (snd (get s)) \<and> contents (snd (get s)) = tl (contents s) \<and>
      fst (get s) = (case contents s of [] \<Rightarrow> none | x # xs \<Rightarrow> x)"
begin

lemma run_spec: "ok s \<Longrightarrow> queue_run put get ops s = queue_spec capacity none ops (contents s)"
proof (induction ops arbitrary: s)
  case (Cons a ops)
  show ?case
  proof (cases a)
    case (Put x)
    then show ?thesis using Cons put_law [OF Cons.prems, of x] by simp
  next
    case Get
    then show ?thesis using Cons.IH [of "snd (get s)"] get_law [OF Cons.prems]
      by (cases "contents s") (simp_all add: case_prod_unfold)
  qed
qed simp

end

lemma ring_pos:
  assumes "ring_ok k"
  shows "unat (key_head k) < 128" "unat (key_tail k) < 128" "unat ((key_head k + 1) mod 128) = (unat (key_head k) + 1) mod 128"
    "unat ((key_tail k + 1) mod 128) = (unat (key_tail k) + 1) mod 128" "length (queued k) = held k"
proof -
  show h: "unat (key_head k) < 128" "unat (key_tail k) < 128" "length (queued k) = held k"
    using assms by (simp_all add: ring_ok_def word_less_nat_alt queued_def)
  show "unat ((key_head k + 1) mod 128) = (unat (key_head k) + 1) mod 128"
    "unat ((key_tail k + 1) mod 128) = (unat (key_tail k) + 1) mod 128"
    using h by (simp_all add: unat_mod unat_word_ariths)
qed

lemma ring_diff:
  fixes h t :: nat
  assumes "h < 128" "t < 128"
  shows "(h + 128 - t) mod 128 = (if t \<le> h then h - t else h + 128 - t)" "(h + 1) mod 128 = (if h = 127 then 0 else h + 1)"
    "(h + t) mod 128 = (if h + t < 128 then h + t else h + t - 128)"
  using assms by (auto simp: le_mod_geq)

lemma held_push:
  fixes h t :: nat
  assumes "h < 128" "t < 128"
  shows "(h + 1) mod 128 \<noteq> t \<longleftrightarrow> (h + 128 - t) mod 128 < 127"
    and "(h + 1) mod 128 \<noteq> t \<Longrightarrow> ((h + 1) mod 128 + 128 - t) mod 128 = Suc ((h + 128 - t) mod 128)"
    and "(t + (h + 128 - t) mod 128) mod 128 = h"
    and "h \<noteq> t \<longleftrightarrow> 0 < (h + 128 - t) mod 128"
    and "h \<noteq> t \<Longrightarrow> Suc ((h + 128 - (t + 1) mod 128) mod 128) = (h + 128 - t) mod 128"
proof -
  note d = ring_diff [OF assms] ring_diff(2) [OF assms(2,1)]
  show "(h + 1) mod 128 \<noteq> t \<longleftrightarrow> (h + 128 - t) mod 128 < 127"
    unfolding d using assms by auto
  show "((h + 1) mod 128 + 128 - t) mod 128 = Suc ((h + 128 - t) mod 128)" if "(h + 1) mod 128 \<noteq> t"
    using that assms unfolding d(1,2) by (subst ring_diff(1)) auto
  show "(t + (h + 128 - t) mod 128) mod 128 = h"
    unfolding d(1) using assms by (subst ring_diff(3)) auto
  show "h \<noteq> t \<longleftrightarrow> 0 < (h + 128 - t) mod 128"
    unfolding d using assms by auto
  show "Suc ((h + 128 - (t + 1) mod 128) mod 128) = (h + 128 - t) mod 128" if "h \<noteq> t"
    using that assms unfolding d(1,4) by (subst ring_diff(1)) auto
qed

lemma push_key_law:
  assumes k: "ring_ok k"
  shows "ring_ok (push_key x k) \<and>
    queued (push_key x k) = (if length (queued k) < 127 then queued k @ [x] else queued k)"
proof -
  note p = ring_pos [OF k] and hp = held_push [OF ring_pos(1,2) [OF k]]
  have eq: "(key_head k + 1) mod 128 = key_tail k \<longleftrightarrow> (unat (key_head k) + 1) mod 128 = unat (key_tail k)"
    using p(3) word_unat_eq_iff [of "(key_head k + 1) mod 128" "key_tail k"] by simp
  show ?thesis
  proof (cases "held k < 127")
    case True
    let ?k = "push_key x k"
    have n: "(key_head k + 1) mod 128 \<noteq> key_tail k" using True hp(1) eq by (simp add: held_def)
    then have k': "?k = k\<lparr>keybuf := (keybuf k)[unat (key_head k) := x], key_head := (key_head k + 1) mod 128\<rparr>"
      by (simp add: push_key_def)
    have h': "held ?k = Suc (held k)" using n hp(2) eq p(3) by (simp add: k' held_def)
    have slot: "unat (key_head k) = (unat (key_tail k) + i) mod 128 \<longleftrightarrow> i = held k" if "i \<le> held k" for i
      using that hp(3) True p(1,2) ring_diff(3) [of "unat (key_tail k)" i] ring_diff(3) [of "unat (key_tail k)" "held k"]
      by (auto simp: held_def [symmetric] split: if_splits)
    have "queued ?k = queued k @ [x]"
      using k p slot unfolding queued_def h' by (simp add: k' ring_ok_def nth_list_update)
    moreover have "ring_ok ?k" using k p by (simp add: k' ring_ok_def word_less_nat_alt)
    ultimately show ?thesis using True p(5) by simp
  next
    case False
    then have "push_key x k = k" using hp(1) eq by (simp add: push_key_def held_def)
    then show ?thesis using False k p(5) by simp
  qed
qed

lemma keyboard_try_getkey_law:
  assumes k: "ring_ok k"
  shows "ring_ok (snd (keyboard_try_getkey k)) \<and> queued (snd (keyboard_try_getkey k)) = tl (queued k) \<and>
    fst (keyboard_try_getkey k) = (case queued k of [] \<Rightarrow> KEY_NONE | x # xs \<Rightarrow> x)"
proof -
  note p = ring_pos [OF k] and hp = held_push [OF ring_pos(1,2) [OF k]]
  show ?thesis
  proof (cases "key_head k = key_tail k")
    case True
    then have "queued k = []" using hp(4) by (simp add: queued_def held_def)
    then show ?thesis using True k by (simp add: keyboard_try_getkey_def)
  next
    case False
    then have ne: "unat (key_head k) \<noteq> unat (key_tail k)" using word_unat_eq_iff by blast
    let ?k = "k\<lparr>key_tail := (key_tail k + 1) mod 128\<rparr>"
    have h: "held k = Suc (held ?k)" using hp(5) [OF ne] p(4) by (simp add: held_def)
    have m: "((unat (key_tail k) + 1) mod 128 + i) mod 128 = (unat (key_tail k) + Suc i) mod 128" for i
      by (simp add: mod_simps)
    have "queued k = keybuf k ! unat (key_tail k) # queued ?k"
      using p(2,4) m unfolding queued_def h upt_conv_Cons [OF zero_less_Suc] map_Suc_upt [symmetric] by simp
    moreover have "ring_ok ?k" using k p by (simp add: ring_ok_def word_less_nat_alt)
    ultimately show ?thesis using False by (simp add: keyboard_try_getkey_def)
  qed
qed

interpretation kbq: bounded_queue push_key keyboard_try_getkey ring_ok queued 127 KEY_NONE
  by unfold_locales (simp_all add: push_key_law keyboard_try_getkey_law)

text \<open>An interrupt queues at most one key, and only flags change besides.\<close>

lemma queued_flags [simp]:
  "queued (k\<lparr>shift_down := b\<rparr>) = queued k" "queued (k\<lparr>ctrl_down := b\<rparr>) = queued k" "queued (k\<lparr>alt_down := b\<rparr>) = queued k"
  "queued (k\<lparr>caps_lock := b\<rparr>) = queued k" "queued (k\<lparr>extended := b\<rparr>) = queued k"
  "ring_ok (k\<lparr>shift_down := b\<rparr>) = ring_ok k" "ring_ok (k\<lparr>ctrl_down := b\<rparr>) = ring_ok k" "ring_ok (k\<lparr>alt_down := b\<rparr>) = ring_ok k"
  "ring_ok (k\<lparr>caps_lock := b\<rparr>) = ring_ok k" "ring_ok (k\<lparr>extended := b\<rparr>) = ring_ok k"
  by (simp_all add: queued_def held_def ring_ok_def)

lemma keyboard_irq_queue:
  assumes "ring_ok k"
  shows "ring_ok (keyboard_irq sc k) \<and>
    (queued (keyboard_irq sc k) = queued k \<or> (\<exists>x. queued (keyboard_irq sc k) = queued k @ [x]))"
  using push_key_law [OF assms] assms by (auto simp: keyboard_irq_def Let_def)

text \<open>Waiting returns the oldest key, and with no key pending the first one that an interrupt brings.\<close>

lemma keyboard_getkey_pending:
  assumes "ring_ok k" and "queued k = x # xs" and "x \<noteq> KEY_NONE"
  shows "\<exists>k'. keyboard_getkey irqs k = Some (x, irqs, k') \<and> ring_ok k' \<and> queued k' = xs"
  using keyboard_try_getkey_law [OF assms(1)] assms(2,3)
  by (subst keyboard_getkey.simps) (auto simp: case_prod_unfold)

lemma keyboard_getkey_waits:
  assumes "ring_ok k" and "queued k = []" and "queued (keyboard_irq sc k) = [x]" and "x \<noteq> KEY_NONE"
  shows "\<exists>k'. keyboard_getkey (replicate n Other_irq @ Scan sc # irqs) k = Some (x, irqs, k') \<and> queued k' = []"
proof -
  have e: "key_head k = key_tail k"
    using assms(1,2) held_push(4) [OF ring_pos(1,2) [OF assms(1)]] word_unat_eq_iff [of "key_head k" "key_tail k"]
    by (auto simp: queued_def held_def)
  have "keyboard_getkey (replicate n Other_irq @ Scan sc # irqs) k = keyboard_getkey (Scan sc # irqs) k"
  proof (induction n)
    case (Suc n)
    then show ?case using e by (subst keyboard_getkey.simps) (simp add: keyboard_try_getkey_def)
  qed simp
  also have "\<dots> = keyboard_getkey irqs (keyboard_irq sc k)"
    using e by (subst keyboard_getkey.simps) (simp add: keyboard_try_getkey_def)
  finally show ?thesis
    using keyboard_getkey_pending [of "keyboard_irq sc k" x "[]" irqs] keyboard_irq_queue [OF assms(1), of sc] assms(3,4) by auto
qed

lemma keyboard_zero_ok: "ring_ok keyboard_zero" "queued keyboard_zero = []"
  by (simp_all add: keyboard_zero_def ring_ok_def queued_def held_def)

text \<open>C34. The key buffer is a queue. Whatever keys are pushed and taken in whatever order since boot, the
  keys that come out, and when none comes out, are those of a first-in first-out queue that holds
  127 keys and drops a key that arrives while it is full: the wrapping of the two indices never
  loses, repeats or reorders a key.\<close>

theorem keyboard_fifo:
  "queue_run push_key keyboard_try_getkey ops keyboard_zero = queue_spec 127 KEY_NONE ops []"
  using kbq.run_spec [OF keyboard_zero_ok(1)] by (simp add: keyboard_zero_ok)

end
