(* ===== verification/Vga.thy ===== *)
theory Vga
  imports Fallible
begin

unbundle bit_operations_syntax

text \<open>
  The text display and the serial line: \<^verbatim>\<open>drivers/vga.c\<close> and \<^verbatim>\<open>drivers/serial.c\<close>. The screen
  memory is the list of its 2000 cells, and an access outside it is an \<^const>\<open>Overflow\<close>, as is
  one outside the buffer of an escape sequence. What the drivers write to I/O ports is kept in
  order. The recursion of \<open>vga_putc\<close> for tabs may in principle not end, so that printing returns
  an option.
\<close>

section \<open>State\<close>

record vga =
  vga_memory :: "u16 list"
  row :: nat
  col :: nat
  color :: u8
  esc_state :: nat
  esc_buf :: bytes
  esc_len :: nat
  serial_ready :: bool
  ports :: "(u16 \<times> u8) list"

abbreviation "VGA_WIDTH \<equiv> 80 :: nat"
abbreviation "VGA_HEIGHT \<equiv> 25 :: nat"
abbreviation "VGA_BLACK \<equiv> 0 :: u8"
abbreviation "VGA_LIGHT_GREY \<equiv> 7 :: u8"

definition outb :: "u16 \<Rightarrow> u8 \<Rightarrow> vga \<Rightarrow> vga" where
  "outb p v s = s\<lparr>ports := ports s @ [(p, v)]\<rparr>"

definition peek :: "nat \<Rightarrow> (u16, vga) op" where
  "peek i s = (if i < length (vga_memory s) then (Inr (vga_memory s ! i), s) else (Inl Overflow, s))"

definition poke :: "nat \<Rightarrow> u16 \<Rightarrow> (unit, vga) op" where
  "poke i v s = (if i < length (vga_memory s) then (Inr (), s\<lparr>vga_memory := (vga_memory s)[i := v]\<rparr>) else (Inl Overflow, s))"

section \<open>The serial line\<close>

abbreviation "COM1 \<equiv> 0x3F8 :: u16"

definition serial_init :: "vga \<Rightarrow> vga" where
  "serial_init s =
     (fold (\<lambda>(p, v). outb p v)
        [(COM1 + 1, 0x00), (COM1 + 3, 0x80), (COM1 + 0, 0x03), (COM1 + 1, 0x00), (COM1 + 3, 0x03), (COM1 + 2, 0xC7), (COM1 + 4, 0x0B)]
        s)\<lparr>serial_ready := True\<rparr>"

definition serial_putc :: "u8 \<Rightarrow> vga \<Rightarrow> vga" where
  "serial_putc c s =
     (if \<not> serial_ready s then s else outb COM1 c (if c = 10 then outb COM1 13 s else s))"

definition serial_write :: "bytes \<Rightarrow> vga \<Rightarrow> vga" where
  "serial_write str = fold serial_putc str"

function uint_tmp :: "u32 \<Rightarrow> nat \<Rightarrow> bytes" where
  "uint_tmp value len =
     (if value \<noteq> 0 \<and> len < 12 then (48 + ucast (value mod 10)) # uint_tmp (value div 10) (len + 1) else [])"
  by pat_completeness auto

termination
  by (relation "measure (\<lambda>(value, len). 12 - len)") auto

declare uint_tmp.simps [simp del]

definition serial_write_uint :: "u32 \<Rightarrow> vga \<Rightarrow> vga" where
  "serial_write_uint value = (if value = 0 then serial_putc 48 else fold serial_putc (rev (uint_tmp value 0)))"

definition serial_clear :: "vga \<Rightarrow> vga" where
  "serial_clear = serial_write ([27] @ lit ''[2J'' @ [27] @ lit ''[H'')"

definition serial_erase_line :: "vga \<Rightarrow> vga" where
  "serial_erase_line = serial_write ([27] @ lit ''[K'')"

definition serial_move_cursor :: "u32 \<Rightarrow> u32 \<Rightarrow> vga \<Rightarrow> vga" where
  "serial_move_cursor r c s =
     serial_putc (of_char CHR ''H'') (serial_write_uint (c + 1) (serial_putc (of_char CHR '';'')
       (serial_write_uint (r + 1) (serial_putc (of_char CHR ''['') (serial_putc 27 s)))))"

section \<open>The screen\<close>

definition vga_entry :: "u8 \<Rightarrow> u8 \<Rightarrow> u16" where
  "vga_entry c entry_color = scast c OR push_bit 8 (ucast entry_color)"

definition make_color :: "u8 \<Rightarrow> u8 \<Rightarrow> u8" where
  "make_color fg bg = fg OR push_bit 4 bg"

definition update_cursor :: "vga \<Rightarrow> vga" where
  "update_cursor s =
     (let p = word_of_nat (row s * VGA_WIDTH + col s) :: u16 in
      outb 0x3D5 (ucast (drop_bit 8 p)) (outb 0x3D4 0x0E (outb 0x3D5 (ucast p) (outb 0x3D4 0x0F s))))"

definition scroll :: "(unit, vga) op" where
  "scroll s =
     (if row s < VGA_HEIGHT then (Inr (), s)
      else bindE (forE [1..<VGA_HEIGHT] (\<lambda>y. forE [0..<VGA_WIDTH] (\<lambda>x.
             bindE (peek (y * VGA_WIDTH + x)) (poke ((y - 1) * VGA_WIDTH + x))))) (\<lambda>_.
           bindE (forE [0..<VGA_WIDTH] (\<lambda>x s. poke ((VGA_HEIGHT - 1) * VGA_WIDTH + x) (vga_entry 32 (color s)) s)) (\<lambda>_.
           modifyE (row_update (\<lambda>_. VGA_HEIGHT - 1)))) s)"

definition newline :: "(unit, vga) op" where
  "newline s = scroll (s\<lparr>col := 0, row := row s + 1\<rparr>)"

definition erase_current_line :: "(unit, vga) op" where
  "erase_current_line =
     bindE (modifyE serial_erase_line) (\<lambda>_.
     bindE (forE [0..<VGA_WIDTH] (\<lambda>x s. poke (row s * VGA_WIDTH + x) (vga_entry 32 (color s)) s)) (\<lambda>_.
     modifyE (col_update (\<lambda>_. 0))))"

definition sgr_color :: "u32 \<Rightarrow> bool \<Rightarrow> u8 \<Rightarrow> u8" where
  "sgr_color v have_value c =
     (if \<not> have_value \<or> v = 0 then make_color VGA_LIGHT_GREY VGA_BLACK
      else if 30 \<le> v \<and> v \<le> 37 then make_color (ucast (v - 30)) (drop_bit 4 c)
      else if 90 \<le> v \<and> v \<le> 97 then make_color (ucast (v - 90 + 8)) (drop_bit 4 c)
      else if 40 \<le> v \<and> v \<le> 47 then make_color (c AND 0x0F) (ucast (v - 40))
      else c)"

text \<open>The number of a parameter is a 32-bit integer that wraps; only its small values matter.\<close>

fun ansi_sgr :: "bytes \<Rightarrow> u32 \<Rightarrow> bool \<Rightarrow> (unit, vga) op" where
  "ansi_sgr [] v have_value = fail Overflow"
| "ansi_sgr (c # seq) v have_value =
     (if 48 \<le> c \<and> c \<le> 57 then ansi_sgr seq (v * 10 + ucast (c - 48)) True
      else if c = of_char CHR '';'' then
        bindE (modifyE (\<lambda>s. s\<lparr>color := sgr_color v have_value (color s)\<rparr>)) (\<lambda>_. ansi_sgr seq 0 False)
      else if c = of_char CHR ''m'' \<or> c = 0 then modifyE (\<lambda>s. s\<lparr>color := sgr_color v have_value (color s)\<rparr>)
      else ansi_sgr seq v have_value)"

definition vga_clear :: "(unit, vga) op" where
  "vga_clear =
     bindE (modifyE serial_clear) (\<lambda>_.
     bindE (forE [0..<VGA_HEIGHT] (\<lambda>y. forE [0..<VGA_WIDTH] (\<lambda>x s. poke (y * VGA_WIDTH + x) (vga_entry 32 (color s)) s))) (\<lambda>_.
     modifyE (\<lambda>s. update_cursor (s\<lparr>row := 0, col := 0, esc_state := 0, esc_len := 0\<rparr>))))"

definition put_esc :: "nat \<Rightarrow> u8 \<Rightarrow> (unit, vga) op" where
  "put_esc i c s = (if i < length (esc_buf s) then (Inr (), s\<lparr>esc_buf := (esc_buf s)[i := c]\<rparr>) else (Inl Overflow, s))"

definition ansi_execute :: "(unit, vga) op" where
  "ansi_execute =
     bindE (\<lambda>s. put_esc (esc_len s) 0 s) (\<lambda>_.
     bindE (\<lambda>s.
       let final = (if esc_len s \<noteq> 0 then esc_buf s ! (esc_len s - 1) else 0) in
       if final = of_char CHR ''m'' then ansi_sgr (esc_buf s) 0 False s
       else if final = of_char CHR ''J'' then vga_clear s
       else if final = of_char CHR ''K'' then erase_current_line s
       else if final = of_char CHR ''H'' then (Inr (), s\<lparr>row := 0, col := 0\<rparr>)
       else (Inr (), s)) (\<lambda>_.
     modifyE (\<lambda>s. s\<lparr>esc_state := 0, esc_len := 0\<rparr>)))"

definition vga_init :: "(unit, vga) op" where
  "vga_init =
     bindE (modifyE (\<lambda>s. s\<lparr>color := make_color VGA_LIGHT_GREY VGA_BLACK, row := 0, col := 0, esc_state := 0, esc_len := 0\<rparr>)) (\<lambda>_.
     vga_clear)"

text \<open>A character inside an escape sequence, and one to be shown.\<close>

definition esc_char :: "u8 \<Rightarrow> (unit, vga) op" where
  "esc_char c =
     bindE (\<lambda>s. if esc_len s + 1 < 16
                 then bindE (put_esc (esc_len s) c) (\<lambda>_. modifyE (esc_len_update Suc)) s else (Inr (), s)) (\<lambda>_ s.
     if (0x40 \<le> c \<and> c \<le> 0x7E) \<or> 16 \<le> esc_len s + 1 then ansi_execute s else (Inr (), s))"

definition show_char :: "u8 \<Rightarrow> (unit, vga) op" where
  "show_char c s =
     (if c = 10 then newline s
      else if c = 13 then (Inr (), s\<lparr>col := 0\<rparr>)
      else if c = 8 then
        let s = (if 0 < col s then s\<lparr>col := col s - 1\<rparr>
                 else if 0 < row s then s\<lparr>row := row s - 1, col := VGA_WIDTH - 1\<rparr> else s)
        in poke (row s * VGA_WIDTH + col s) (vga_entry 32 (color s)) s
      else
        bindE (poke (row s * VGA_WIDTH + col s) (vga_entry c (color s))) (\<lambda>_ s.
        let s = s\<lparr>col := col s + 1\<rparr> in if col s = VGA_WIDTH then newline s else (Inr (), s)) s)"

datatype print_step = Putc u8 | Tab_loop

partial_function (option) vga_print :: "print_step \<Rightarrow> vga \<Rightarrow> ((err + unit) \<times> vga) option" where
  "vga_print p s =
     (case p of
        Putc c \<Rightarrow>
          let s = serial_putc c s in
          if esc_state s = 1 \<and> c = of_char CHR ''['' then Some (Inr (), s\<lparr>esc_state := 2, esc_len := 0\<rparr>)
          else if esc_state s = 2 then Some (esc_char c s)
          else
            let s = (if esc_state s = 1 then s\<lparr>esc_state := 0\<rparr> else s) in
            if c = 27 then Some (Inr (), s\<lparr>esc_state := 1\<rparr>)
            else if c = 9 then
              Option.bind (vga_print Tab_loop s) (\<lambda>r. Some (case r of (Inl e, s) \<Rightarrow> (Inl e, s) | (Inr _, s) \<Rightarrow> (Inr (), update_cursor s)))
            else Some (bindE (show_char c) (\<lambda>_. modifyE update_cursor) s)
      | Tab_loop \<Rightarrow>
          Option.bind (vga_print (Putc 32) s) (\<lambda>r.
            case r of
              (Inl e, s) \<Rightarrow> Some (Inl e, s)
            | (Inr _, s) \<Rightarrow> if col s mod 4 \<noteq> 0 then vga_print Tab_loop s else Some (Inr (), s)))"

definition vga_putc :: "u8 \<Rightarrow> vga \<Rightarrow> ((err + unit) \<times> vga) option" where
  "vga_putc c = vga_print (Putc c)"

fun vga_write_len :: "bytes \<Rightarrow> vga \<Rightarrow> ((err + unit) \<times> vga) option" where
  "vga_write_len [] s = Some (Inr (), s)"
| "vga_write_len (c # str) s =
     Option.bind (vga_putc c s) (\<lambda>r. case r of (Inl e, s) \<Rightarrow> Some (Inl e, s) | (Inr _, s) \<Rightarrow> vga_write_len str s)"

text \<open>A string here is the bytes before its terminator.\<close>

definition vga_write :: "bytes \<Rightarrow> vga \<Rightarrow> ((err + unit) \<times> vga) option" where
  "vga_write str = vga_write_len str"

definition vga_set_color :: "u8 \<Rightarrow> u8 \<Rightarrow> vga \<Rightarrow> vga" where
  "vga_set_color fg bg s = s\<lparr>color := make_color fg bg\<rparr>"

definition vga_color :: "vga \<Rightarrow> u8" where
  "vga_color s = color s"

definition vga_get_cursor :: "vga \<Rightarrow> nat \<times> nat" where
  "vga_get_cursor s = (row s, col s)"

definition clamp_cursor :: "nat \<Rightarrow> nat \<Rightarrow> vga \<Rightarrow> vga" where
  "clamp_cursor new_row new_col s =
     s\<lparr>row := (if new_row \<ge> VGA_HEIGHT then VGA_HEIGHT - 1 else new_row),
       col := (if new_col \<ge> VGA_WIDTH then VGA_WIDTH - 1 else new_col)\<rparr>"

definition serial_follow :: "vga \<Rightarrow> vga" where
  "serial_follow s = serial_move_cursor (word_of_nat (row s)) (word_of_nat (col s)) s"

definition vga_goto :: "nat \<Rightarrow> nat \<Rightarrow> vga \<Rightarrow> vga" where
  "vga_goto new_row new_col s = serial_follow (clamp_cursor new_row new_col s)"

definition vga_erase_eol :: "(unit, vga) op" where
  "vga_erase_eol =
     bindE (modifyE serial_erase_line) (\<lambda>_ s.
     forE [col s..<VGA_WIDTH] (\<lambda>x s. poke (row s * VGA_WIDTH + x) (vga_entry 32 (color s)) s) s)"

definition vga_set_cursor :: "nat \<Rightarrow> nat \<Rightarrow> vga \<Rightarrow> vga" where
  "vga_set_cursor new_row new_col s = update_cursor (serial_follow (clamp_cursor new_row new_col s))"

definition vga_move_cursor_rel :: "int \<Rightarrow> int \<Rightarrow> vga \<Rightarrow> vga" where
  "vga_move_cursor_rel drow dcol s =
     (let nr = int (row s) + drow; nc = int (col s) + dcol;
          nr = (if nr < 0 then 0 else nr);
          nc = (if nc < 0 then 0 else nc);
          nr = (if nr \<ge> int VGA_HEIGHT then int VGA_HEIGHT - 1 else nr);
          nc = (if nc \<ge> int VGA_WIDTH then int VGA_WIDTH - 1 else nc)
      in update_cursor (s\<lparr>row := nat nr, col := nat nc\<rparr>))"

definition vga_status_bar :: "bytes \<Rightarrow> bytes option \<Rightarrow> vga \<Rightarrow> ((err + unit) \<times> vga) option" where
  "vga_status_bar left right s =
     (let restore = (\<lambda>s'. update_cursor (serial_follow (s'\<lparr>color := color s, row := row s, col := col s\<rparr>)));
          s = serial_follow (s\<lparr>row := VGA_HEIGHT - 1, col := 0\<rparr>);
          s = s\<lparr>color := make_color VGA_BLACK VGA_LIGHT_GREY\<rparr>
      in
      case forE [0..<VGA_WIDTH] (\<lambda>i s. poke (row s * VGA_WIDTH + i) (vga_entry 32 (color s)) s) s of
        (Inl e, s) \<Rightarrow> Some (Inl e, s)
      | (Inr _, s) \<Rightarrow>
          Option.bind (vga_write left s) (\<lambda>r.
            case r of
              (Inl e, s) \<Rightarrow> Some (Inl e, s)
            | (Inr _, s) \<Rightarrow>
                (case right of
                   Some rt \<Rightarrow>
                     if length rt < VGA_WIDTH then
                       Option.bind (vga_write rt (serial_follow (s\<lparr>row := VGA_HEIGHT - 1, col := VGA_WIDTH - length rt\<rparr>))) (\<lambda>r.
                         case r of (Inl e, s) \<Rightarrow> Some (Inl e, s) | (Inr _, s) \<Rightarrow> Some (Inr (), restore s))
                     else Some (Inr (), restore s)
                 | None \<Rightarrow> Some (Inr (), restore s))))"

section \<open>Memory loops\<close>

definition remap :: "(nat \<Rightarrow> u16 \<Rightarrow> u16 list \<Rightarrow> u16) \<Rightarrow> vga \<Rightarrow> vga" where
  "remap f s = s\<lparr>vga_memory := map (\<lambda>j. f j (vga_memory s ! j) (vga_memory s)) [0..<2000]\<rparr>"

lemma remap_sel [simp]:
  "row (remap f s) = row s" "col (remap f s) = col s" "color (remap f s) = color s" "esc_state (remap f s) = esc_state s"
  "esc_buf (remap f s) = esc_buf s" "esc_len (remap f s) = esc_len s" "length (vga_memory (remap f s)) = 2000"
  "serial_ready (remap f s) = serial_ready s" "ports (remap f s) = ports s"
  "j < 2000 \<Longrightarrow> vga_memory (remap f s) ! j = f j (vga_memory s ! j) (vga_memory s)"
  by (simp_all add: remap_def)

lemma remap_eqI:
  assumes "length m = 2000" and "\<And>j. j < 2000 \<Longrightarrow> m ! j = f j (vga_memory s ! j) (vga_memory s)"
  shows "s\<lparr>vga_memory := m\<rparr> = remap f s"
proof -
  have "m = map (\<lambda>j. f j (vga_memory s ! j) (vga_memory s)) [0..<2000]" using assms by (intro nth_equalityI) simp_all
  then show ?thesis by (simp add: remap_def)
qed

lemma remap_id:
  assumes "length (vga_memory s) = 2000" and "\<And>j. j < 2000 \<Longrightarrow> f j (vga_memory s ! j) (vga_memory s) = vga_memory s ! j"
  shows "s = remap f s"
  using remap_eqI [of "vga_memory s" f s] assms by simp

lemma remap_cong:
  "(\<And>j. j < 2000 \<Longrightarrow> f j (vga_memory s ! j) (vga_memory s) = g j (vga_memory s ! j) (vga_memory s)) \<Longrightarrow> remap f s = remap g s"
  by (simp add: remap_def cong: map_cong)

lemma remap_upd:
  assumes "i < 2000"
  shows "(remap f s)\<lparr>vga_memory := (vga_memory (remap f s))[i := v]\<rparr> = remap (\<lambda>j w m. if j = i then v else f j w m) s"
proof -
  have "(map g [0..<2000])[i := v] = map (\<lambda>j. if j = i then v else g j) [0..<2000]" for g :: "nat \<Rightarrow> u16"
    using assms by (intro nth_equalityI) (simp_all add: nth_list_update)
  then show ?thesis by (simp add: remap_def)
qed

lemma remap_remap:
  "remap f (remap g s) = remap (\<lambda>j v m. f j (g j v m) (map (\<lambda>k. g k (m ! k) m) [0..<2000])) s"
  by (simp add: remap_def)

lemma fill_cells:
  assumes "length (vga_memory s) = 2000" and "base + b \<le> 2000" and "a \<le> b" and "\<And>m. base_of (s\<lparr>vga_memory := m\<rparr>) = base"
  shows "forE [a..<b] (\<lambda>x s. poke (base_of s + x) (vga_entry 32 (color s)) s) s =
    (Inr (), remap (\<lambda>j v m. if base + a \<le> j \<and> j < base + b then vga_entry 32 (color s) else v) s)"
  using assms(3,2)
proof (induction b rule: dec_induct)
  case base
  have "s = remap (\<lambda>j v m. if base + a \<le> j \<and> j < base + a then vga_entry 32 (color s) else v) s"
    by (rule remap_id) (use assms(1) in auto)
  then show ?case by simp
next
  case (step b)
  let ?t = "remap (\<lambda>j v m. if base + a \<le> j \<and> j < base + b then vga_entry 32 (color s) else v) s"
  have t: "base_of ?t = base" unfolding remap_def by (rule assms(4))
  have u: "[a..<Suc b] = [a..<b] @ [b]" using step.hyps by simp
  have "?t\<lparr>vga_memory := (vga_memory ?t)[base + b := vga_entry 32 (color s)]\<rparr> =
      remap (\<lambda>j v m. if base + a \<le> j \<and> j < base + Suc b then vga_entry 32 (color s) else v) s"
    using step.prems step.hyps by (subst remap_upd) (auto intro: remap_cong)
  moreover have "poke (base_of ?t + b) (vga_entry 32 (color ?t)) ?t = (Inr (), ?t\<lparr>vga_memory := (vga_memory ?t)[base + b := vga_entry 32 (color s)]\<rparr>)"
    using t step.prems by (simp add: poke_def)
  ultimately show ?case using step.IH step.prems unfolding u by (intro forE_snoc [where t = ?t]) auto
qed

lemma copy_row:
  assumes "length (vga_memory s) = 2000" and "1 \<le> y" "y < 25" and "n \<le> 80"
  shows "forE [0..<n] (\<lambda>x. bindE (peek (y * 80 + x)) (poke ((y - 1) * 80 + x))) s =
    (Inr (), remap (\<lambda>j v m. if (y - 1) * 80 \<le> j \<and> j < (y - 1) * 80 + n then m ! (j + 80) else v) s)"
  using assms(4)
proof (induction n)
  case 0
  have "s = remap (\<lambda>j v m. if (y - 1) * 80 \<le> j \<and> j < (y - 1) * 80 + 0 then m ! (j + 80) else v) s"
    by (rule remap_id) (use assms(1) in auto)
  then show ?case by simp
next
  case (Suc n)
  let ?b = "(y - 1) * 80"
  let ?t = "remap (\<lambda>j v m. if ?b \<le> j \<and> j < ?b + n then m ! (j + 80) else v) s"
  have i: "y * 80 + n = ?b + n + 80" "y * 80 + n < 2000" using assms(2,3) Suc.prems by (auto simp: algebra_simps)
  have "?t\<lparr>vga_memory := (vga_memory ?t)[?b + n := vga_memory s ! (y * 80 + n)]\<rparr> =
      remap (\<lambda>j v m. if ?b \<le> j \<and> j < ?b + Suc n then m ! (j + 80) else v) s"
    using i by (subst remap_upd, simp) (rule remap_cong, auto simp: less_Suc_eq add_ac)
  moreover have "bindE (peek (y * 80 + n)) (poke (?b + n)) ?t = (Inr (), ?t\<lparr>vga_memory := (vga_memory ?t)[?b + n := vga_memory s ! (y * 80 + n)]\<rparr>)"
    using i by (simp add: bindE_def peek_def poke_def)
  moreover have u: "[0..<Suc n] = [0..<n] @ [n]" by simp
  ultimately show ?case using Suc.IH Suc.prems unfolding u by (intro forE_snoc [where t = ?t]) auto
qed

lemma copy_rows:
  assumes "length (vga_memory s) = 2000" and "m \<le> 24"
  shows "forE [1..<Suc m] (\<lambda>y. forE [0..<80] (\<lambda>x. bindE (peek (y * 80 + x)) (poke ((y - 1) * 80 + x)))) s =
    (Inr (), remap (\<lambda>j v mem. if j < m * 80 then mem ! (j + 80) else v) s)"
  using assms(2)
proof (induction m)
  case 0
  have "s = remap (\<lambda>j v mem. if j < 0 * 80 then mem ! (j + 80) else v) s"
    by (rule remap_id) (use assms(1) in auto)
  then show ?case by simp
next
  case (Suc m)
  let ?t = "remap (\<lambda>j v mem. if j < m * 80 then mem ! (j + 80) else v) s"
  have u: "[1..<Suc (Suc m)] = [1..<Suc m] @ [Suc m]" by simp
  have "remap (\<lambda>j v mem. if (Suc m - 1) * 80 \<le> j \<and> j < (Suc m - 1) * 80 + 80 then mem ! (j + 80) else v) ?t =
      remap (\<lambda>j v mem. if j < Suc m * 80 then mem ! (j + 80) else v) s"
    using Suc.prems unfolding remap_remap by (intro remap_cong) auto
  then have "forE [0..<80] (\<lambda>x. bindE (peek (Suc m * 80 + x)) (poke ((Suc m - 1) * 80 + x))) ?t =
      (Inr (), remap (\<lambda>j v mem. if j < Suc m * 80 then mem ! (j + 80) else v) s)"
    using copy_row [of ?t "Suc m" 80] Suc.prems by simp
  with Suc.IH Suc.prems show ?case unfolding u by (intro forE_snoc [where t = ?t]) auto
qed

lemma scroll_law:
  assumes "length (vga_memory s) = 2000" and "25 \<le> row s"
  shows "scroll s = (Inr (), (remap (\<lambda>j v m. if j < 1920 then m ! (j + 80) else vga_entry 32 (color s)) s)\<lparr>row := 24\<rparr>)"
proof -
  let ?t = "remap (\<lambda>j v m. if j < 24 * 80 then m ! (j + 80) else v) s"
  have "remap (\<lambda>j v m. if 1920 + 0 \<le> j \<and> j < 1920 + 80 then vga_entry 32 (color ?t) else v) ?t =
      remap (\<lambda>j v m. if j < 1920 then m ! (j + 80) else vga_entry 32 (color s)) s"
    unfolding remap_remap by (intro remap_cong) auto
  then have "forE [0..<80] (\<lambda>x s. poke (1920 + x) (vga_entry 32 (color s)) s) ?t =
      (Inr (), remap (\<lambda>j v m. if j < 1920 then m ! (j + 80) else vga_entry 32 (color s)) s)"
    using fill_cells [of ?t 1920 80 0 "\<lambda>_. 1920"] by simp
  moreover have "forE [1..<25] (\<lambda>y. forE [0..<80] (\<lambda>x. bindE (peek (y * 80 + x)) (poke ((y - 1) * 80 + x)))) s = (Inr (), ?t)"
    using copy_rows [OF assms(1), of 24] by simp
  ultimately show ?thesis
    using assms(2) unfolding scroll_def by (simp add: bindE_def [of "forE _ _"] del: upt_rec_numeral)
qed

section \<open>Output to ports only\<close>

definition quiet :: "(vga \<Rightarrow> vga) \<Rightarrow> bool" where
  "quiet f \<longleftrightarrow> (\<forall>s. (f s)\<lparr>ports := []\<rparr> = s\<lparr>ports := []\<rparr>)"

lemma quiet_sel:
  assumes "quiet f"
  shows "vga_memory (f s) = vga_memory s" "row (f s) = row s" "col (f s) = col s" "color (f s) = color s"
    "esc_state (f s) = esc_state s" "esc_buf (f s) = esc_buf s" "esc_len (f s) = esc_len s" "serial_ready (f s) = serial_ready s"
  using assms [unfolded quiet_def, rule_format, of s] by (cases "f s"; cases s; simp)+

lemma quiet_comp: "quiet f \<Longrightarrow> quiet g \<Longrightarrow> quiet (\<lambda>s. f (g s))"
  by (simp add: quiet_def)

lemma quiet_if: "quiet f \<Longrightarrow> quiet (\<lambda>s. if b s then f s else s)"
  by (simp add: quiet_def)

lemma quiet_fold: "(\<And>x. x \<in> set xs \<Longrightarrow> quiet (f x)) \<Longrightarrow> quiet (fold f xs)"
  by (induction xs) (simp_all add: quiet_def)

lemma quiet_outb: "quiet (outb p v)"
  by (simp add: quiet_def outb_def)

lemma quiet_serial_putc: "quiet (serial_putc c)"
  using quiet_outb by (simp add: quiet_def serial_putc_def)

lemma quiet_serial_write: "quiet (serial_write str)" "quiet (serial_clear)" "quiet (serial_erase_line)" "quiet (serial_write_uint n)"
proof -
  show w: "quiet (serial_write str)" for str unfolding serial_write_def by (rule quiet_fold) (rule quiet_serial_putc)
  show "quiet (serial_clear)" "quiet (serial_erase_line)" unfolding serial_clear_def serial_erase_line_def by (rule w)+
  show "quiet (serial_write_uint n)"
    unfolding serial_write_uint_def using quiet_serial_putc w [unfolded serial_write_def] by simp
qed

lemma quiet_serial_move: "quiet (serial_move_cursor r c)" "quiet serial_follow"
proof -
  show m: "quiet (serial_move_cursor r c)" for r c
    using quiet_serial_putc quiet_serial_write(4) by (simp add: quiet_def serial_move_cursor_def)
  then show "quiet serial_follow" by (simp add: quiet_def serial_follow_def)
qed

lemma quiet_update_cursor: "quiet update_cursor"
  using quiet_outb by (simp add: quiet_def update_cursor_def Let_def)

lemmas quiet_simps [simp] = quiet_sel [OF quiet_serial_putc] quiet_sel [OF quiet_serial_write(1)] quiet_sel [OF quiet_serial_write(2)]
  quiet_sel [OF quiet_serial_write(3)] quiet_sel [OF quiet_serial_move(1)] quiet_sel [OF quiet_serial_move(2)] quiet_sel [OF quiet_update_cursor]

section \<open>Every operation stays on the screen and returns\<close>

definition vga_ok :: "vga \<Rightarrow> bool" where
  "vga_ok s \<longleftrightarrow> length (vga_memory s) = 2000 \<and> row s < 25 \<and> col s < 80 \<and> length (esc_buf s) = 16 \<and>
     esc_state s \<le> 2 \<and> esc_len s \<le> 15"

text \<open>All of the invariant but the position.\<close>

definition screen_ok :: "vga \<Rightarrow> bool" where
  "screen_ok s \<longleftrightarrow> length (vga_memory s) = 2000 \<and> length (esc_buf s) = 16 \<and> esc_state s \<le> 2 \<and> esc_len s \<le> 15"

lemma vga_ok_screen: "vga_ok s \<longleftrightarrow> screen_ok s \<and> row s < 25 \<and> col s < 80"
  by (auto simp: vga_ok_def screen_ok_def)

lemma screen_ok_simps [simp]:
  "screen_ok (s\<lparr>row := r\<rparr>) = screen_ok s" "screen_ok (s\<lparr>col := c\<rparr>) = screen_ok s" "screen_ok (s\<lparr>color := k\<rparr>) = screen_ok s"
  "screen_ok s \<Longrightarrow> screen_ok (remap f s)" "screen_ok s \<Longrightarrow> screen_ok (s\<lparr>vga_memory := (vga_memory s)[i := v]\<rparr>)"
  by (simp_all add: screen_ok_def)

lemma screen_ok_quiet: "quiet f \<Longrightarrow> screen_ok (f s) = screen_ok s"
  by (simp add: screen_ok_def quiet_sel)

lemmas screen_ok_quiets [simp] = screen_ok_quiet [OF quiet_serial_putc] screen_ok_quiet [OF quiet_serial_write(2)]
  screen_ok_quiet [OF quiet_serial_write(3)] screen_ok_quiet [OF quiet_serial_move(2)] screen_ok_quiet [OF quiet_update_cursor]

lemma cell_bound: "r < 25 \<Longrightarrow> c < 80 \<Longrightarrow> r * 80 + c < (2000 :: nat)"
  by linarith

lemma poke_ok: "screen_ok s \<Longrightarrow> i < 2000 \<Longrightarrow> poke i v s = (Inr (), s\<lparr>vga_memory := (vga_memory s)[i := v]\<rparr>)"
  by (simp add: poke_def screen_ok_def)

lemma newline_law:
  assumes "screen_ok s" and "row s < 25"
  shows "newline s = (Inr (), if row s < 24 then s\<lparr>col := 0, row := row s + 1\<rparr>
    else (remap (\<lambda>j v m. if j < 1920 then m ! (j + 80) else vga_entry 32 (color s)) s)\<lparr>col := 0, row := 24\<rparr>)"
proof (cases "row s < 24")
  case False
  have c: "color (s\<lparr>col := 0, row := row s + 1\<rparr>) = color s" by simp
  have "remap f (s\<lparr>col := 0, row := Suc (row s)\<rparr>) = (remap f s)\<lparr>col := 0, row := Suc (row s)\<rparr>" for f by (simp add: remap_def)
  then show ?thesis
    using False assms scroll_law [of "s\<lparr>col := 0, row := row s + 1\<rparr>", unfolded c] by (simp add: newline_def screen_ok_def)
qed (simp add: newline_def scroll_def)

lemma newline_ok:
  assumes "screen_ok s" and "row s < 25"
  shows "\<exists>t. newline s = (Inr (), t) \<and> vga_ok t \<and> col t = 0 \<and> esc_state t = esc_state s"
  using newline_law [OF assms] assms by (auto simp: vga_ok_screen)

lemma fill_row_ok:
  assumes "screen_ok s" and "row s < 25" and "a \<le> 80"
  shows "\<exists>f. forE [a..<80] (\<lambda>x s. poke (row s * 80 + x) (vga_entry 32 (color s)) s) s = (Inr (), remap f s)"
  using fill_cells [of s "row s * 80" 80 a "\<lambda>s. row s * 80"] assms by (auto simp: screen_ok_def)

lemma erase_current_line_ok:
  assumes "vga_ok s"
  shows "\<exists>t. erase_current_line s = (Inr (), t) \<and> vga_ok t"
proof -
  obtain f where "forE [0..<80] (\<lambda>x s. poke (row s * 80 + x) (vga_entry 32 (color s)) s) (serial_erase_line s) =
      (Inr (), remap f (serial_erase_line s))"
    using fill_row_ok [of "serial_erase_line s" 0] assms by (auto simp: vga_ok_screen)
  then show ?thesis using assms
    by (simp add: erase_current_line_def bindE_def [of "forE _ _"] vga_ok_screen del: upt_rec_numeral)
qed

lemma clear_cells:
  assumes "screen_ok s" and "n \<le> 25"
  shows "\<exists>f. forE [0..<n] (\<lambda>y. forE [0..<80] (\<lambda>x s. poke (y * 80 + x) (vga_entry 32 (color s)) s)) s = (Inr (), remap f s)"
  using assms(2)
proof (induction n)
  case 0
  have "s = remap (\<lambda>j v m. v) s" by (rule remap_id) (use assms(1) in \<open>auto simp: screen_ok_def\<close>)
  then show ?case by auto
next
  case (Suc n)
  then obtain f where f: "forE [0..<n] (\<lambda>y. forE [0..<80] (\<lambda>x s. poke (y * 80 + x) (vga_entry 32 (color s)) s)) s = (Inr (), remap f s)"
    by auto
  have u: "[0..<Suc n] = [0..<n] @ [n]" by simp
  obtain g where "forE [0..<80] (\<lambda>x s. poke (n * 80 + x) (vga_entry 32 (color s)) s) (remap f s) = (Inr (), remap g (remap f s))"
    using fill_cells [of "remap f s" "n * 80" 80 0 "\<lambda>_. n * 80"] Suc.prems by auto
  with f show ?case unfolding u remap_remap by (intro exI forE_snoc) 
qed

lemma vga_clear_ok:
  assumes "screen_ok s"
  shows "\<exists>t. vga_clear s = (Inr (), t) \<and> vga_ok t \<and> esc_state t = 0"
proof -
  obtain f where "forE [0..<25] (\<lambda>y. forE [0..<80] (\<lambda>x s. poke (y * 80 + x) (vga_entry 32 (color s)) s)) (serial_clear s) =
      (Inr (), remap f (serial_clear s))"
    using clear_cells [of "serial_clear s" 25] assms by auto
  then show ?thesis using assms
    by (simp add: vga_clear_def bindE_def [of "forE _ _"] vga_ok_def screen_ok_def del: upt_rec_numeral)
qed

lemma ansi_sgr_ok: "0 \<in> set seq \<Longrightarrow> \<exists>c. ansi_sgr seq v h s = (Inr (), s\<lparr>color := c\<rparr>)"
proof (induction seq v h arbitrary: s rule: ansi_sgr.induct)
  case (2 c seq v h)
  show ?case
  proof (cases "c = of_char CHR '';''")
    case True
    then obtain k where "ansi_sgr seq 0 False (s\<lparr>color := sgr_color v h (color s)\<rparr>) = (Inr (), s\<lparr>color := sgr_color v h (color s), color := k\<rparr>)"
      using "2.IH"(2) [of "s\<lparr>color := sgr_color v h (color s)\<rparr>"] "2.prems" by auto
    then show ?thesis using True by auto
  next
    case False
    then show ?thesis using 2 by auto
  qed
qed simp

lemma ansi_execute_ok:
  assumes s: "vga_ok s"
  shows "\<exists>t. ansi_execute s = (Inr (), t) \<and> vga_ok t \<and> esc_state t = 0"
proof -
  let ?t = "s\<lparr>esc_buf := (esc_buf s)[esc_len s := 0]\<rparr>"
  have len: "length (esc_buf s) = 16" "esc_len s \<le> 15" using s by (simp_all add: vga_ok_def)
  have p: "put_esc (esc_len s) 0 s = (Inr (), ?t)" using len by (simp add: put_esc_def)
  have z: "0 \<in> set (esc_buf ?t)" using len by (simp add: set_update_memI)
  have vt: "vga_ok ?t" using s by (simp add: vga_ok_def)
  obtain k where k: "ansi_sgr (esc_buf ?t) 0 False ?t = (Inr (), ?t\<lparr>color := k\<rparr>)" using ansi_sgr_ok [OF z] by blast
  obtain u where u: "vga_clear ?t = (Inr (), u)" "vga_ok u" using vga_clear_ok [of ?t] vt by (auto simp: vga_ok_screen)
  obtain w where w: "erase_current_line ?t = (Inr (), w)" "vga_ok w" using erase_current_line_ok [OF vt] by blast
  have r: "\<exists>v. vga_ok v \<and> (let final = (if esc_len ?t \<noteq> 0 then esc_buf ?t ! (esc_len ?t - 1) else 0) in
       if final = of_char CHR ''m'' then ansi_sgr (esc_buf ?t) 0 False ?t
       else if final = of_char CHR ''J'' then vga_clear ?t
       else if final = of_char CHR ''K'' then erase_current_line ?t
       else if final = of_char CHR ''H'' then (Inr (), ?t\<lparr>row := 0, col := 0\<rparr>)
       else (Inr (), ?t)) = (Inr (), v)"
    using k u w vt by (auto simp: Let_def vga_ok_def)
  then obtain v where v: "vga_ok v" "(let final = (if esc_len ?t \<noteq> 0 then esc_buf ?t ! (esc_len ?t - 1) else 0) in
       if final = of_char CHR ''m'' then ansi_sgr (esc_buf ?t) 0 False ?t
       else if final = of_char CHR ''J'' then vga_clear ?t
       else if final = of_char CHR ''K'' then erase_current_line ?t
       else if final = of_char CHR ''H'' then (Inr (), ?t\<lparr>row := 0, col := 0\<rparr>)
       else (Inr (), ?t)) = (Inr (), v)" by blast
  have "ansi_execute s = (Inr (), v\<lparr>esc_state := 0, esc_len := 0\<rparr>)"
    unfolding ansi_execute_def bindE_def using p v(2) by (simp only: prod.case sum.case op_simps)
  then show ?thesis using v(1) by (simp add: vga_ok_def)
qed

lemma esc_char_ok:
  assumes s: "vga_ok s"
  shows "\<exists>t. esc_char c s = (Inr (), t) \<and> vga_ok t"
proof -
  have "\<exists>t. vga_ok t \<and> (if esc_len s + 1 < 16 then bindE (put_esc (esc_len s) c) (\<lambda>_. modifyE (esc_len_update Suc)) s else (Inr (), s)) = (Inr (), t)"
    using s by (auto simp: put_esc_def bindE_def vga_ok_def)
  then show ?thesis using ansi_execute_ok by (fastforce simp: esc_char_def bindE_def)
qed

lemma show_char_ok:
  assumes s: "vga_ok s"
  shows "\<exists>t. show_char c s = (Inr (), t) \<and> vga_ok t \<and> esc_state t = esc_state s \<and>
    (c \<notin> {8, 10, 13} \<longrightarrow> col t = (col s + 1) mod 80)"
proof -
  have so: "screen_ok s" "row s < 25" "col s < 80" using s by (simp_all add: vga_ok_screen)
  consider "c = 10" | "c = 13" | "c = 8" | "c \<notin> {8, 10, 13}" by auto
  then show ?thesis
  proof cases
    case 1
    then show ?thesis using newline_ok [OF so(1,2)] by (auto simp: show_char_def)
  next
    case 2
    then show ?thesis using s by (simp add: show_char_def vga_ok_screen)
  next
    case 3
    let ?t = "if 0 < col s then s\<lparr>col := col s - 1\<rparr> else if 0 < row s then s\<lparr>row := row s - 1, col := 79\<rparr> else s"
    have t: "vga_ok ?t" "esc_state ?t = esc_state s" using s by (auto simp: vga_ok_screen)
    then have "poke (row ?t * 80 + col ?t) v ?t = (Inr (), ?t\<lparr>vga_memory := (vga_memory ?t)[row ?t * 80 + col ?t := v]\<rparr>)" for v
      using poke_ok cell_bound by (simp only: vga_ok_screen)
    moreover have "show_char c s = poke (row ?t * 80 + col ?t) (vga_entry 32 (color ?t)) ?t" using 3 by (simp add: show_char_def)
    ultimately show ?thesis using t 3 by (simp add: vga_ok_def)
  next
    case 4
    let ?t = "s\<lparr>vga_memory := (vga_memory s)[row s * 80 + col s := vga_entry c (color s)], col := col s + 1\<rparr>"
    have "show_char c s = (if col ?t = 80 then newline ?t else (Inr (), ?t))"
      using 4 so cell_bound by (simp add: show_char_def poke_ok bindE_def Let_def)
    moreover have "\<exists>u. newline ?t = (Inr (), u) \<and> vga_ok u \<and> col u = 0 \<and> esc_state u = esc_state ?t"
      using so by (intro newline_ok) simp_all
    ultimately show ?thesis using so 4 by (cases "col s + 1 = 80") (auto simp: vga_ok_screen)
  qed
qed

lemma vga_ok_quiets [simp]:
  "vga_ok (serial_putc c s) = vga_ok s" "vga_ok (update_cursor s) = vga_ok s" "vga_ok (serial_follow s) = vga_ok s"
  by (simp_all add: vga_ok_screen)

lemma putc_plain:
  assumes "vga_ok s" and "esc_state s = 0" and "c \<noteq> 9" "c \<noteq> 27"
  shows "\<exists>t. vga_print (Putc c) s = Some (Inr (), t) \<and> vga_ok t \<and> esc_state t = 0 \<and> (c \<notin> {8, 10, 13} \<longrightarrow> col t = (col s + 1) mod 80)"
  using show_char_ok [of "serial_putc c s" c] assms
  by (subst vga_print.simps) (auto simp: Let_def bindE_def)

lemma tab_loop_ok:
  assumes "vga_ok s" and "esc_state s = 0"
  shows "\<exists>t. vga_print Tab_loop s = Some (Inr (), t) \<and> vga_ok t \<and> esc_state t = 0 \<and> col t mod 4 = 0"
  using assms
proof (induction "3 - col s mod 4" arbitrary: s rule: less_induct)
  case less
  obtain t where t: "vga_print (Putc 32) s = Some (Inr (), t)" "vga_ok t" "esc_state t = 0" "col t = (col s + 1) mod 80"
    using putc_plain [OF less.prems, of 32] by auto
  show ?case
  proof (cases "col t mod 4 = 0")
    case True
    then show ?thesis using t by (subst vga_print.simps) simp
  next
    case False
    have "col t mod 4 = (col s + 1) mod 4" unfolding t(4) by (simp add: mod_mod_cancel)
    then have "3 - col t mod 4 < 3 - col s mod 4" using False by presburger
    from less.hyps [OF this t(2,3)] show ?thesis using t False by (subst vga_print.simps) simp
  qed
qed

lemma vga_putc_ok:
  assumes s: "vga_ok s"
  shows "\<exists>t. vga_putc c s = Some (Inr (), t) \<and> vga_ok t"
proof -
  let ?s = "serial_putc c s"
  have ok: "vga_ok ?s" "esc_state ?s \<le> 2" using s by (auto simp: vga_ok_def)
  consider (bracket) "esc_state s = 1" "c = of_char CHR ''[''" | (esc) "esc_state s = 2"
    | (escape) "esc_state s \<noteq> 2" "c = 27" | (tab) "esc_state s \<noteq> 2" "c = 9"
    | (plain) "esc_state s \<noteq> 2" "c \<noteq> 9" "c \<noteq> 27" "\<not> (esc_state s = 1 \<and> c = of_char CHR ''['')"
    by fastforce
  then show ?thesis
  proof cases
    case bracket
    then show ?thesis unfolding vga_putc_def using ok by (subst vga_print.simps) (simp add: vga_ok_def)
  next
    case esc
    then show ?thesis unfolding vga_putc_def using esc_char_ok [OF ok(1), of c] by (subst vga_print.simps) (auto simp: Let_def)
  next
    case escape
    then show ?thesis unfolding vga_putc_def using ok by (subst vga_print.simps) (simp add: vga_ok_def Let_def)
  next
    case tab
    let ?t = "if esc_state s = 1 then ?s\<lparr>esc_state := 0\<rparr> else ?s"
    have "vga_ok ?t" "esc_state ?t = 0" using ok tab by (auto simp: vga_ok_def)
    from tab_loop_ok [OF this] show ?thesis unfolding vga_putc_def using tab by (subst vga_print.simps) (auto simp: Let_def)
  next
    case plain
    let ?t = "if esc_state s = 1 then ?s\<lparr>esc_state := 0\<rparr> else ?s"
    have "vga_ok ?t" using ok plain by (auto simp: vga_ok_def)
    from show_char_ok [OF this, of c] show ?thesis unfolding vga_putc_def using plain
      by (subst vga_print.simps) (auto simp: Let_def bindE_def)
  qed
qed

lemma vga_write_len_ok: "vga_ok s \<Longrightarrow> \<exists>t. vga_write_len str s = Some (Inr (), t) \<and> vga_ok t"
proof (induction str arbitrary: s)
  case (Cons c str)
  then show ?case using vga_putc_ok [OF Cons.prems, of c] by fastforce
qed simp

text \<open>The other operations.\<close>

lemma cursor_ops_ok:
  assumes "vga_ok s"
  shows "vga_ok (vga_set_color fg bg s)" "vga_ok (vga_goto r c s)" "vga_ok (vga_set_cursor r c s)" "vga_ok (vga_move_cursor_rel dr dc s)"
  using assms by (simp_all add: vga_set_color_def vga_goto_def vga_set_cursor_def clamp_cursor_def vga_move_cursor_rel_def vga_ok_screen Let_def) linarith

lemma vga_erase_eol_ok:
  assumes "vga_ok s"
  shows "\<exists>t. vga_erase_eol s = (Inr (), t) \<and> vga_ok t"
proof -
  obtain f where "forE [col s..<80] (\<lambda>x s. poke (row s * 80 + x) (vga_entry 32 (color s)) s) (serial_erase_line s) =
      (Inr (), remap f (serial_erase_line s))"
    using fill_row_ok [of "serial_erase_line s" "col s"] assms by (auto simp: vga_ok_screen)
  then show ?thesis using assms by (simp add: vga_erase_eol_def vga_ok_screen)
qed

lemma vga_status_bar_ok:
  assumes "vga_ok s"
  shows "\<exists>t. vga_status_bar left right s = Some (Inr (), t) \<and> vga_ok t"
proof -
  let ?restore = "\<lambda>s'. update_cursor (serial_follow (s'\<lparr>color := color s, row := row s, col := col s\<rparr>))"
  let ?s1 = "(serial_follow (s\<lparr>row := 24, col := 0\<rparr>))\<lparr>color := make_color 0 7\<rparr>"
  have ok: "vga_ok (?restore t)" if "vga_ok t" for t using assms that by (simp add: vga_ok_screen)
  have s1: "screen_ok ?s1" "row ?s1 = 24" using assms by (simp_all add: vga_ok_screen)
  obtain f where f: "forE [0..<80] (\<lambda>i s. poke (row s * 80 + i) (vga_entry 32 (color s)) s) ?s1 = (Inr (), remap f ?s1)"
    using fill_row_ok [OF s1(1), of 0] s1(2) by auto
  have "vga_ok (remap f ?s1)" using s1 by (simp add: vga_ok_screen)
  then obtain u where u: "vga_write left (remap f ?s1) = Some (Inr (), u)" "vga_ok u"
    using vga_write_len_ok unfolding vga_write_def by blast
  have "\<exists>w. vga_write rt (serial_follow (u\<lparr>row := VGA_HEIGHT - 1, col := VGA_WIDTH - length rt\<rparr>)) = Some (Inr (), w) \<and> screen_ok w" if "length rt < 80" for rt
  proof (cases "rt = []")
    case True
    then show ?thesis using u(2) by (simp add: vga_write_def vga_ok_screen)
  next
    case False
    then have "vga_ok (serial_follow (u\<lparr>row := VGA_HEIGHT - 1, col := VGA_WIDTH - length rt\<rparr>))" using u(2) by (simp add: vga_ok_screen)
    then show ?thesis using vga_write_len_ok unfolding vga_write_def by (metis vga_ok_screen)
  qed
  then have "\<exists>t. (case right of
       Some rt \<Rightarrow>
         if length rt < 80 then
           Option.bind (vga_write rt (serial_follow (u\<lparr>row := VGA_HEIGHT - 1, col := VGA_WIDTH - length rt\<rparr>))) (\<lambda>r.
             case r of (Inl e, s) \<Rightarrow> Some (Inl e, s) | (Inr _, s) \<Rightarrow> Some (Inr (), ?restore s))
         else Some (Inr (), ?restore u)
     | None \<Rightarrow> Some (Inr (), ?restore u)) = Some (Inr (), t) \<and> vga_ok t"
    using ok u(2) assms by (fastforce simp: vga_ok_screen split: option.split)
  then show ?thesis using f u(1) unfolding vga_status_bar_def Let_def by simp
qed

text \<open>Everything a program can ask of the display.\<close>

datatype vga_request = Call_write bytes | Call_clear | Call_color u8 u8 | Call_goto nat nat | Call_cursor nat nat | Call_rel int int | Call_eol
  | Call_status bytes "bytes option"

fun vga_call :: "vga_request \<Rightarrow> vga \<Rightarrow> ((err + unit) \<times> vga) option" where
  "vga_call (Call_write str) s = vga_write str s"
| "vga_call Call_clear s = Some (vga_clear s)"
| "vga_call (Call_color fg bg) s = Some (Inr (), vga_set_color fg bg s)"
| "vga_call (Call_goto r c) s = Some (Inr (), vga_goto r c s)"
| "vga_call (Call_cursor r c) s = Some (Inr (), vga_set_cursor r c s)"
| "vga_call (Call_rel dr dc) s = Some (Inr (), vga_move_cursor_rel dr dc s)"
| "vga_call Call_eol s = Some (vga_erase_eol s)"
| "vga_call (Call_status left right) s = vga_status_bar left right s"

fun vga_calls :: "vga_request list \<Rightarrow> vga \<Rightarrow> ((err + unit) \<times> vga) option" where
  "vga_calls [] s = Some (Inr (), s)"
| "vga_calls (c # cs) s = Option.bind (vga_call c s) (\<lambda>r. case r of (Inl e, s) \<Rightarrow> Some (Inl e, s) | (Inr _, s) \<Rightarrow> vga_calls cs s)"

lemma vga_call_ok:
  assumes "vga_ok s"
  shows "\<exists>t. vga_call c s = Some (Inr (), t) \<and> vga_ok t"
  using assms cursor_ops_ok [OF assms] vga_erase_eol_ok [OF assms] vga_write_len_ok [OF assms] vga_clear_ok [of s]
    vga_status_bar_ok [OF assms]
  by (cases c) (auto simp: vga_write_def vga_ok_screen)

definition vga_boot :: vga where
  "vga_boot = \<lparr>vga_memory = replicate 2000 0, row = 0, col = 0, color = 0, esc_state = 0, esc_buf = replicate 16 0, esc_len = 0,
     serial_ready = False, ports = []\<rparr>"

lemma vga_init_ok:
  assumes "screen_ok s"
  shows "\<exists>t. vga_init s = (Inr (), t) \<and> vga_ok t"
proof -
  let ?t = "s\<lparr>color := make_color 7 0, row := 0, col := 0, esc_state := 0, esc_len := 0\<rparr>"
  have "screen_ok ?t" using assms by (simp add: screen_ok_def)
  from vga_clear_ok [OF this] show ?thesis by (auto simp: vga_init_def)
qed

text \<open>C35. The display driver always returns and never writes outside the screen. After initialisation,
  with the serial line set up or not, every sequence of calls, with any text including arbitrary
  and arbitrarily long escape sequences, tabs, backspaces and bytes that are not characters, ends
  without an access outside the screen's memory or the escape buffer, and leaves the write position
  on the screen.\<close>

theorem vga_calls_total:
  "\<exists>s t. vga_init (if ser then serial_init vga_boot else vga_boot) = (Inr (), s) \<and> vga_calls cs s = Some (Inr (), t) \<and>
     length (vga_memory t) = 2000 \<and> row t < 25 \<and> col t < 80"
proof -
  have "screen_ok (if ser then serial_init vga_boot else vga_boot)"
    by (simp add: screen_ok_def vga_boot_def serial_init_def outb_def)
  then obtain s where s: "vga_init (if ser then serial_init vga_boot else vga_boot) = (Inr (), s)" "vga_ok s"
    using vga_init_ok by blast
  have "\<exists>t. vga_calls cs s = Some (Inr (), t) \<and> vga_ok t" using s(2)
  proof (induction cs arbitrary: s)
    case (Cons c cs)
    then show ?case using vga_call_ok [OF Cons.prems, of c] by fastforce
  qed simp
  then show ?thesis using s(1) by (auto simp: vga_ok_def)
qed

section \<open>What the screen shows\<close>

definition plain :: "bytes \<Rightarrow> bool" where
  "plain str \<longleftrightarrow> set str \<inter> {8, 9, 10, 13, 27} = {}"

lemma write_append:
  "vga_write_len xs s = Some (Inr (), t) \<Longrightarrow> vga_write_len (xs @ ys) s = vga_write_len ys t"
proof (induction xs arbitrary: s)
  case (Cons x xs)
  then show ?case by (auto split: prod.splits sum.splits bind_splits)
qed simp

text \<open>The state apart from what went to the ports.\<close>

definition shown :: "vga \<Rightarrow> vga" where
  "shown s = s\<lparr>ports := []\<rparr>"

lemma shown_quiet: "quiet f \<Longrightarrow> shown (f s) = shown s"
  by (simp add: shown_def quiet_def)

lemma putc_cell:
  assumes "vga_ok s" and "esc_state s = 0" and "c \<notin> {8, 9, 10, 13, 27}" and "col s < 79"
  shows "\<exists>t. vga_putc c s = Some (Inr (), t) \<and>
    shown t = shown s\<lparr>vga_memory := (vga_memory s)[row s * 80 + col s := vga_entry c (color s)], col := col s + 1\<rparr>"
proof -
  let ?s = "serial_putc c s"
  let ?t = "?s\<lparr>vga_memory := (vga_memory s)[row s * 80 + col s := vga_entry c (color s)], col := col s + 1\<rparr>"
  have so: "screen_ok ?s" "row s * 80 + col s < 2000" using assms cell_bound by (simp_all add: vga_ok_screen)
  have "show_char c ?s = (Inr (), ?t)"
    using assms so by (simp add: show_char_def poke_ok bindE_def)
  then have "vga_putc c s = Some (Inr (), update_cursor ?t)"
    unfolding vga_putc_def using assms by (subst vga_print.simps) (simp add: Let_def bindE_def)
  moreover have "shown ?t = shown s\<lparr>vga_memory := (vga_memory s)[row s * 80 + col s := vga_entry c (color s)], col := col s + 1\<rparr>"
    using quiet_serial_putc [of c] by (simp add: shown_def quiet_def)
  ultimately show ?thesis using shown_quiet [OF quiet_update_cursor] by auto
qed

lemma putc_backspace:
  assumes "vga_ok s" and "esc_state s = 0" and "0 < col s"
  shows "\<exists>t. vga_putc 8 s = Some (Inr (), t) \<and>
    shown t = shown s\<lparr>vga_memory := (vga_memory s)[row s * 80 + (col s - 1) := vga_entry 32 (color s)], col := col s - 1\<rparr>"
proof -
  let ?s = "serial_putc 8 s"
  let ?t = "?s\<lparr>vga_memory := (vga_memory s)[row s * 80 + (col s - 1) := vga_entry 32 (color s)], col := col s - 1\<rparr>"
  have so: "screen_ok ?s" "row s * 80 + (col s - 1) < 2000"
    using assms cell_bound [of "row s" "col s - 1"] by (auto simp: vga_ok_screen)
  have "show_char 8 ?s = (Inr (), ?t)"
    using assms so by (simp add: show_char_def poke_ok)
  then have "vga_putc 8 s = Some (Inr (), update_cursor ?t)"
    unfolding vga_putc_def using assms by (subst vga_print.simps) (simp add: Let_def bindE_def)
  moreover have "shown ?t = shown s\<lparr>vga_memory := (vga_memory s)[row s * 80 + (col s - 1) := vga_entry 32 (color s)], col := col s - 1\<rparr>"
    using quiet_serial_putc [of 8] by (simp add: shown_def quiet_def)
  ultimately show ?thesis using shown_quiet [OF quiet_update_cursor] by auto
qed

text \<open>A piece of the current row replaced, with the position moved to a column.\<close>

definition line_put :: "nat \<Rightarrow> bytes \<Rightarrow> nat \<Rightarrow> vga \<Rightarrow> vga" where
  "line_put c xs c' s = s\<lparr>vga_memory := take (row s * 80 + c) (vga_memory s) @ map (\<lambda>x. vga_entry x (color s)) xs @
     drop (row s * 80 + c + length xs) (vga_memory s), col := c'\<rparr>"

lemma shown_sel:
  assumes "shown t = shown s"
  shows "vga_memory t = vga_memory s" "row t = row s" "col t = col s" "color t = color s" "esc_state t = esc_state s"
    "esc_buf t = esc_buf s" "esc_len t = esc_len s"
  using assms by (cases t; cases s; simp add: shown_def)+

lemma shown_ok:
  assumes "shown t = shown s" shows "vga_ok t = vga_ok s"
  by (simp add: vga_ok_def shown_sel [OF assms])

lemma line_put_ok:
  assumes "vga_ok s" and "c + length xs \<le> 80" and "c' < 80"
  shows "vga_ok (line_put c xs c' s)" "esc_state (line_put c xs c' s) = esc_state s" "row (line_put c xs c' s) = row s"
    "col (line_put c xs c' s) = c'" "color (line_put c xs c' s) = color s"
proof -
  have "row s * 80 + c + length xs \<le> 2000" using assms cell_bound [of "row s" 79] by (auto simp: vga_ok_def)
  then show "vga_ok (line_put c xs c' s)" using assms by (auto simp: vga_ok_def line_put_def)
qed (simp_all add: line_put_def)

lemma update_segment:
  assumes "length m = n" and "a + length xs < n"
  shows "(take a m @ xs @ drop (a + length xs) m)[a + length xs := v] = take a m @ (xs @ [v]) @ drop (a + length (xs @ [v])) m"
proof -
  have "drop (a + length xs) m = m ! (a + length xs) # drop (Suc (a + length xs)) m"
    using assms by (simp add: Cons_nth_drop_Suc)
  then show ?thesis using assms by (simp add: list_update_append)
qed

lemma write_text:
  assumes "vga_ok s" and "esc_state s = 0" and "plain xs" and "col s + length xs < 80"
  shows "\<exists>t. vga_write_len xs s = Some (Inr (), t) \<and> shown t = shown (line_put (col s) xs (col s + length xs) s)"
  using assms(3,4)
proof (induction xs rule: rev_induct)
  case Nil
  then show ?case by (simp add: line_put_def shown_def)
next
  case (snoc x xs)
  let ?u = "line_put (col s) xs (col s + length xs) s"
  have p: "plain xs" "x \<notin> {8, 9, 10, 13, 27}" using snoc.prems(1) by (auto simp: plain_def)
  obtain t where t: "vga_write_len xs s = Some (Inr (), t)" "shown t = shown ?u" using snoc p by auto
  have lok: "vga_ok ?u" using assms(1) snoc.prems(2) by (intro line_put_ok) simp_all
  note st = shown_sel [OF t(2)] shown_ok [OF t(2)]
  obtain w where w: "vga_putc x t = Some (Inr (), w)"
      "shown w = shown t\<lparr>vga_memory := (vga_memory t)[row t * 80 + col t := vga_entry x (color t)], col := col t + 1\<rparr>"
    using putc_cell [of t x] lok p(2) assms(2) snoc.prems(2) st by (auto simp: line_put_def)
  have len: "length (vga_memory s) = 2000" "row s * 80 + col s + length xs < 2000"
    using assms(1) snoc.prems(2) cell_bound [of "row s" "col s + length xs"] by (auto simp: vga_ok_def)
  have "(vga_memory ?u)[row s * 80 + (col s + length xs) := vga_entry x (color s)] =
      vga_memory (line_put (col s) (xs @ [x]) (col s + length (xs @ [x])) s)"
    using update_segment [of "vga_memory s" 2000 "row s * 80 + col s" "map (\<lambda>x. vga_entry x (color s)) xs" "vga_entry x (color s)"] len
    by (simp add: line_put_def add.assoc)
  then have "shown w = shown (line_put (col s) (xs @ [x]) (col s + length (xs @ [x])) s)"
    using w(2) t(2) st by (simp add: line_put_def shown_def)
  moreover have "vga_write_len (xs @ [x]) s = Some (Inr (), w)"
    using write_append [OF t(1), of "[x]"] w(1) by simp
  ultimately show ?case by blast
qed

lemma shown_line_put: "shown u = shown v \<Longrightarrow> shown (line_put c xs c' u) = shown (line_put c xs c' v)"
  by (cases u; cases v) (simp add: shown_def line_put_def)

lemma write_backspaces:
  assumes "vga_ok s" and "esc_state s = 0" and "n \<le> col s"
  shows "\<exists>t. vga_write_len (replicate n 8) s = Some (Inr (), t) \<and> shown t = shown (line_put (col s - n) (replicate n 32) (col s - n) s)"
  using assms
proof (induction n arbitrary: s)
  case 0
  then show ?case by (simp add: line_put_def shown_def)
next
  case (Suc n)
  obtain u where u: "vga_putc 8 s = Some (Inr (), u)"
      "shown u = shown s\<lparr>vga_memory := (vga_memory s)[row s * 80 + (col s - 1) := vga_entry 32 (color s)], col := col s - 1\<rparr>"
    using putc_backspace [of s] Suc.prems by auto
  let ?v = "s\<lparr>vga_memory := (vga_memory s)[row s * 80 + (col s - 1) := vga_entry 32 (color s)], col := col s - 1\<rparr>"
  have v: "shown u = shown ?v" using u(2) by (simp add: shown_def)
  note st = shown_sel [OF v] shown_ok [OF v]
  have u': "vga_ok u" "esc_state u = 0" "n \<le> col u" using Suc.prems st by (auto simp: vga_ok_def)
  obtain t where t: "vga_write_len (replicate n 8) u = Some (Inr (), t)"
      "shown t = shown (line_put (col u - n) (replicate n 32) (col u - n) u)"
    using Suc.IH [OF u'] by blast
  let ?b = "row s * 80 + (col s - Suc n)"
  have len: "length (vga_memory s) = 2000" "?b + Suc n \<le> 2000" "row s * 80 + (col s - 1) = ?b + n"
    using Suc.prems cell_bound [of "row s" "col s - 1"] by (auto simp: vga_ok_def)
  have "take ?b ((vga_memory s)[?b + n := x]) @ replicate n x @ drop (?b + n) ((vga_memory s)[?b + n := x]) =
      take ?b (vga_memory s) @ replicate (Suc n) x @ drop (?b + Suc n) (vga_memory s)" for x
    using len by (simp add: drop_update_swap Cons_nth_drop_Suc [symmetric] replicate_append_same)
  note eq = this [of "vga_entry 32 (color s)"]
  have "line_put (col s - Suc n) (replicate n 32) (col s - Suc n) ?v = line_put (col s - Suc n) (replicate (Suc n) 32) (col s - Suc n) s"
    using eq unfolding line_put_def len(3) by (simp add: map_replicate_const len(3) add.assoc)
  moreover have "col u - n = col s - Suc n" using st by simp
  ultimately show ?case using u(1) t shown_line_put [OF v, of "col s - Suc n" "replicate n 32" "col s - Suc n"] by simp
qed

end
