(* ===== verification/Clock.thy ===== *)
theory Clock
  imports Prelude "HOL-Library.Signed_Division"
begin

unbundle bit_operations_syntax

text \<open>
  Time: \<^verbatim>\<open>kernel/time.c\<close>, which turns the date of the real-time clock into seconds since 1970,
  and the functions of \<^verbatim>\<open>shell/builtins.c\<close> that turn seconds back into a date and print it.
  The clock's registers are a function from register numbers to bytes. Unsigned quantities are
  words that wrap; the signed ones stay small.
\<close>

section \<open>From the clock to seconds\<close>

definition bcd_to_bin :: "u8 \<Rightarrow> int" where
  "bcd_to_bin v = uint (drop_bit 4 v) * 10 + uint (v AND 0x0F)"

definition days_from_civil :: "int \<Rightarrow> u32 \<Rightarrow> u32 \<Rightarrow> int" where
  "days_from_civil y m d =
     (let y = y - (if m \<le> 2 then 1 else 0);
          era = (if y \<ge> 0 then y else y - 399) sdiv 400;
          yoe = word_of_int (y - era * 400) :: u32;
          doy = (153 * (m + (if m > 2 then -3 else 9)) + 2) div 5 + d - 1;
          doe = yoe * 365 + yoe div 4 - yoe div 100 + doy
      in era * 146097 + sint doe - 719468)"

definition rtc_field :: "(u8 \<Rightarrow> u8) \<Rightarrow> u8 \<Rightarrow> int" where
  "rtc_field cmos reg = (if cmos 0x0B AND 0x04 \<noteq> 0 then uint (cmos reg) else bcd_to_bin (cmos reg))"

definition time_now :: "(u8 \<Rightarrow> u8) \<Rightarrow> u32" where
  "time_now cmos =
     (let sec = rtc_field cmos 0x00; min = rtc_field cmos 0x02; hour = rtc_field cmos 0x04;
          day = rtc_field cmos 0x07; mon = rtc_field cmos 0x08; year = rtc_field cmos 0x09;
          full_year = 2000 + year;
          days = days_from_civil full_year (word_of_int mon) (word_of_int day)
      in word_of_int days * 86400 + word_of_int hour * 3600 + word_of_int min * 60 + word_of_int sec)"

section \<open>From seconds to a date\<close>

record civil =
  c_year :: u32
  c_mon :: u32
  c_day :: u32
  c_hour :: u32
  c_min :: u32
  c_sec :: u32

definition unix_to_civil :: "u32 \<Rightarrow> civil" where
  "unix_to_civil epoch =
     (let days = epoch div 86400;
          rem = epoch mod 86400;
          hour = rem div 3600;
          rem = rem mod 3600;
          z = days + 719468;
          era = z div 146097;
          doe = z - era * 146097;
          yoe = (doe - doe div 1460 + doe div 36524 - doe div 146096) div 365;
          doy = doe - (365 * yoe + yoe div 4 - yoe div 100);
          mp = (5 * doy + 2) div 153;
          mon = mp + (if mp < 10 then 3 else -9)
      in \<lparr>c_year = era * 400 + yoe + (if mon \<le> 2 then 1 else 0), c_mon = mon, c_day = doy - (153 * mp + 2) div 5 + 1,
          c_hour = hour, c_min = rem div 60, c_sec = rem mod 60\<rparr>)"

definition put2 :: "u32 \<Rightarrow> bytes" where
  "put2 v = [48 + ucast ((v div 10) mod 10), 48 + ucast (v mod 10)]"

definition put4 :: "u32 \<Rightarrow> bytes" where
  "put4 v = [48 + ucast ((v div 1000) mod 10), 48 + ucast ((v div 100) mod 10), 48 + ucast ((v div 10) mod 10), 48 + ucast (v mod 10)]"

text \<open>The text that a buffer of the given size receives, without its terminator; nothing is
  written into a buffer of no bytes.\<close>

definition format_epoch :: "u32 \<Rightarrow> nat \<Rightarrow> bytes option" where
  "format_epoch epoch buf_size =
     (if buf_size < 20 then if buf_size \<noteq> 0 then Some [] else None
      else if epoch = 0 then Some (lit ''-'')
      else let c = unix_to_civil epoch in
        Some (put4 (c_year c) @ lit ''-'' @ put2 (c_mon c) @ lit ''-'' @ put2 (c_day c) @ lit '' '' @
              put2 (c_hour c) @ lit '':'' @ put2 (c_min c) @ lit '':'' @ put2 (c_sec c)))"

section \<open>The calendar\<close>

definition leap :: "nat \<Rightarrow> bool" where
  "leap y \<longleftrightarrow> y mod 4 = 0 \<and> (y mod 100 \<noteq> 0 \<or> y mod 400 = 0)"

definition month_len :: "nat \<Rightarrow> nat \<Rightarrow> nat" where
  "month_len y m = (if m = 2 then if leap y then 29 else 28 else if m \<in> {4, 6, 9, 11} then 30 else 31)"

definition valid_date :: "nat \<Rightarrow> nat \<Rightarrow> nat \<Rightarrow> bool" where
  "valid_date y m d \<longleftrightarrow> 1 \<le> m \<and> m \<le> 12 \<and> 1 \<le> d \<and> d \<le> month_len y m"

text \<open>Years that begin in March, in cycles of 400 years.\<close>

definition year_start :: "nat \<Rightarrow> nat" where
  "year_start yoe = 365 * yoe + yoe div 4 - yoe div 100"

definition year_len :: "nat \<Rightarrow> nat" where
  "year_len yoe = (if leap (yoe + 1) then 366 else 365)"

definition guess :: "nat \<Rightarrow> nat" where
  "guess doe = doe - doe div 1460 + doe div 36524 - doe div 146096"

lemma guess_step:
  fixes n :: nat
  shows "a' \<le> Suc a \<Longrightarrow> b' + q \<le> b + q' \<Longrightarrow> a \<le> n \<Longrightarrow> b \<le> q \<Longrightarrow> b' \<le> q' \<Longrightarrow> n - a + q - b \<le> Suc n - a' + q' - b'"
  by linarith

lemma guess_Suc: "guess n \<le> guess (Suc n)"
proof -
  have a: "Suc n div 1460 \<le> Suc (n div 1460)" by (simp add: div_Suc)
  define q where "q = n div 36524"
  define q' where "q' = Suc n div 36524"
  have "q' = q \<or> q' = Suc q" unfolding q_def q'_def by (simp add: div_Suc)
  moreover have "n div 146096 = q div 4" "Suc n div 146096 = q' div 4"
    using div_mult2_eq [of n 36524 4] div_mult2_eq [of "Suc n" 36524 4] by (simp_all add: q_def q'_def)
  ultimately have "Suc n div 146096 + q \<le> n div 146096 + q'" by auto
  moreover have "n div 1460 \<le> n" "n div 146096 \<le> n div 36524" "Suc n div 146096 \<le> Suc n div 36524"
    by (auto intro: div_le_mono2)
  ultimately show ?thesis using a unfolding guess_def q_def q'_def by (intro guess_step)
qed

lemma guess_mono: "m \<le> n \<Longrightarrow> guess m \<le> guess n"
  by (rule lift_Suc_mono_le [of guess]) (rule guess_Suc)

definition year_ok :: "nat \<Rightarrow> bool" where
  "year_ok k \<longleftrightarrow> 365 * k \<le> guess (year_start k) \<and> guess (year_start k + year_len k - 1) < 365 * (k + 1)"

text \<open>Checked for the years that occur: 1999, whose January and February belong to 2000, and 2000 to 2105.\<close>

lemma years_ok: "k < 106 \<or> k = 399 \<Longrightarrow> year_ok k"
proof -
  assume "k < 106 \<or> k = 399"
  then consider "k = 0" | "k = 1" | "k \<in> set [2..<106]" | "k = 399" unfolding set_upt by fastforce
  moreover have "list_all year_ok [2..<106]"
    by (simp add: year_ok_def guess_def year_start_def year_len_def leap_def)
  ultimately show "year_ok k"
    by cases (simp_all add: year_ok_def guess_def year_start_def year_len_def leap_def list_all_iff del: upt_rec_numeral)
qed

lemma guess_year:
  assumes "yoe < 106 \<or> yoe = 399" and "doy < year_len yoe"
  shows "guess (year_start yoe + doy) div 365 = yoe"
proof -
  have "year_ok yoe" using years_ok assms(1) .
  moreover have "guess (year_start yoe) \<le> guess (year_start yoe + doy)"
    "guess (year_start yoe + doy) \<le> guess (year_start yoe + year_len yoe - 1)"
    using assms(2) by (auto intro!: guess_mono)
  ultimately have "yoe * 365 \<le> guess (year_start yoe + doy)" "guess (year_start yoe + doy) < (yoe + 1) * 365"
    by (simp_all add: year_ok_def)
  then show ?thesis by (simp add: div_nat_eqI)
qed

text \<open>Months count from March.\<close>

definition month_start :: "nat \<Rightarrow> nat" where
  "month_start mp = (153 * mp + 2) div 5"

definition march_month :: "nat \<Rightarrow> nat" where
  "march_month m = (if m > 2 then m - 3 else m + 9)"

lemma month_cases: "1 \<le> m \<Longrightarrow> m \<le> 12 \<Longrightarrow> m \<in> {1, 2, 3, 4, 5, 6, 7, 8, 9, 10, 11, 12 :: nat}"
  unfolding insert_iff empty_iff by arith

lemma leap_cycle: "leap (y mod 400 + 1) = leap (y + 1)"
proof -
  have "(y mod 400 + 1) mod 4 = (y + 1) mod 4" "(y mod 400 + 1) mod 100 = (y + 1) mod 100" "(y mod 400 + 1) mod 400 = (y + 1) mod 400"
    by (metis mod_add_left_eq mod_mod_cancel dvd_refl dvd_triv_left numeral_times_numeral semiring_norm(11,12,13))+
  then show ?thesis by (simp only: leap_def)
qed

lemma month_room:
  assumes "m \<in> {1, 2, 3, 4, 5, 6, 7, 8, 9, 10, 11, 12}" and "1 \<le> d" and "d \<le> month_len y m"
  shows "153 * march_month m \<le> 5 * (month_start (march_month m) + d - 1) + 2"
    and "5 * (month_start (march_month m) + d - 1) + 2 < 153 * Suc (march_month m)"
    and "m > 2 \<Longrightarrow> month_start (march_month m) + d - 1 < 306"
    and "m \<le> 2 \<Longrightarrow> month_start (march_month m) + d - 1 < (if leap y then 366 else 365)"
  using assms by (elim insertE emptyE; simp add: march_month_def month_start_def month_len_def split: if_splits)+

lemma month_of_day:
  assumes "valid_date y m d" and "1 \<le> y"
  shows "(5 * (month_start (march_month m) + d - 1) + 2) div 153 = march_month m"
    and "month_start (march_month m) + d - 1 < year_len ((y - (if m \<le> 2 then 1 else 0)) mod 400)"
proof -
  have m: "m \<in> {1, 2, 3, 4, 5, 6, 7, 8, 9, 10, 11, 12}" and d: "1 \<le> d" "d \<le> month_len y m"
    using assms month_cases by (auto simp: valid_date_def)
  note r = month_room [OF m d]
  show "(5 * (month_start (march_month m) + d - 1) + 2) div 153 = march_month m"
    using r(1,2) by (intro div_nat_eqI) simp_all
  have "y - 1 + 1 = y" using assms(2) by simp
  then have "leap ((y - 1) mod 400 + 1) = leap y" using leap_cycle [of "y - 1"] by simp
  then show "month_start (march_month m) + d - 1 < year_len ((y - (if m \<le> 2 then 1 else 0)) mod 400)"
    using r(3,4) by (cases "m \<le> 2") (simp_all add: year_len_def)
qed

text \<open>The number of a day, counted from the first of March of year zero.\<close>

definition day_number :: "nat \<Rightarrow> nat \<Rightarrow> nat \<Rightarrow> nat" where
  "day_number y m d =
     (let y' = y - (if m \<le> 2 then 1 else 0)
      in y' div 400 * 146097 + (year_start (y' mod 400) + (month_start (march_month m) + d - 1)))"

lemma year_start_bound: "k < 106 \<or> k = 399 \<Longrightarrow> year_start k + year_len k \<le> 146097"
proof (elim disjE)
  assume "k < 106"
  moreover have "year_start k \<le> 365 * k + k" unfolding year_start_def
    by (meson add_left_mono diff_le_self div_le_dividend le_trans)
  ultimately show ?thesis by (simp add: year_len_def)
qed (simp add: year_start_def year_len_def leap_def)

text \<open>The part of a date that the two directions of the conversion compute with.\<close>

lemma date_parts:
  assumes "valid_date y m d" and "2000 \<le> y" "y < 2106" and y': "y' = y - (if m \<le> 2 then 1 else 0)"
    and doy: "doy = month_start (march_month m) + d - 1" and doe: "doe = year_start (y' mod 400) + doy"
  shows "y' div 400 \<in> {4, 5}" "y' mod 400 < 106 \<or> y' mod 400 = 399" "doe < 146097" "guess doe div 365 = y' mod 400"
    "(5 * doy + 2) div 153 = march_month m" "doy < 366" "y' < 2106" "doe - year_start (y' mod 400) = doy"
proof -
  have y1: "1999 \<le> y'" "y' < 2106" using assms by auto
  then consider "y' = 1999" | "2000 \<le> y'" by linarith
  then have q: "y' div 400 \<in> {4, 5} \<and> (y' mod 400 < 106 \<or> y' mod 400 = 399)"
  proof cases
    case 2
    then have "y' div 400 = 5" using y1 by (intro div_nat_eqI) simp_all
    moreover from this have "y' mod 400 = y' - 2000" using div_mult_mod_eq [of y' 400] by linarith
    ultimately show ?thesis using y1 by auto
  qed simp
  then show "y' div 400 \<in> {4, 5}" and k: "y' mod 400 < 106 \<or> y' mod 400 = 399" by blast+
  have "1 \<le> y" using assms(2) by simp
  note md = month_of_day [OF assms(1) this, folded doy y']
  show "(5 * doy + 2) div 153 = march_month m" by (rule md(1))
  show "doy < 366" using md(2) by (auto simp: year_len_def split: if_splits)
  show "doe < 146097" using md(2) year_start_bound [OF k] by (simp add: doe)
  show "guess doe div 365 = y' mod 400" unfolding doe by (rule guess_year [OF k md(2)])
qed (use y' assms(3) in \<open>auto simp: doe\<close>)

lemma day_number_bounds:
  assumes v: "valid_date y m d" and y: "2000 \<le> y" "y < 2106"
  shows "719468 \<le> day_number y m d" "day_number y m d \<le> 769142"
proof -
  define y' where "y' = y - (if m \<le> 2 then 1 else 0)"
  define doy where "doy = month_start (march_month m) + d - 1"
  define doe where "doe = year_start (y' mod 400) + doy"
  note p = date_parts [OF v y y'_def doy_def doe_def]
  have z: "day_number y m d = y' div 400 * 146097 + doe" by (simp add: day_number_def Let_def y'_def doe_def doy_def)
  have "1999 \<le> y'" "y' \<le> 2105" "y' = 2105 \<longrightarrow> 2 < m" using y by (auto simp: y'_def)
  then consider "y' = 1999" | "2000 \<le> y'" "y' < 2105" | "y' = 2105" "2 < m" by linarith
  then have "719468 \<le> day_number y m d \<and> day_number y m d \<le> 769142"
  proof cases
    case 1
    then show ?thesis using p(6) by (simp add: z doe_def year_start_def)
  next
    case 2
    then have "y' div 400 = 5" by (intro div_nat_eqI) simp_all
    moreover from this have "y' mod 400 \<le> 104" using 2 div_mult_mod_eq [of y' 400] by linarith
    then have "year_start (y' mod 400) \<le> 37986" unfolding year_start_def by linarith
    ultimately show ?thesis using p(6) by (simp add: z doe_def)
  next
    case 3
    have "m \<le> 12" "d \<le> 31" using v by (auto simp: valid_date_def month_len_def split: if_splits)
    then have "month_start (march_month m) \<le> 275" "d \<le> 31" using 3 by (auto simp: march_month_def month_start_def)
    then show ?thesis using 3 by (simp add: z doe_def doy_def year_start_def)
  qed
  then show "719468 \<le> day_number y m d" "day_number y m d \<le> 769142" by auto
qed

lemma unat_small: "n < 2 ^ 32 \<Longrightarrow> unat (word_of_nat n :: u32) = n"
  by (simp add: unat_of_nat)

lemma days_from_civil_number:
  assumes v: "valid_date y m d" and y: "2000 \<le> y" "y < 2106"
  shows "days_from_civil (int y) (word_of_nat m) (word_of_nat d) = int (day_number y m d) - 719468"
proof -
  define y' where "y' = y - (if m \<le> 2 then 1 else 0)"
  define doy where "doy = month_start (march_month m) + d - 1"
  define doe where "doe = year_start (y' mod 400) + doy"
  note p = date_parts [OF v y y'_def doy_def doe_def]
  have m: "1 \<le> m" "m \<le> 12" "1 \<le> d" "d \<le> 31" using v by (auto simp: valid_date_def month_len_def split: if_splits)
  have um: "unat (word_of_nat m :: u32) = m" "unat (word_of_nat d :: u32) = d" using m by (simp_all add: unat_small)
  have mm: "(word_of_nat m :: u32) + (if (word_of_nat m :: u32) > 2 then -3 else 9) = word_of_nat (march_month m)"
    using m by (simp add: march_month_def word_less_nat_alt um of_nat_diff)
  have mb: "march_month m \<le> 11" using m by (auto simp: march_month_def)
  then have "unat ((153 * word_of_nat (march_month m) + 2) div 5 :: u32) = month_start (march_month m)"
    by (simp add: month_start_def unat_div unat_word_ariths unat_small)
  moreover have "month_start (march_month m) < 2 ^ 32" using mb by (simp add: month_start_def)
  ultimately have "(153 * word_of_nat (march_month m) + 2) div 5 = (word_of_nat (month_start (march_month m)) :: u32)"
    using word_unat_eq_iff unat_small by metis
  then have dy: "(153 * word_of_nat (march_month m) + 2) div 5 + word_of_nat d - 1 = (word_of_nat doy :: u32)"
    using m(3) by (simp add: doy_def of_nat_diff)
  let ?k = "y' mod 400"
  have "int y' - int (y' div 400) * 400 = int ?k" using minus_div_mult_eq_mod [of "int y'" 400] by (simp add: zdiv_int zmod_int)
  then have ye: "(word_of_int (int y' - int (y' div 400) * 400) :: u32) = word_of_nat ?k" by (simp only: of_int_of_nat_eq)
  have "?k < 2 ^ 32" by (rule less_le_trans [of _ 400]) simp_all
  then have dv: "(word_of_nat ?k div 4 :: u32) = word_of_nat (?k div 4)" "(word_of_nat ?k div 100 :: u32) = word_of_nat (?k div 100)"
    by (simp_all add: word_unat_eq_iff unat_div unat_small)
  have "?k div 100 \<le> 365 * ?k + ?k div 4" by linarith
  then have de: "word_of_nat ?k * 365 + word_of_nat ?k div 4 - word_of_nat ?k div 100 + word_of_nat doy = (word_of_nat doe :: u32)"
    unfolding dv doe_def year_start_def by (simp add: of_nat_diff mult.commute)
  have "sint (word_of_nat doe :: u32) = int doe"
    using p(3) by (simp add: sint_uint signed_take_bit_eq_if_positive uint_nat unat_of_nat bit_iff_odd take_bit_int_eq_self)
  moreover have "(if (0 :: int) \<le> int y' then int y' else int y' - 399) sdiv 400 = int (y' div 400)"
    using y by (simp add: signed_divide_int_def zdiv_int y'_def)
  moreover have "int y - (if (word_of_nat m :: u32) \<le> 2 then 1 else 0) = int y'"
    using m y by (auto simp: y'_def word_le_nat_alt um)
  ultimately show ?thesis
    unfolding days_from_civil_def Let_def mm dy using ye de
    by (simp add: day_number_def Let_def y'_def [symmetric] doe_def doy_def)
qed

lemma word_nat_of: "unat w = n \<Longrightarrow> w = (word_of_nat n :: u32)"
  by auto

lemma month_of_march_month:
  assumes "1 \<le> m" "m \<le> 12" and mp: "unat mp = march_month m"
  shows "mp + (if mp < 10 then 3 else -9) = (word_of_nat m :: u32)"
    and "(153 * mp + 2) div 5 = (word_of_nat (month_start (march_month m)) :: u32)"
proof -
  show "mp + (if mp < 10 then 3 else -9) = (word_of_nat m :: u32)"
    using assms word_nat_of [OF mp] by (auto simp: march_month_def word_less_nat_alt of_nat_diff split: if_splits)
  have "unat (153 * mp + 2) = 153 * march_month m + 2" using assms by (simp add: march_month_def unat_word_ariths)
  then show "(153 * mp + 2) div 5 = (word_of_nat (month_start (march_month m)) :: u32)"
    by (intro word_nat_of) (simp add: unat_div month_start_def)
qed

lemma time_of_day:
  assumes "unat epoch = n * 86400 + hh * 3600 + mm * 60 + ss" "hh < 24" "mm < 60" "ss < 60"
  shows "epoch mod 86400 div 3600 = (word_of_nat hh :: u32)" "epoch mod 86400 mod 3600 div 60 = (word_of_nat mm :: u32)"
    "epoch mod 86400 mod 3600 mod 60 = (word_of_nat ss :: u32)"
proof -
  have "(n * 86400 + (hh * 3600 + mm * 60 + ss)) mod 86400 = (hh * 3600 + (mm * 60 + ss))"
    using assms(2-4) by (subst mod_mult_self3) (simp add: mod_less)
  then have u: "unat epoch mod 86400 = hh * 3600 + (mm * 60 + ss)" using assms(1) by (simp add: unat_mod add.assoc)
  have r: "unat epoch mod 86400 mod 3600 = mm * 60 + ss"
    unfolding u using assms(3,4) by simp
  show "epoch mod 86400 div 3600 = (word_of_nat hh :: u32)"
    using assms(3,4) by (intro word_nat_of) (simp add: unat_div unat_mod u )
  show "epoch mod 86400 mod 3600 div 60 = (word_of_nat mm :: u32)" "epoch mod 86400 mod 3600 mod 60 = (word_of_nat ss :: u32)"
    using assms(4) by (intro word_nat_of, simp add: unat_div unat_mod r )+
qed

lemma unix_to_civil_number:
  assumes v: "valid_date y m d" and y: "2000 \<le> y" "y < 2106" and t: "hh < 24" "mm < 60" "ss < 60"
    and e: "unat epoch = (day_number y m d - 719468) * 86400 + hh * 3600 + mm * 60 + ss"
  shows "unix_to_civil epoch = \<lparr>c_year = word_of_nat y, c_mon = word_of_nat m, c_day = word_of_nat d,
    c_hour = word_of_nat hh, c_min = word_of_nat mm, c_sec = word_of_nat ss\<rparr>"
proof -
  define y' where "y' = y - (if m \<le> 2 then 1 else 0)"
  define doy where "doy = month_start (march_month m) + d - 1"
  define doe where "doe = year_start (y' mod 400) + doy"
  note p = date_parts [OF v y y'_def doy_def doe_def]
  have m: "1 \<le> m" "m \<le> 12" "1 \<le> d" "d \<le> 31" using v by (auto simp: valid_date_def month_len_def split: if_splits)
  have z: "day_number y m d = y' div 400 * 146097 + doe" by (simp add: day_number_def Let_def y'_def doe_def doy_def)
  let ?N = "day_number y m d - 719468" and ?t = "hh * 3600 + mm * 60 + ss"
  note N = day_number_bounds [OF v y]
  have t': "?t < 86400" using t by linarith
  have e': "unat epoch = ?N * 86400 + ?t" using e by simp
  define z' where "z' = epoch div 86400 + 719468"
  have uz: "unat z' = y' div 400 * 146097 + doe"
    using N t' e' unfolding z [symmetric] by (simp add: z'_def unat_word_ariths unat_div)
  define era where "era = z' div 146097"
  have uera: "unat era = y' div 400" using p(3) by (simp add: era_def unat_div uz)
  define de where "de = z' - era * 146097"
  have "unat (era * 146097) = y' div 400 * 146097" using p(1) by (auto simp: unat_word_ariths uera)
  then have ude: "unat de = doe" unfolding de_def by (subst unat_sub) (simp_all add: word_le_nat_alt uz)
  define yoe where "yoe = (de - de div 1460 + de div 36524 - de div 146096) div 365"
  have ud: "unat (de div 1460) = doe div 1460" "unat (de div 36524) = doe div 36524" "unat (de div 146096) = doe div 146096"
    by (simp_all add: unat_div ude)
  have "unat (de - de div 1460) = doe - doe div 1460" by (subst unat_sub) (simp_all add: word_le_nat_alt ud ude)
  then have "unat (de - de div 1460 + de div 36524) = doe - doe div 1460 + doe div 36524"
    using p(3) by (subst unat_word_ariths(1)) (simp add: ud)
  moreover have "doe div 146096 \<le> doe div 36524" by (rule div_le_mono2) simp_all
  ultimately have "unat (de - de div 1460 + de div 36524 - de div 146096) = guess doe"
    by (subst unat_sub) (simp_all add: word_le_nat_alt ud guess_def)
  then have uyoe: "unat yoe = y' mod 400" using p(4) by (simp add: yoe_def unat_div)
  define dy where "dy = de - (365 * yoe + yoe div 4 - yoe div 100)"
  have "unat (365 * yoe + yoe div 4) = 365 * (y' mod 400) + y' mod 400 div 4"
    using p(2) unfolding unat_word_ariths unat_div uyoe by (auto intro!: mod_less)
  then have "unat (365 * yoe + yoe div 4 - yoe div 100) = year_start (y' mod 400)"
    by (subst unat_sub) (simp_all add: word_le_nat_alt unat_div uyoe year_start_def)
  then have udy: "unat dy = doy" unfolding dy_def by (subst unat_sub) (simp_all add: word_le_nat_alt ude doe_def)
  define mp where "mp = (5 * dy + 2) div 153"
  have "unat (5 * dy + 2) = 5 * doy + 2" using p(6) by (simp add: unat_word_ariths udy)
  then have ump: "unat mp = march_month m" using p(5) by (simp add: mp_def unat_div)
  have "era * 400 + yoe = word_of_nat (y' div 400 * 400 + y' mod 400)"
    unfolding word_nat_of [OF uera] word_nat_of [OF uyoe] of_nat_add of_nat_mult by simp
  then have yr: "era * 400 + yoe = word_of_nat y'" by (simp only: div_mult_mod_eq)
  have yy: "word_of_nat y' + (if (word_of_nat m :: u32) \<le> 2 then 1 else 0) = (word_of_nat y :: u32)"
    using m y by (auto simp: y'_def word_le_nat_alt unat_small of_nat_diff)
  have dd: "dy - word_of_nat (month_start (march_month m)) + 1 = word_of_nat d"
    using word_nat_of [OF udy] m by (simp add: doy_def of_nat_diff)
  note f = z'_def [symmetric] era_def [symmetric] de_def [symmetric] yoe_def [symmetric] dy_def [symmetric] mp_def [symmetric]
  show ?thesis
    unfolding unix_to_civil_def Let_def f month_of_march_month [OF m(1,2) ump] yr yy dd time_of_day [OF e t] by simp
qed


text \<open>The last second of the leap day of 2024, with the registers in BCD.\<close>

definition leap_day_clock :: "u8 \<Rightarrow> u8" where
  "leap_day_clock r = (if r = 9 then 0x24 else if r = 8 then 0x02 else if r = 7 then 0x29 else if r = 4 then 0x23
     else if r = 2 \<or> r = 0 then 0x59 else 0)"


end
