(* ===== verification/Spec2Isabelle.thy ===== *)
theory Spec2Isabelle
  imports Vmm Task_Correct Printf Vfs_Correct Ext2_Dirs Keyboard Vga Clock
begin

text \<open>
  \<^bold>\<open>PureUNIX.\<close> A verification of the kernel of PureUNIX, an operating system for the i686 written in C.
  The sources are under \<^verbatim>\<open>src/\<close>; paths below are relative to it.

  \<^bold>\<open>The program.\<close> The kernel boots from a Multiboot loader, collects the usable memory
  (\<^verbatim>\<open>kernel/pmm.c\<close>), switches paging on (\<^verbatim>\<open>kernel/vmm.c\<close>), and builds a heap in a fixed range of
  addresses (\<^verbatim>\<open>kernel/heap.c\<close>). Tasks (\<^verbatim>\<open>kernel/task.c\<close>) share one address space and take turns by
  yielding; each has a table of open files and the credentials that the virtual file system
  (\<^verbatim>\<open>fs/vfs.c\<close>) checks. The file system layer resolves paths, finds the driver that is mounted there
  and calls its table of operations; the root driver is ext2 (\<^verbatim>\<open>fs/ext2/\<close>). Keys come from an
  interrupt handler (\<^verbatim>\<open>drivers/keyboard.c\<close>), text goes to the screen and the serial line
  (\<^verbatim>\<open>drivers/vga.c\<close>, \<^verbatim>\<open>drivers/serial.c\<close>), and \<^verbatim>\<open>libc/\<close> has the string and formatting routines
  that all of them use.

  \<^bold>\<open>How the code is modelled.\<close> Definitions carry the names of the C functions. Machine integers are
  words of their width, so that arithmetic wraps as it does on the machine. Memory that the code
  addresses through pointers is a function from 32-bit addresses to bytes, read and written at 8,
  16 and 32 bits (theory \<^verbatim>\<open>Memory\<close>); static data of a driver is a record. A function with effects
  takes the state and returns it; a function that can fail returns an error beside the state
  (theory \<^verbatim>\<open>Fallible\<close>), and an access outside a fixed buffer is the error \<^const>\<open>Overflow\<close>. A loop that
  may not end is a \<^theory_text>\<open>partial_function\<close>, and that it ends is proved where it is used; other loops
  recurse over their bound. No fuel is used.

  \<^bold>\<open>The theories.\<close>
  \<^item> \<^verbatim>\<open>Prelude\<close>: types, literals and shared lemmas. \<^verbatim>\<open>Memory\<close>: byte memory and the mem functions of
    \<^verbatim>\<open>libc/string.c\<close>. \<^verbatim>\<open>CString\<close>: the str functions. \<^verbatim>\<open>Printf\<close>: \<^verbatim>\<open>libc/ctype.c\<close>,
    \<^verbatim>\<open>libc/stdlib.c\<close>, \<^verbatim>\<open>libc/printf.c\<close>; formatted output stays in its buffer and numbers round trip.
  \<^item> \<^verbatim>\<open>Pmm\<close>: the frame bitmap, the parsers of the boot information and the initialisation, all of
    \<^verbatim>\<open>kernel/pmm.c\<close>; frames are never handed out twice, shown through the locale \<open>frame_source\<close>.
    \<^verbatim>\<open>Vmm\<close>: the page tables of \<^verbatim>\<open>kernel/vmm.c\<close>; mapping changes exactly one page.
  \<^item> \<^verbatim>\<open>Heap\<close>, \<^verbatim>\<open>Heap_Correct\<close>: \<^verbatim>\<open>kernel/heap.c\<close> on raw memory, refined to a list of blocks; first fit,
    merging, and safety of all clients, through the locale \<open>allocator\<close>.
  \<^item> \<^verbatim>\<open>Task\<close>, \<^verbatim>\<open>Task_Correct\<close>: \<^verbatim>\<open>kernel/task.c\<close> and \<^verbatim>\<open>arch/i386/context_switch.S\<close>; round robin order,
    fairness, creation, and the registers across a switch.
  \<^item> \<^verbatim>\<open>Vfs\<close>, \<^verbatim>\<open>Vfs_Correct\<close>: \<^verbatim>\<open>fs/vfs.c\<close> over arbitrary drivers; permissions, mount lookup, path
    resolution and its error cases.
  \<^item> \<^verbatim>\<open>Ext2\<close> (disk, block cache, superblock, inodes, allocation), \<^verbatim>\<open>Ext2_Dir\<close> (directory blocks) and
    \<^verbatim>\<open>Ext2_Write\<close> (files and the driver table) hold the definitions for \<^verbatim>\<open>fs/ext2/\<close>. \<^verbatim>\<open>Ext2_Cache\<close>
    shows that the cache is transparent (locale \<open>block_device\<close>), \<^verbatim>\<open>Ext2_Inode\<close> and \<^verbatim>\<open>Ext2_Alloc\<close> that
    inodes and bitmaps behave as maps and sets, \<^verbatim>\<open>Ext2_File\<close> that files read back what was written,
    \<^verbatim>\<open>Ext2_Entries\<close> and \<^verbatim>\<open>Ext2_Dirs\<close> that directories are finite maps from names to inodes.
  \<^item> \<^verbatim>\<open>Keyboard\<close>: \<^verbatim>\<open>drivers/keyboard.c\<close>; the ring is a bounded queue (locale \<open>bounded_queue\<close>).
    \<^verbatim>\<open>Vga\<close>: \<^verbatim>\<open>drivers/vga.c\<close> and \<^verbatim>\<open>drivers/serial.c\<close>; all output returns and stays on the screen.
    \<^verbatim>\<open>Clock\<close>: \<^verbatim>\<open>kernel/time.c\<close> and the date functions of \<^verbatim>\<open>shell/builtins.c\<close>; dates round trip.

  \<^bold>\<open>Bounds.\<close> The clock theorem covers the years 2000 to 2105, beyond which 32-bit seconds overflow.
  The ext2 theorems about contents assume a disk that serves its sectors and a layout in which the
  structures of the file system do not overlap; the invariants are stated in the theories and hold
  on the concrete disk of the witnesses.

  \<^bold>\<open>Not modelled.\<close> Console messages of the drivers; waiting for devices; interrupts other than as a
  sequence of events between which the code runs; the ATA driver, which the file systems see as a
  disk whose sector reads and writes may fail; the boot code, the panic and power routines, which
  end in a loop that halts the processor; the user programs and tests and the host scripts that
  build disk images.
\<close>

end
